theory Spec2Isabelle
  imports Main "HOL-Library.Word" "HOL-Library.Signed_Division"
begin

section \<open>C values, heap cells and outcomes\<close>

text \<open>
  The three programs (coarse spinlock, per-bucket read-write lock, two-level locking) share
  their data: a C \<open>int\<close> is a 32-bit word read as two's complement, a pointer to a
  \<open>bucket_entry\<close> is the address of a heap cell handed out by \<open>malloc\<close> and \<open>NULL\<close>
  is \<open>None\<close>.
\<close>

type_synonym c_int = "32 word"
type_synonym addr = nat

definition NUM_BUCKETS :: int where
  "NUM_BUCKETS = 5"

record bucket_entry =
  key :: c_int
  val :: c_int
  "next" :: "addr option"

text \<open>
  A call either returns, or ends the process through \<open>panic\<close> (the printed message, the
  exit status and the state the process is left in), or runs into undefined behaviour
  (an array element outside the array, a pointer to no live cell, unlocking a lock that
  is not held). A call that never returns (a loop over a cyclic chain, a lock that is never
  released) has the value \<open>None\<close>.
\<close>

datatype 's error = Exited int string 's | Undefined_Behaviour

type_synonym ('s, 'a) outcome = "('s error + 'a) option"

definition and_then :: "('s, 'a) outcome \<Rightarrow> ('a \<Rightarrow> ('s, 'b) outcome) \<Rightarrow> ('s, 'b) outcome" where
  "and_then m f = (case m of None \<Rightarrow> None | Some (Inl e) \<Rightarrow> Some (Inl e) | Some (Inr x) \<Rightarrow> f x)"

definition return :: "'a \<Rightarrow> ('s, 'a) outcome" where
  "return x = Some (Inr x)"

text \<open>\<open>void panic(char *msg) { printf("%s\n", msg); exit(1); }\<close>\<close>

definition panic :: "string \<Rightarrow> 's \<Rightarrow> ('s, 'a) outcome" where
  "panic msg s = Some (Inl (Exited 1 msg s))"

text \<open>\<open>xs[i]\<close> for a C \<open>int\<close> index: outside the array the behaviour is undefined.\<close>

definition index :: "'a list \<Rightarrow> int \<Rightarrow> ('s, 'a) outcome" where
  "index xs i = (if 0 \<le> i \<and> i < int (length xs) then return (xs ! nat i) else Some (Inl Undefined_Behaviour))"

text \<open>\<open>int i = key % NUM_BUCKETS;\<close> The remainder of C truncates towards zero.\<close>

definition slot :: "c_int \<Rightarrow> int" where
  "slot k = sint k smod NUM_BUCKETS"

section \<open>Memory\<close>

text \<open>
  The heap holds the live cells; \<open>mem_cells\<close> is the number of cells the allocator owns.
  \<open>malloc\<close> hands out the first cell that is not live and returns \<open>NULL\<close> when every
  cell is live; \<open>free\<close> ends the life of a cell.
\<close>

record 'e memory =
  heap :: "addr \<rightharpoonup> 'e"
  mem_cells :: nat
  table :: "addr option list"

definition malloc :: "('e, 'z) memory_scheme \<Rightarrow> addr option" where
  "malloc s = find (\<lambda>a. heap s a = None) [0..<mem_cells s]"

definition free :: "addr \<Rightarrow> ('e, 'z) memory_scheme \<Rightarrow> (('e, 'z) memory_scheme, ('e, 'z) memory_scheme) outcome" where
  "free a s = (case heap s a of None \<Rightarrow> Some (Inl Undefined_Behaviour)
               | Some e \<Rightarrow> return (s\<lparr>heap := (heap s)(a := None)\<rparr>))"

text \<open>\<open>p->val = v\<close> and reading \<open>*p\<close>.\<close>

definition store_val :: "addr \<Rightarrow> c_int \<Rightarrow> ('z bucket_entry_scheme, 'y) memory_scheme
    \<Rightarrow> (('z bucket_entry_scheme, 'y) memory_scheme, ('z bucket_entry_scheme, 'y) memory_scheme) outcome" where
  "store_val p v s = (case heap s p of None \<Rightarrow> Some (Inl Undefined_Behaviour)
                      | Some e \<Rightarrow> return (s\<lparr>heap := (heap s)(p \<mapsto> e\<lparr>val := v\<rparr>)\<rparr>))"

definition load :: "addr \<Rightarrow> ('e, 'y) memory_scheme \<Rightarrow> (('e, 'y) memory_scheme, 'e) outcome" where
  "load p s = (case heap s p of None \<Rightarrow> Some (Inl Undefined_Behaviour) | Some e \<Rightarrow> return e)"

text \<open>
  The scan shared by every \<open>insert\<close> and \<open>retrieve\<close>:
  \<open>for (current = table[i]; current != NULL; current = current->next) if (current->key == key) ...\<close>
  It yields the first cell whose key matches (the body then returns at once) or \<open>NULL\<close>
  when the loop runs off the end of the chain.
\<close>

partial_function (option) scan :: "(addr \<rightharpoonup> 'z bucket_entry_scheme) \<Rightarrow> addr option \<Rightarrow> c_int \<Rightarrow> ('s, addr option) outcome" where
  "scan h current k =
     (case current of
        None \<Rightarrow> Some (Inr None)
      | Some a \<Rightarrow>
          (case h a of
             None \<Rightarrow> Some (Inl Undefined_Behaviour)
           | Some e \<Rightarrow> if key e = k then Some (Inr (Some a)) else scan h (next e) k))"

declare scan.simps [code]

section \<open>Variant A: one spinlock per bucket (parallel_spin.c)\<close>

datatype spinlock = Spin_Unlocked | Spin_Locked

record spin_state = "bucket_entry memory" +
  bucket_spinlocks :: "spinlock list"

definition pthread_spin_lock :: "int \<Rightarrow> spin_state \<Rightarrow> (spin_state, spin_state) outcome" where
  "pthread_spin_lock i s =
     and_then (index (bucket_spinlocks s) i) (\<lambda>l.
       case l of Spin_Locked \<Rightarrow> None
       | Spin_Unlocked \<Rightarrow> return (s\<lparr>bucket_spinlocks := (bucket_spinlocks s)[nat i := Spin_Locked]\<rparr>))"

definition pthread_spin_unlock :: "int \<Rightarrow> spin_state \<Rightarrow> (spin_state, spin_state) outcome" where
  "pthread_spin_unlock i s =
     and_then (index (bucket_spinlocks s) i) (\<lambda>l.
       case l of Spin_Unlocked \<Rightarrow> Some (Inl Undefined_Behaviour)
       | Spin_Locked \<Rightarrow> return (s\<lparr>bucket_spinlocks := (bucket_spinlocks s)[nat i := Spin_Unlocked]\<rparr>))"

definition insert_spin :: "c_int \<Rightarrow> c_int \<Rightarrow> spin_state \<Rightarrow> (spin_state, spin_state) outcome" where
  "insert_spin k v s =
     (let i = slot k in
      and_then (pthread_spin_lock i s) (\<lambda>s.
      and_then (index (table s) i) (\<lambda>head.
      and_then (scan (heap s) head k) (\<lambda>current.
        case current of
          Some c \<Rightarrow> and_then (store_val c v s) (pthread_spin_unlock i)
        | None \<Rightarrow>
            (case malloc s of
               None \<Rightarrow> and_then (pthread_spin_unlock i s) (panic ''No memory to allocate bucket!'')
             | Some e \<Rightarrow>
                 pthread_spin_unlock i
                   (s\<lparr>heap := (heap s)(e \<mapsto> \<lparr>key = k, val = v, next = table s ! nat i\<rparr>),
                      table := (table s)[nat i := Some e]\<rparr>))))))"

definition retrieve_spin :: "c_int \<Rightarrow> spin_state \<Rightarrow> (spin_state, addr option \<times> spin_state) outcome" where
  "retrieve_spin k s =
     (let i = slot k in
      and_then (pthread_spin_lock i s) (\<lambda>s.
      and_then (index (table s) i) (\<lambda>head.
      and_then (scan (heap s) head k) (\<lambda>found.
        case found of
          Some b \<Rightarrow>
            (case malloc s of
               None \<Rightarrow> and_then (pthread_spin_unlock i s) (panic ''No memory to allocate result!'')
             | Some result \<Rightarrow>
                 and_then (load b s) (\<lambda>e.
                 and_then (pthread_spin_unlock i
                     (s\<lparr>heap := (heap s)(result \<mapsto> \<lparr>key = key e, val = val e, next = None\<rparr>)\<rparr>)) (\<lambda>s.
                 return (Some result, s))))
        | None \<Rightarrow> and_then (pthread_spin_unlock i s) (\<lambda>s. return (None, s))))))"

section \<open>Variant B: one read-write lock per bucket\<close>

text \<open>
  A \<open>pthread_rwlock_t\<close> is free, held by a number of readers, or held by one writer.
  A reader waits for a writer, a writer waits for everybody.
\<close>

datatype rwlock = RW_Unlocked | RW_Readers nat | RW_Writer

record 'e rw_state = "'e memory" +
  bucket_locks :: "rwlock list"

definition pthread_rwlock_rdlock :: "int \<Rightarrow> ('e, 'z) rw_state_scheme \<Rightarrow> (('e, 'z) rw_state_scheme, ('e, 'z) rw_state_scheme) outcome" where
  "pthread_rwlock_rdlock i s =
     and_then (index (bucket_locks s) i) (\<lambda>l.
       case l of RW_Writer \<Rightarrow> None
       | RW_Readers n \<Rightarrow> return (s\<lparr>bucket_locks := (bucket_locks s)[nat i := RW_Readers (Suc n)]\<rparr>)
       | RW_Unlocked \<Rightarrow> return (s\<lparr>bucket_locks := (bucket_locks s)[nat i := RW_Readers 1]\<rparr>))"

definition pthread_rwlock_wrlock :: "int \<Rightarrow> ('e, 'z) rw_state_scheme \<Rightarrow> (('e, 'z) rw_state_scheme, ('e, 'z) rw_state_scheme) outcome" where
  "pthread_rwlock_wrlock i s =
     and_then (index (bucket_locks s) i) (\<lambda>l.
       case l of RW_Unlocked \<Rightarrow> return (s\<lparr>bucket_locks := (bucket_locks s)[nat i := RW_Writer]\<rparr>)
       | _ \<Rightarrow> None)"

definition pthread_rwlock_unlock :: "int \<Rightarrow> ('e, 'z) rw_state_scheme \<Rightarrow> (('e, 'z) rw_state_scheme, ('e, 'z) rw_state_scheme) outcome" where
  "pthread_rwlock_unlock i s =
     and_then (index (bucket_locks s) i) (\<lambda>l.
       case l of RW_Unlocked \<Rightarrow> Some (Inl Undefined_Behaviour)
       | RW_Writer \<Rightarrow> return (s\<lparr>bucket_locks := (bucket_locks s)[nat i := RW_Unlocked]\<rparr>)
       | RW_Readers n \<Rightarrow>
           return (s\<lparr>bucket_locks := (bucket_locks s)[nat i := (if n \<le> 1 then RW_Unlocked else RW_Readers (n - 1))]\<rparr>))"

definition insert_rw :: "c_int \<Rightarrow> c_int \<Rightarrow> bucket_entry rw_state \<Rightarrow> (bucket_entry rw_state, bucket_entry rw_state) outcome" where
  "insert_rw k v s =
     (let i = slot k in
      and_then (pthread_rwlock_wrlock i s) (\<lambda>s.
      and_then (index (table s) i) (\<lambda>head.
      and_then (scan (heap s) head k) (\<lambda>current.
        case current of
          Some c \<Rightarrow> and_then (store_val c v s) (pthread_rwlock_unlock i)
        | None \<Rightarrow>
            (case malloc s of
               None \<Rightarrow> and_then (pthread_rwlock_unlock i s) (panic ''No memory to allocate bucket!'')
             | Some e \<Rightarrow>
                 pthread_rwlock_unlock i
                   (s\<lparr>heap := (heap s)(e \<mapsto> \<lparr>key = k, val = v, next = table s ! nat i\<rparr>),
                      table := (table s)[nat i := Some e]\<rparr>))))))"

definition retrieve_rw :: "c_int \<Rightarrow> bucket_entry rw_state \<Rightarrow> (bucket_entry rw_state, addr option \<times> bucket_entry rw_state) outcome" where
  "retrieve_rw k s =
     (let i = slot k in
      and_then (pthread_rwlock_rdlock i s) (\<lambda>s.
      and_then (index (table s) i) (\<lambda>head.
      and_then (scan (heap s) head k) (\<lambda>found.
        case found of
          Some b \<Rightarrow>
            (case malloc s of
               None \<Rightarrow> and_then (pthread_rwlock_unlock i s) (panic ''No memory to allocate result!'')
             | Some result \<Rightarrow>
                 and_then (load b s) (\<lambda>e.
                 and_then (pthread_rwlock_unlock i
                     (s\<lparr>heap := (heap s)(result \<mapsto> \<lparr>key = key e, val = val e, next = None\<rparr>)\<rparr>)) (\<lambda>s.
                 return (Some result, s))))
        | None \<Rightarrow> and_then (pthread_rwlock_unlock i s) (\<lambda>s. return (None, s))))))"

section \<open>Variant C: bucket read-write lock and one mutex per entry\<close>

datatype mutex = Mutex_Unlocked | Mutex_Locked

record bucket_entry_m = bucket_entry +
  entry_mutex :: mutex

text \<open>
  The state of variant C also keeps the sequence of lock operations performed so far, so
  that the order in which a call takes and gives back its locks can be stated.
\<close>

datatype lock_event = Acquire_Bucket int | Release_Bucket int | Acquire_Entry addr | Release_Entry addr

record two_level_state = "bucket_entry_m rw_state" +
  lock_log :: "lock_event list"

definition logged :: "lock_event \<Rightarrow> two_level_state \<Rightarrow> (two_level_state, two_level_state) outcome" where
  "logged ev s = return (s\<lparr>lock_log := lock_log s @ [ev]\<rparr>)"

definition rdlock_bucket :: "int \<Rightarrow> two_level_state \<Rightarrow> (two_level_state, two_level_state) outcome" where
  "rdlock_bucket i s = and_then (pthread_rwlock_rdlock i s) (logged (Acquire_Bucket i))"

definition wrlock_bucket :: "int \<Rightarrow> two_level_state \<Rightarrow> (two_level_state, two_level_state) outcome" where
  "wrlock_bucket i s = and_then (pthread_rwlock_wrlock i s) (logged (Acquire_Bucket i))"

definition unlock_bucket :: "int \<Rightarrow> two_level_state \<Rightarrow> (two_level_state, two_level_state) outcome" where
  "unlock_bucket i s = and_then (pthread_rwlock_unlock i s) (logged (Release_Bucket i))"

definition pthread_mutex_lock :: "addr \<Rightarrow> two_level_state \<Rightarrow> (two_level_state, two_level_state) outcome" where
  "pthread_mutex_lock p s =
     (case heap s p of
        None \<Rightarrow> Some (Inl Undefined_Behaviour)
      | Some e \<Rightarrow>
          (case entry_mutex e of
             Mutex_Locked \<Rightarrow> None
           | Mutex_Unlocked \<Rightarrow>
               logged (Acquire_Entry p) (s\<lparr>heap := (heap s)(p \<mapsto> e\<lparr>entry_mutex := Mutex_Locked\<rparr>)\<rparr>)))"

definition pthread_mutex_unlock :: "addr \<Rightarrow> two_level_state \<Rightarrow> (two_level_state, two_level_state) outcome" where
  "pthread_mutex_unlock p s =
     (case heap s p of
        None \<Rightarrow> Some (Inl Undefined_Behaviour)
      | Some e \<Rightarrow>
          (case entry_mutex e of
             Mutex_Unlocked \<Rightarrow> Some (Inl Undefined_Behaviour)
           | Mutex_Locked \<Rightarrow>
               logged (Release_Entry p) (s\<lparr>heap := (heap s)(p \<mapsto> e\<lparr>entry_mutex := Mutex_Unlocked\<rparr>)\<rparr>)))"

text \<open>
  The update of an entry that both scans of \<open>insert\<close> perform on a match: lock the
  entry, write the value, unlock the entry, unlock the bucket.
\<close>

definition update_entry :: "int \<Rightarrow> addr \<Rightarrow> c_int \<Rightarrow> two_level_state \<Rightarrow> (two_level_state, two_level_state) outcome" where
  "update_entry i c v s =
     and_then (pthread_mutex_lock c s) (\<lambda>s.
     and_then (store_val c v s) (\<lambda>s.
     and_then (pthread_mutex_unlock c s) (unlock_bucket i)))"

definition insert_two_level :: "c_int \<Rightarrow> c_int \<Rightarrow> two_level_state \<Rightarrow> (two_level_state, two_level_state) outcome" where
  "insert_two_level k v s =
     (let i = slot k in
      and_then (rdlock_bucket i s) (\<lambda>s.
      and_then (index (table s) i) (\<lambda>head.
      and_then (scan (heap s) head k) (\<lambda>current.
        case current of
          Some c \<Rightarrow> update_entry i c v s
        | None \<Rightarrow>
            and_then (unlock_bucket i s) (\<lambda>s.
            and_then (wrlock_bucket i s) (\<lambda>s.
            and_then (index (table s) i) (\<lambda>head.
            and_then (scan (heap s) head k) (\<lambda>current.
              case current of
                Some c \<Rightarrow> update_entry i c v s
              | None \<Rightarrow>
                  (case malloc s of
                     None \<Rightarrow> and_then (unlock_bucket i s) (panic ''No memory to allocate bucket!'')
                   | Some e \<Rightarrow>
                       unlock_bucket i
                         (s\<lparr>heap := (heap s)(e \<mapsto> \<lparr>key = k, val = v, next = table s ! nat i,
                                                   entry_mutex = Mutex_Unlocked\<rparr>),
                            table := (table s)[nat i := Some e]\<rparr>))))))))))"

definition retrieve_two_level :: "c_int \<Rightarrow> two_level_state \<Rightarrow> (two_level_state, addr option \<times> two_level_state) outcome" where
  "retrieve_two_level k s =
     (let i = slot k in
      and_then (rdlock_bucket i s) (\<lambda>s.
      and_then (index (table s) i) (\<lambda>head.
      and_then (scan (heap s) head k) (\<lambda>found.
        case found of
          Some b \<Rightarrow>
            and_then (pthread_mutex_lock b s) (\<lambda>s.
              case malloc s of
                None \<Rightarrow>
                  and_then (pthread_mutex_unlock b s) (\<lambda>s.
                  and_then (unlock_bucket i s) (panic ''No memory to allocate result!''))
              | Some result \<Rightarrow>
                  and_then (load b s) (\<lambda>e.
                  and_then (pthread_mutex_unlock b
                      (s\<lparr>heap := (heap s)(result \<mapsto> \<lparr>key = key e, val = val e, next = None,
                                                     entry_mutex = Mutex_Unlocked\<rparr>)\<rparr>)) (\<lambda>s.
                  and_then (unlock_bucket i s) (\<lambda>s.
                  return (Some result, s)))))
        | None \<Rightarrow> and_then (unlock_bucket i s) (\<lambda>s. return (None, s))))))"

section \<open>Well-formed tables\<close>

text \<open>
  \<open>chain h p as\<close>: following \<open>next\<close> from the pointer \<open>p\<close> visits exactly the live
  cells \<open>as\<close>, in this order, and then reaches \<open>NULL\<close>.
\<close>

fun chain :: "(addr \<rightharpoonup> 'z bucket_entry_scheme) \<Rightarrow> addr option \<Rightarrow> addr list \<Rightarrow> bool" where
  "chain h p [] = (p = None)"
| "chain h p (a # as) = (p = Some a \<and> (case h a of None \<Rightarrow> False | Some e \<Rightarrow> chain h (next e) as))"

definition key_at :: "(addr \<rightharpoonup> 'z bucket_entry_scheme) \<Rightarrow> addr \<Rightarrow> c_int" where
  "key_at h a = (case h a of Some e \<Rightarrow> key e | None \<Rightarrow> 0)"

definition val_at :: "(addr \<rightharpoonup> 'z bucket_entry_scheme) \<Rightarrow> addr \<Rightarrow> c_int" where
  "val_at h a = (case h a of Some e \<Rightarrow> val e | None \<Rightarrow> 0)"

text \<open>
  The state between two calls: the table has \<open>NUM_BUCKETS\<close> heads, every head starts a
  chain that ends, every entry sits in the bucket of its key, and no chain holds a key
  twice.
\<close>

definition bucket_ok :: "(addr \<rightharpoonup> 'z bucket_entry_scheme) \<Rightarrow> addr option list \<Rightarrow> nat \<Rightarrow> addr list \<Rightarrow> bool" where
  "bucket_ok h t i as =
     (chain h (t ! i) as \<and> (\<forall>a\<in>set as. slot (key_at h a) = int i) \<and> distinct (map (key_at h) as))"

definition table_ok :: "('z bucket_entry_scheme, 'y) memory_scheme \<Rightarrow> bool" where
  "table_ok s = (length (table s) = 5 \<and> (\<forall>i<5. \<exists>as. bucket_ok (heap s) (table s) i as))"

definition wf_spin :: "spin_state \<Rightarrow> bool" where
  "wf_spin s = (table_ok s \<and> bucket_spinlocks s = replicate 5 Spin_Unlocked)"

definition wf_rw :: "bucket_entry rw_state \<Rightarrow> bool" where
  "wf_rw s = (table_ok s \<and> bucket_locks s = replicate 5 RW_Unlocked)"

definition entries_unlocked :: "two_level_state \<Rightarrow> bool" where
  "entries_unlocked s =
     (\<forall>i<5. \<forall>as. chain (heap s) (table s ! i) as \<longrightarrow>
        (\<forall>a\<in>set as. \<forall>e. heap s a = Some e \<longrightarrow> entry_mutex e = Mutex_Unlocked))"

definition wf_two_level :: "two_level_state \<Rightarrow> bool" where
  "wf_two_level s = (table_ok s \<and> bucket_locks s = replicate 5 RW_Unlocked \<and> entries_unlocked s)"

text \<open>
  The state \<open>main\<close> sets up before the first thread starts: \<open>memset(table, 0, ...)\<close> and
  one initialised lock per bucket; no entry is allocated yet.
\<close>

definition init_spin :: "nat \<Rightarrow> spin_state" where
  "init_spin n = \<lparr>heap = Map.empty, mem_cells = n, table = replicate 5 None,
                  bucket_spinlocks = replicate 5 Spin_Unlocked\<rparr>"

definition init_rw :: "nat \<Rightarrow> bucket_entry rw_state" where
  "init_rw n = \<lparr>heap = Map.empty, mem_cells = n, table = replicate 5 None,
                bucket_locks = replicate 5 RW_Unlocked\<rparr>"

definition init_two_level :: "nat \<Rightarrow> two_level_state" where
  "init_two_level n = \<lparr>heap = Map.empty, mem_cells = n, table = replicate 5 None,
                       bucket_locks = replicate 5 RW_Unlocked, lock_log = []\<rparr>"

section \<open>Sequences of calls and what a caller observes\<close>

text \<open>
  A thread of the insert phase calls \<open>insert\<close> for one key after the other; the first
  call that does not return ends the run.
\<close>

fun insert_all_spin :: "(c_int \<times> c_int) list \<Rightarrow> spin_state \<Rightarrow> (spin_state, spin_state) outcome" where
  "insert_all_spin [] s = return s"
| "insert_all_spin ((k, v) # ops) s = and_then (insert_spin k v s) (insert_all_spin ops)"

fun insert_all_rw :: "(c_int \<times> c_int) list \<Rightarrow> bucket_entry rw_state \<Rightarrow> (bucket_entry rw_state, bucket_entry rw_state) outcome" where
  "insert_all_rw [] s = return s"
| "insert_all_rw ((k, v) # ops) s = and_then (insert_rw k v s) (insert_all_rw ops)"

fun insert_all_two_level :: "(c_int \<times> c_int) list \<Rightarrow> two_level_state \<Rightarrow> (two_level_state, two_level_state) outcome" where
  "insert_all_two_level [] s = return s"
| "insert_all_two_level ((k, v) # ops) s = and_then (insert_two_level k v s) (insert_all_two_level ops)"

text \<open>
  What the caller of \<open>retrieve\<close> sees: the value in the copy, \<open>NULL\<close>, the end of the
  process with a message, undefined behaviour, or no answer at all.
\<close>

datatype observation = Found c_int | Not_Found | Fatal string | Undefined | Hangs

definition observe :: "('s, addr option \<times> ('z bucket_entry_scheme, 'y) memory_scheme) outcome \<Rightarrow> observation" where
  "observe r =
     (case r of
        None \<Rightarrow> Hangs
      | Some (Inl (Exited _ msg _)) \<Rightarrow> Fatal msg
      | Some (Inl Undefined_Behaviour) \<Rightarrow> Undefined
      | Some (Inr (None, _)) \<Rightarrow> Not_Found
      | Some (Inr (Some r, s)) \<Rightarrow> (case heap s r of Some e \<Rightarrow> Found (val e) | None \<Rightarrow> Undefined))"

definition lookup_after_spin :: "nat \<Rightarrow> (c_int \<times> c_int) list \<Rightarrow> c_int \<Rightarrow> observation" where
  "lookup_after_spin n ops k = observe (and_then (insert_all_spin ops (init_spin n)) (retrieve_spin k))"

definition lookup_after_rw :: "nat \<Rightarrow> (c_int \<times> c_int) list \<Rightarrow> c_int \<Rightarrow> observation" where
  "lookup_after_rw n ops k = observe (and_then (insert_all_rw ops (init_rw n)) (retrieve_rw k))"

definition lookup_after_two_level :: "nat \<Rightarrow> (c_int \<times> c_int) list \<Rightarrow> c_int \<Rightarrow> observation" where
  "lookup_after_two_level n ops k =
     observe (and_then (insert_all_two_level ops (init_two_level n)) (retrieve_two_level k))"

text \<open>
  The value the table holds for a key: the \<open>val\<close> field of the entry the scan of the key's
  bucket stops at.
\<close>

definition stored :: "('z bucket_entry_scheme, 'y) memory_scheme \<Rightarrow> c_int \<Rightarrow> c_int option" where
  "stored s k =
     (if slot k < 0 then None
      else case (scan (heap s) (table s ! nat (slot k)) k :: (unit, addr option) outcome) of
             Some (Inr (Some c)) \<Rightarrow> Some (val_at (heap s) c)
           | _ \<Rightarrow> None)"

text \<open>
  The table holds a key exactly once, with a given value: the chain of the key's bucket
  has exactly one entry with this key, and the entry carries the value.
\<close>

definition holds_once :: "('z bucket_entry_scheme, 'y) memory_scheme \<Rightarrow> c_int \<Rightarrow> c_int \<Rightarrow> bool" where
  "holds_once s k v =
     (0 \<le> slot k \<and>
      (\<exists>as c. chain (heap s) (table s ! nat (slot k)) as
         \<and> filter (\<lambda>a. key_at (heap s) a = k) as = [c] \<and> val_at (heap s) c = v))"

text \<open>
  Bucket \<open>j\<close> is the same in two states: the same head, and the chain from it runs over
  the same cells in the same order, each cell with the same contents.
\<close>

definition bucket_unchanged ::
  "('z bucket_entry_scheme, 'y) memory_scheme \<Rightarrow> ('z bucket_entry_scheme, 'y) memory_scheme \<Rightarrow> nat \<Rightarrow> bool" where
  "bucket_unchanged s s' j =
     (table s' ! j = table s ! j \<and>
      (\<forall>as. chain (heap s) (table s ! j) as \<longrightarrow>
         chain (heap s') (table s' ! j) as \<and> (\<forall>a\<in>set as. heap s' a = heap s a)))"

section \<open>The table as a map\<close>

text \<open>
  The reference the three variants are compared with: the table is a finite map from keys
  to values, \<open>insert\<close> is an upsert on it and \<open>lookup\<close> reads it. The map comes with
  the memory it lives in (the number of cells and the set of live cells), because a new key
  and a result copy each need a cell and the process ends when there is none. A key whose
  C remainder is negative has no bucket.
\<close>

record abstract_table =
  capacity :: nat
  live :: "addr set"
  content :: "c_int \<rightharpoonup> c_int"

definition abstraction :: "('z bucket_entry_scheme, 'y) memory_scheme \<Rightarrow> abstract_table" where
  "abstraction s = \<lparr>capacity = mem_cells s, live = dom (heap s), content = stored s\<rparr>"

definition first_free :: "abstract_table \<Rightarrow> addr option" where
  "first_free t = find (\<lambda>a. a \<notin> live t) [0..<capacity t]"

definition map_insert :: "c_int \<Rightarrow> c_int \<Rightarrow> abstract_table \<Rightarrow> (unit, abstract_table) outcome" where
  "map_insert k v t =
     (if slot k < 0 then Some (Inl Undefined_Behaviour)
      else if content t k \<noteq> None then return (t\<lparr>content := (content t)(k \<mapsto> v)\<rparr>)
      else case first_free t of
             None \<Rightarrow> panic ''No memory to allocate bucket!'' ()
           | Some a \<Rightarrow> return (t\<lparr>live := insert a (live t), content := (content t)(k \<mapsto> v)\<rparr>))"

fun map_insert_all :: "(c_int \<times> c_int) list \<Rightarrow> abstract_table \<Rightarrow> (unit, abstract_table) outcome" where
  "map_insert_all [] t = return t"
| "map_insert_all ((k, v) # ops) t = and_then (map_insert k v t) (map_insert_all ops)"

definition map_lookup :: "c_int \<Rightarrow> abstract_table \<Rightarrow> observation" where
  "map_lookup k t =
     (if slot k < 0 then Undefined
      else case content t k of
             None \<Rightarrow> Not_Found
           | Some v \<Rightarrow> (case first_free t of None \<Rightarrow> Fatal ''No memory to allocate result!'' | Some r \<Rightarrow> Found v))"

definition map_lookup_after :: "nat \<Rightarrow> (c_int \<times> c_int) list \<Rightarrow> c_int \<Rightarrow> observation" where
  "map_lookup_after n ops k =
     (case map_insert_all ops \<lparr>capacity = n, live = {}, content = Map.empty\<rparr> of
        None \<Rightarrow> Hangs
      | Some (Inl (Exited _ msg _)) \<Rightarrow> Fatal msg
      | Some (Inl Undefined_Behaviour) \<Rightarrow> Undefined
      | Some (Inr t) \<Rightarrow> map_lookup k t)"

text \<open>An outcome of a variant, seen on the map: the state it returns is abstracted.\<close>

definition abstract :: "('s, ('z bucket_entry_scheme, 'y) memory_scheme) outcome \<Rightarrow> (unit, abstract_table) outcome" where
  "abstract r =
     (case r of
        None \<Rightarrow> None
      | Some (Inl (Exited st msg _)) \<Rightarrow> Some (Inl (Exited st msg ()))
      | Some (Inl Undefined_Behaviour) \<Rightarrow> Some (Inl Undefined_Behaviour)
      | Some (Inr s) \<Rightarrow> Some (Inr (abstraction s)))"

section \<open>The lock ordering discipline\<close>

text \<open>
  A sequence of lock operations of one thread, checked from the bucket locks \<open>bs\<close> and the
  entry locks \<open>es\<close> the thread holds: a bucket lock is only taken while no entry lock is
  held, an entry lock is only taken while a bucket lock is held and no other entry lock is.
\<close>

fun lock_order_ok :: "int list \<Rightarrow> addr list \<Rightarrow> lock_event list \<Rightarrow> bool" where
  "lock_order_ok bs es [] = True"
| "lock_order_ok bs es (Acquire_Bucket i # evs) = (es = [] \<and> lock_order_ok (i # bs) es evs)"
| "lock_order_ok bs es (Acquire_Entry a # evs) = (bs \<noteq> [] \<and> es = [] \<and> lock_order_ok bs (a # es) evs)"
| "lock_order_ok bs es (Release_Bucket i # evs) = lock_order_ok (remove1 i bs) es evs"
| "lock_order_ok bs es (Release_Entry a # evs) = lock_order_ok bs (remove1 a es) evs"

fun locks_held :: "int list \<Rightarrow> addr list \<Rightarrow> lock_event list \<Rightarrow> int list \<times> addr list" where
  "locks_held bs es [] = (bs, es)"
| "locks_held bs es (Acquire_Bucket i # evs) = locks_held (i # bs) es evs"
| "locks_held bs es (Acquire_Entry a # evs) = locks_held bs (a # es) evs"
| "locks_held bs es (Release_Bucket i # evs) = locks_held (remove1 i bs) es evs"
| "locks_held bs es (Release_Entry a # evs) = locks_held bs (remove1 a es) evs"

section \<open>The entry point\<close>

text \<open>
  \<open>atoi\<close> of the C library, as ISO C describes it (\<open>(int) strtol(nptr, NULL, 10)\<close>):
  white space is skipped, one sign is read, then the longest run of decimal digits; no
  digit at all gives 0, whatever follows the digits is ignored, and a value that does not
  fit an \<open>int\<close> is undefined behaviour.
\<close>

definition isspace :: "char \<Rightarrow> bool" where
  "isspace c = (of_char c \<in> {32, 9, 10, 11, 12, 13 :: nat})"

definition isdigit :: "char \<Rightarrow> bool" where
  "isdigit c = (48 \<le> (of_char c :: nat) \<and> (of_char c :: nat) \<le> 57)"

definition digits_value :: "string \<Rightarrow> int" where
  "digits_value ds = foldl (\<lambda>a c. 10 * a + (int (of_char c) - 48)) 0 ds"

definition atoi :: "string \<Rightarrow> ('s, int) outcome" where
  "atoi nptr =
     (let s1 = dropWhile isspace nptr;
          (neg, s2) = (case s1 of
                         c # r \<Rightarrow> if c = CHR ''-'' then (True, r) else if c = CHR ''+'' then (False, r) else (False, s1)
                       | [] \<Rightarrow> (False, s1));
          n = digits_value (takeWhile isdigit s2);
          v = (if neg then - n else n)
      in if - (2 ^ 31) \<le> v \<and> v < 2 ^ 31 then return v else Some (Inl Undefined_Behaviour))"

text \<open>
  \<open>main\<close> up to the point where the table is set up: \<open>argv\<close> holds the program name and
  the arguments, \<open>argc\<close> is its length. A rejected invocation ends the process before
  there is any table, so the state it leaves is the empty one.
\<close>

definition check_args :: "string \<Rightarrow> string list \<Rightarrow> (unit, int) outcome" where
  "check_args usage argv =
     (if length argv \<noteq> 2 then panic usage ()
      else and_then (atoi (argv ! 1)) (\<lambda>num_threads.
        if num_threads \<le> 0 then panic ''must enter a valid number of threads to run'' ()
        else return num_threads))"

definition main_spin :: "nat \<Rightarrow> string list \<Rightarrow> (unit, int \<times> spin_state) outcome" where
  "main_spin cells argv =
     and_then (check_args ''usage: ./parallel_spin <num_threads>'' argv) (\<lambda>num_threads.
       return (num_threads, init_spin cells))"

definition main_rw :: "nat \<Rightarrow> string list \<Rightarrow> (unit, int \<times> bucket_entry rw_state) outcome" where
  "main_rw cells argv =
     and_then (check_args ''usage: ./parallel_mutex <num_threads>'' argv) (\<lambda>num_threads.
       return (num_threads, init_rw cells))"

definition main_two_level :: "nat \<Rightarrow> string list \<Rightarrow> (unit, int \<times> two_level_state) outcome" where
  "main_two_level cells argv =
     and_then (check_args ''usage: ./parallel_mutex <num_threads>'' argv) (\<lambda>num_threads.
       return (num_threads, init_two_level cells))"

section \<open>Example states\<close>

text \<open>
  The table after \<open>insert(1, 10)\<close> and \<open>insert(6, 20)\<close> from the empty table with three
  cells of memory: both keys share bucket 1, the entry of key 6 is its head.
\<close>

definition example_spin :: spin_state where
  "example_spin =
     \<lparr>heap = [0 \<mapsto> \<lparr>key = 1, val = 10, next = None\<rparr>, 1 \<mapsto> \<lparr>key = 6, val = 20, next = Some 0\<rparr>],
      mem_cells = 3, table = [None, Some 1, None, None, None],
      bucket_spinlocks = replicate 5 Spin_Unlocked\<rparr>"

definition example_rw :: "bucket_entry rw_state" where
  "example_rw =
     \<lparr>heap = [0 \<mapsto> \<lparr>key = 1, val = 10, next = None\<rparr>, 1 \<mapsto> \<lparr>key = 6, val = 20, next = Some 0\<rparr>],
      mem_cells = 3, table = [None, Some 1, None, None, None],
      bucket_locks = replicate 5 RW_Unlocked\<rparr>"

definition example_two_level :: two_level_state where
  "example_two_level =
     \<lparr>heap = [0 \<mapsto> \<lparr>key = 1, val = 10, next = None, entry_mutex = Mutex_Unlocked\<rparr>,
              1 \<mapsto> \<lparr>key = 6, val = 20, next = Some 0, entry_mutex = Mutex_Unlocked\<rparr>],
      mem_cells = 3, table = [None, Some 1, None, None, None],
      bucket_locks = replicate 5 RW_Unlocked, lock_log = []\<rparr>"

section \<open>Threads of variant C\<close>

text \<open>
  To follow several threads through \<open>insert\<close> and \<open>retrieve\<close> of the two-level variant,
  the two functions are cut at their accesses to shared data. A thread is at a program
  point, with its arguments and its local pointers; a step performs the statement at this
  point on the shared state. The statements of the update of a matching entry occur twice
  in \<open>insert\<close>, after the scan under the shared lock and after the scan under the exclusive
  lock; the points in the two copies carry the scan they belong to.
\<close>

datatype scan_mode = Shared_Scan | Exclusive_Scan

datatype program_point =
    Insert_Rdlock
  | Insert_Head scan_mode
  | Insert_Loop scan_mode
  | Insert_Mutex_Lock scan_mode
  | Insert_Store scan_mode
  | Insert_Mutex_Unlock scan_mode
  | Insert_Unlock_Return scan_mode
  | Insert_Unlock_Shared
  | Insert_Wrlock
  | Insert_Malloc
  | Insert_Fail_Unlock
  | Insert_Panic
  | Insert_Publish
  | Insert_Unlock_Exclusive
  | Retrieve_Rdlock
  | Retrieve_Head
  | Retrieve_Loop
  | Retrieve_Mutex_Lock
  | Retrieve_Malloc
  | Retrieve_Fail_Mutex_Unlock
  | Retrieve_Fail_Unlock
  | Retrieve_Panic
  | Retrieve_Mutex_Unlock
  | Retrieve_Unlock_Found
  | Retrieve_Unlock_Null
  | Returned

text \<open>
  The frame of a thread: the arguments \<open>key\<close> and \<open>val\<close> (\<open>retrieve\<close> has no \<open>val\<close>), the
  loop pointer (\<open>current\<close> in \<open>insert\<close>, \<open>b\<close> in \<open>retrieve\<close>), the pointer to the cell
  the call allocates (\<open>e\<close> in \<open>insert\<close>, \<open>result\<close> in \<open>retrieve\<close>, which is also what
  \<open>retrieve\<close> returns), and the lock operations the thread has performed.
\<close>

record thread =
  pc :: program_point
  key_arg :: c_int
  val_arg :: c_int
  current :: "addr option"
  allocated :: "addr option"
  trace :: "lock_event list"

definition call_insert :: "c_int \<Rightarrow> c_int \<Rightarrow> thread" where
  "call_insert k v = \<lparr>pc = Insert_Rdlock, key_arg = k, val_arg = v, current = None, allocated = None, trace = []\<rparr>"

definition call_retrieve :: "c_int \<Rightarrow> thread" where
  "call_retrieve k = \<lparr>pc = Retrieve_Rdlock, key_arg = k, val_arg = 0, current = None, allocated = None, trace = []\<rparr>"

text \<open>\<open>p->...\<close> for a pointer \<open>p\<close>: undefined for \<open>NULL\<close>.\<close>

definition deref :: "addr option \<Rightarrow> (addr \<Rightarrow> ('s, 'a) outcome) \<Rightarrow> ('s, 'a) outcome" where
  "deref p f = (case p of None \<Rightarrow> Some (Inl Undefined_Behaviour) | Some a \<Rightarrow> f a)"

text \<open>
  One step of a thread. \<open>None\<close> means that the thread cannot move now: it waits for a
  lock, or it has returned. A cell that \<open>malloc\<close> hands out is known to its thread only,
  until \<open>table[i] = e\<close> in \<open>insert\<close> or the return of \<open>retrieve\<close>; the allocation and the
  initialisation of its fields are therefore one step.
\<close>

primrec exec :: "program_point \<Rightarrow> thread \<Rightarrow> two_level_state \<Rightarrow> (two_level_state, thread \<times> two_level_state) outcome" where
  "exec Insert_Rdlock th s =
     and_then (rdlock_bucket (slot (key_arg th)) s) (\<lambda>s.
       return (th\<lparr>pc := Insert_Head Shared_Scan, trace := trace th @ [Acquire_Bucket (slot (key_arg th))]\<rparr>, s))"
| "exec (Insert_Head m) th s =
     and_then (index (table s) (slot (key_arg th))) (\<lambda>head.
       return (th\<lparr>pc := Insert_Loop m, current := head\<rparr>, s))"
| "exec (Insert_Loop m) th s =
     (case current th of
        None \<Rightarrow> return (th\<lparr>pc := (case m of Shared_Scan \<Rightarrow> Insert_Unlock_Shared | Exclusive_Scan \<Rightarrow> Insert_Malloc)\<rparr>, s)
      | Some a \<Rightarrow>
          and_then (load a s) (\<lambda>e.
            if key e = key_arg th then return (th\<lparr>pc := Insert_Mutex_Lock m\<rparr>, s)
            else return (th\<lparr>current := next e\<rparr>, s)))"
| "exec (Insert_Mutex_Lock m) th s =
     deref (current th) (\<lambda>c.
       and_then (pthread_mutex_lock c s) (\<lambda>s.
         return (th\<lparr>pc := Insert_Store m, trace := trace th @ [Acquire_Entry c]\<rparr>, s)))"
| "exec (Insert_Store m) th s =
     deref (current th) (\<lambda>c.
       and_then (store_val c (val_arg th) s) (\<lambda>s. return (th\<lparr>pc := Insert_Mutex_Unlock m\<rparr>, s)))"
| "exec (Insert_Mutex_Unlock m) th s =
     deref (current th) (\<lambda>c.
       and_then (pthread_mutex_unlock c s) (\<lambda>s.
         return (th\<lparr>pc := Insert_Unlock_Return m, trace := trace th @ [Release_Entry c]\<rparr>, s)))"
| "exec (Insert_Unlock_Return m) th s =
     and_then (unlock_bucket (slot (key_arg th)) s) (\<lambda>s.
       return (th\<lparr>pc := Returned, trace := trace th @ [Release_Bucket (slot (key_arg th))]\<rparr>, s))"
| "exec Insert_Unlock_Shared th s =
     and_then (unlock_bucket (slot (key_arg th)) s) (\<lambda>s.
       return (th\<lparr>pc := Insert_Wrlock, trace := trace th @ [Release_Bucket (slot (key_arg th))]\<rparr>, s))"
| "exec Insert_Wrlock th s =
     and_then (wrlock_bucket (slot (key_arg th)) s) (\<lambda>s.
       return (th\<lparr>pc := Insert_Head Exclusive_Scan, trace := trace th @ [Acquire_Bucket (slot (key_arg th))]\<rparr>, s))"
| "exec Insert_Malloc th s =
     (case malloc s of
        None \<Rightarrow> return (th\<lparr>pc := Insert_Fail_Unlock, allocated := None\<rparr>, s)
      | Some e \<Rightarrow>
          and_then (index (table s) (slot (key_arg th))) (\<lambda>head.
            return (th\<lparr>pc := Insert_Publish, allocated := Some e\<rparr>,
                    s\<lparr>heap := (heap s)(e \<mapsto> \<lparr>key = key_arg th, val = val_arg th, next = head,
                                              entry_mutex = Mutex_Unlocked\<rparr>)\<rparr>)))"
| "exec Insert_Fail_Unlock th s =
     and_then (unlock_bucket (slot (key_arg th)) s) (\<lambda>s.
       return (th\<lparr>pc := Insert_Panic, trace := trace th @ [Release_Bucket (slot (key_arg th))]\<rparr>, s))"
| "exec Insert_Panic th s = panic ''No memory to allocate bucket!'' s"
| "exec Insert_Publish th s =
     (if 0 \<le> slot (key_arg th) \<and> slot (key_arg th) < int (length (table s))
      then return (th\<lparr>pc := Insert_Unlock_Exclusive\<rparr>, s\<lparr>table := (table s)[nat (slot (key_arg th)) := allocated th]\<rparr>)
      else Some (Inl Undefined_Behaviour))"
| "exec Insert_Unlock_Exclusive th s =
     and_then (unlock_bucket (slot (key_arg th)) s) (\<lambda>s.
       return (th\<lparr>pc := Returned, trace := trace th @ [Release_Bucket (slot (key_arg th))]\<rparr>, s))"
| "exec Retrieve_Rdlock th s =
     and_then (rdlock_bucket (slot (key_arg th)) s) (\<lambda>s.
       return (th\<lparr>pc := Retrieve_Head, trace := trace th @ [Acquire_Bucket (slot (key_arg th))]\<rparr>, s))"
| "exec Retrieve_Head th s =
     and_then (index (table s) (slot (key_arg th))) (\<lambda>head.
       return (th\<lparr>pc := Retrieve_Loop, current := head\<rparr>, s))"
| "exec Retrieve_Loop th s =
     (case current th of
        None \<Rightarrow> return (th\<lparr>pc := Retrieve_Unlock_Null\<rparr>, s)
      | Some a \<Rightarrow>
          and_then (load a s) (\<lambda>e.
            if key e = key_arg th then return (th\<lparr>pc := Retrieve_Mutex_Lock\<rparr>, s)
            else return (th\<lparr>current := next e\<rparr>, s)))"
| "exec Retrieve_Mutex_Lock th s =
     deref (current th) (\<lambda>b.
       and_then (pthread_mutex_lock b s) (\<lambda>s.
         return (th\<lparr>pc := Retrieve_Malloc, trace := trace th @ [Acquire_Entry b]\<rparr>, s)))"
| "exec Retrieve_Malloc th s =
     (case malloc s of
        None \<Rightarrow> return (th\<lparr>pc := Retrieve_Fail_Mutex_Unlock, allocated := None\<rparr>, s)
      | Some result \<Rightarrow>
          deref (current th) (\<lambda>b.
            and_then (load b s) (\<lambda>e.
              return (th\<lparr>pc := Retrieve_Mutex_Unlock, allocated := Some result\<rparr>,
                      s\<lparr>heap := (heap s)(result \<mapsto> \<lparr>key = key e, val = val e, next = None,
                                                     entry_mutex = Mutex_Unlocked\<rparr>)\<rparr>))))"
| "exec Retrieve_Fail_Mutex_Unlock th s =
     deref (current th) (\<lambda>b.
       and_then (pthread_mutex_unlock b s) (\<lambda>s.
         return (th\<lparr>pc := Retrieve_Fail_Unlock, trace := trace th @ [Release_Entry b]\<rparr>, s)))"
| "exec Retrieve_Fail_Unlock th s =
     and_then (unlock_bucket (slot (key_arg th)) s) (\<lambda>s.
       return (th\<lparr>pc := Retrieve_Panic, trace := trace th @ [Release_Bucket (slot (key_arg th))]\<rparr>, s))"
| "exec Retrieve_Panic th s = panic ''No memory to allocate result!'' s"
| "exec Retrieve_Mutex_Unlock th s =
     deref (current th) (\<lambda>b.
       and_then (pthread_mutex_unlock b s) (\<lambda>s.
         return (th\<lparr>pc := Retrieve_Unlock_Found, trace := trace th @ [Release_Entry b]\<rparr>, s)))"
| "exec Retrieve_Unlock_Found th s =
     and_then (unlock_bucket (slot (key_arg th)) s) (\<lambda>s.
       return (th\<lparr>pc := Returned, trace := trace th @ [Release_Bucket (slot (key_arg th))]\<rparr>, s))"
| "exec Retrieve_Unlock_Null th s =
     and_then (unlock_bucket (slot (key_arg th)) s) (\<lambda>s.
       return (th\<lparr>pc := Returned, allocated := None, trace := trace th @ [Release_Bucket (slot (key_arg th))]\<rparr>, s))"
| "exec Returned th s = None"

text \<open>
  The process: the shared table and the threads. A schedule names the thread that moves
  next; a schedule that names a thread that cannot move, or no thread at all, is not an
  execution and has the value \<open>None\<close>.
\<close>

record process =
  shared :: two_level_state
  threads :: "thread list"

definition step :: "nat \<Rightarrow> process \<Rightarrow> (two_level_state, process) outcome" where
  "step t c =
     (if t < length (threads c)
      then and_then (exec (pc (threads c ! t)) (threads c ! t) (shared c)) (\<lambda>(th, s).
             return \<lparr>shared = s, threads = (threads c)[t := th]\<rparr>)
      else None)"

fun run :: "nat list \<Rightarrow> process \<Rightarrow> (two_level_state, process) outcome" where
  "run [] c = return c"
| "run (t # sched) c = and_then (step t c) (run sched)"

section \<open>Properties of interleaved runs\<close>

text \<open>
  The locks a thread holds at its program point: the lock of the bucket of its key from the
  first \<open>rdlock\<close> to the \<open>unlock\<close> that follows and again from \<open>wrlock\<close> to the last
  \<open>unlock\<close>, and the lock of the entry its loop pointer stopped at between
  \<open>pthread_mutex_lock\<close> and \<open>pthread_mutex_unlock\<close>.
\<close>

definition holding :: "thread \<Rightarrow> int list \<times> addr list" where
  "holding th =
     (let i = slot (key_arg th); c = (case current th of None \<Rightarrow> [] | Some a \<Rightarrow> [a]) in
      case pc th of
        Insert_Rdlock \<Rightarrow> ([], [])
      | Insert_Wrlock \<Rightarrow> ([], [])
      | Insert_Panic \<Rightarrow> ([], [])
      | Retrieve_Rdlock \<Rightarrow> ([], [])
      | Retrieve_Panic \<Rightarrow> ([], [])
      | Returned \<Rightarrow> ([], [])
      | Insert_Store m \<Rightarrow> ([i], c)
      | Insert_Mutex_Unlock m \<Rightarrow> ([i], c)
      | Retrieve_Malloc \<Rightarrow> ([i], c)
      | Retrieve_Fail_Mutex_Unlock \<Rightarrow> ([i], c)
      | Retrieve_Mutex_Unlock \<Rightarrow> ([i], c)
      | _ \<Rightarrow> ([i], []))"

definition disciplined :: "thread \<Rightarrow> bool" where
  "disciplined th = (lock_order_ok [] [] (trace th) \<and> locks_held [] [] (trace th) = holding th)"

text \<open>
  A thread holds the lock of its bucket in shared mode from \<open>rdlock\<close> to the \<open>unlock\<close>
  that follows, in exclusive mode from \<open>wrlock\<close> to the \<open>unlock\<close> that follows.
\<close>

definition reading :: "thread \<Rightarrow> bool" where
  "reading th =
     (pc th \<in> {Insert_Head Shared_Scan, Insert_Loop Shared_Scan, Insert_Mutex_Lock Shared_Scan,
               Insert_Store Shared_Scan, Insert_Mutex_Unlock Shared_Scan, Insert_Unlock_Return Shared_Scan,
               Insert_Unlock_Shared, Retrieve_Head, Retrieve_Loop, Retrieve_Mutex_Lock, Retrieve_Malloc,
               Retrieve_Fail_Mutex_Unlock, Retrieve_Fail_Unlock, Retrieve_Mutex_Unlock, Retrieve_Unlock_Found,
               Retrieve_Unlock_Null})"

definition writing :: "thread \<Rightarrow> bool" where
  "writing th =
     (pc th \<in> {Insert_Head Exclusive_Scan, Insert_Loop Exclusive_Scan, Insert_Mutex_Lock Exclusive_Scan,
               Insert_Store Exclusive_Scan, Insert_Mutex_Unlock Exclusive_Scan,
               Insert_Unlock_Return Exclusive_Scan, Insert_Malloc, Insert_Fail_Unlock, Insert_Publish,
               Insert_Unlock_Exclusive})"

text \<open>The program points whose statement locks or unlocks the bucket.\<close>

definition lock_step :: "program_point \<Rightarrow> bool" where
  "lock_step p =
     (case p of
        Insert_Rdlock \<Rightarrow> True
      | Insert_Unlock_Return m \<Rightarrow> True
      | Insert_Unlock_Shared \<Rightarrow> True
      | Insert_Wrlock \<Rightarrow> True
      | Insert_Fail_Unlock \<Rightarrow> True
      | Insert_Unlock_Exclusive \<Rightarrow> True
      | Retrieve_Rdlock \<Rightarrow> True
      | Retrieve_Fail_Unlock \<Rightarrow> True
      | Retrieve_Unlock_Found \<Rightarrow> True
      | Retrieve_Unlock_Null \<Rightarrow> True
      | _ \<Rightarrow> False)"

text \<open>The state of a read-write lock held by \<open>r\<close> readers and \<open>w\<close> writers.\<close>

definition rw_of :: "nat \<Rightarrow> nat \<Rightarrow> rwlock" where
  "rw_of r w = (if 0 < w then RW_Writer else if r = 0 then RW_Unlocked else RW_Readers r)"

text \<open>
  Where a scan for key \<open>k\<close> stands: the loop pointer \<open>p\<close> is on the chain of the bucket of
  \<open>k\<close> (or at its end) and no entry before it has the key; the scan has stopped at an entry
  of the chain with the key; the chain has an entry with the key; the chain has none.
\<close>

definition on_chain :: "two_level_state \<Rightarrow> c_int \<Rightarrow> addr option \<Rightarrow> bool" where
  "on_chain s k p =
     (\<exists>pre suf. chain (heap s) (table s ! nat (slot k)) (pre @ suf) \<and> chain (heap s) p suf
        \<and> (\<forall>a\<in>set pre. key_at (heap s) a \<noteq> k))"

definition found :: "two_level_state \<Rightarrow> c_int \<Rightarrow> addr option \<Rightarrow> bool" where
  "found s k p =
     (\<exists>c as. p = Some c \<and> key_at (heap s) c = k \<and> chain (heap s) (table s ! nat (slot k)) as \<and> c \<in> set as)"

definition present :: "two_level_state \<Rightarrow> c_int \<Rightarrow> bool" where
  "present s k = (\<exists>c as. key_at (heap s) c = k \<and> chain (heap s) (table s ! nat (slot k)) as \<and> c \<in> set as)"

definition absent :: "two_level_state \<Rightarrow> c_int \<Rightarrow> bool" where
  "absent s k = (\<exists>as. chain (heap s) (table s ! nat (slot k)) as \<and> (\<forall>a\<in>set as. key_at (heap s) a \<noteq> k))"

text \<open>
  What holds while threads insert the same key \<open>k\<close>, with values from \<open>V\<close>, into a table
  that had no entry for \<open>k\<close>. For each thread, by its program point: during a scan the
  loop pointer is on the chain; at the update it points to an entry of the chain with the
  key; past the second scan, under the exclusive lock, the chain has no entry with the key,
  and the cell made for it is ready to be linked; once a thread is done the key has an
  entry.
\<close>

definition race_local :: "c_int \<Rightarrow> c_int set \<Rightarrow> two_level_state \<Rightarrow> thread \<Rightarrow> bool" where
  "race_local k V s th =
     (key_arg th = k \<and> val_arg th \<in> V \<and>
      (case pc th of
         Insert_Rdlock \<Rightarrow> True
       | Insert_Head m \<Rightarrow> True
       | Insert_Loop m \<Rightarrow> on_chain s k (current th)
       | Insert_Mutex_Lock m \<Rightarrow> found s k (current th)
       | Insert_Store m \<Rightarrow> found s k (current th)
       | Insert_Mutex_Unlock m \<Rightarrow> found s k (current th)
       | Insert_Unlock_Return m \<Rightarrow> present s k
       | Insert_Unlock_Shared \<Rightarrow> True
       | Insert_Wrlock \<Rightarrow> True
       | Insert_Malloc \<Rightarrow> absent s k
       | Insert_Fail_Unlock \<Rightarrow> True
       | Insert_Panic \<Rightarrow> True
       | Insert_Publish \<Rightarrow>
           absent s k \<and>
           (\<exists>e. allocated th = Some e \<and>
                heap s e = Some \<lparr>key = k, val = val_arg th, next = table s ! nat (slot k),
                                 entry_mutex = Mutex_Unlocked\<rparr>)
       | Insert_Unlock_Exclusive \<Rightarrow> present s k
       | Returned \<Rightarrow> present s k
       | _ \<Rightarrow> False))"

text \<open>
  For the process: the table is well-formed, the lock of the bucket of \<open>k\<close> is in the state
  its holders put it in (at most one thread in exclusive mode, and then none in shared
  mode), and an entry with key \<open>k\<close> carries one of the values.
\<close>

definition lock_inv :: "thread list \<Rightarrow> rwlock \<Rightarrow> bool" where
  "lock_inv ths l =
     (length (filter writing ths) \<le> 1
      \<and> (0 < length (filter writing ths) \<longrightarrow> length (filter reading ths) = 0)
      \<and> l = rw_of (length (filter reading ths)) (length (filter writing ths)))"

definition values_in :: "two_level_state \<Rightarrow> c_int \<Rightarrow> c_int set \<Rightarrow> bool" where
  "values_in s k V =
     (\<forall>as. chain (heap s) (table s ! nat (slot k)) as \<longrightarrow>
        (\<forall>a\<in>set as. key_at (heap s) a = k \<longrightarrow> val_at (heap s) a \<in> V))"

definition race_inv :: "c_int \<Rightarrow> c_int set \<Rightarrow> process \<Rightarrow> bool" where
  "race_inv k V c =
     (table_ok (shared c) \<and> length (bucket_locks (shared c)) = 5
      \<and> lock_inv (threads c) (bucket_locks (shared c) ! nat (slot k))
      \<and> values_in (shared c) k V
      \<and> (\<forall>th\<in>set (threads c). race_local k V (shared c) th))"

text \<open>
  Two states with the same chains: the same heads, and every live cell is still live with
  the same key and the same link.
\<close>

definition same_links :: "two_level_state \<Rightarrow> two_level_state \<Rightarrow> bool" where
  "same_links s s' =
     (table s' = table s \<and>
      (\<forall>a e. heap s a = Some e \<longrightarrow> (\<exists>e'. heap s' a = Some e' \<and> key e' = key e \<and> next e' = next e)))"

text \<open>
  A thread holds the lock of the entry its loop pointer stopped at between
  \<open>pthread_mutex_lock\<close> and \<open>pthread_mutex_unlock\<close>. While the threads insert key \<open>k\<close>,
  the locks of the other buckets stay free and an entry of the table is only locked by a
  thread that holds it.
\<close>

definition holds_entry :: "thread \<Rightarrow> addr \<Rightarrow> bool" where
  "holds_entry th a =
     (current th = Some a \<and>
      (case pc th of
         Insert_Store m \<Rightarrow> True
       | Insert_Mutex_Unlock m \<Rightarrow> True
       | Retrieve_Malloc \<Rightarrow> True
       | Retrieve_Fail_Mutex_Unlock \<Rightarrow> True
       | Retrieve_Mutex_Unlock \<Rightarrow> True
       | _ \<Rightarrow> False))"

definition locks_inv :: "c_int \<Rightarrow> process \<Rightarrow> bool" where
  "locks_inv k c =
     ((\<forall>j<5. j \<noteq> nat (slot k) \<longrightarrow> bucket_locks (shared c) ! j = RW_Unlocked)
      \<and> (\<forall>j<5. \<forall>as. chain (heap (shared c)) (table (shared c) ! j) as \<longrightarrow>
            (\<forall>a\<in>set as. \<forall>x. heap (shared c) a = Some x \<longrightarrow> entry_mutex x = Mutex_Locked \<longrightarrow>
               (\<exists>th\<in>set (threads c). holds_entry th a))))"

section \<open>How an argument reads as a number\<close>

text \<open>
  The parts \<open>atoi\<close> finds in an argument: white space \<open>ws\<close>, an optional sign \<open>sg\<close>, the
  longest run of decimal digits \<open>ds\<close> (possibly none) and whatever follows.
\<close>

definition number_in :: "string \<Rightarrow> string \<Rightarrow> string \<Rightarrow> string \<Rightarrow> string \<Rightarrow> bool" where
  "number_in arg ws sg ds rest =
     (arg = ws @ sg @ ds @ rest \<and> list_all isspace ws \<and> (sg = [] \<or> sg = ''+'' \<or> sg = ''-'')
      \<and> list_all isdigit ds \<and> (rest = [] \<or> \<not> isdigit (hd rest))
      \<and> (sg = [] \<and> ds = [] \<longrightarrow>
            rest = [] \<or> (\<not> isspace (hd rest) \<and> hd rest \<noteq> CHR ''+'' \<and> hd rest \<noteq> CHR ''-'')))"

section \<open>Basic facts: outcomes, chains and the scan\<close>

lemma and_then_return [simp]: "and_then (return x) f = f x"
  by (simp add: and_then_def return_def)

lemma and_then_Inr [simp]: "and_then (Some (Inr x)) f = f x"
  by (simp add: and_then_def)

lemma and_then_Inl [simp]: "and_then (Some (Inl e)) f = Some (Inl e)"
  by (simp add: and_then_def)

lemma and_then_None [simp]: "and_then None f = None"
  by (simp add: and_then_def)

lemma scan_None [simp]: "scan h None k = Some (Inr None)"
  by (simp add: scan.simps)

lemma scan_Some [simp]:
  "scan h (Some a) k =
     (case h a of None \<Rightarrow> Some (Inl Undefined_Behaviour)
      | Some e \<Rightarrow> if key e = k then Some (Inr (Some a)) else scan h (next e) k)"
  by (subst scan.simps) simp

lemma slot_nonneg: "0 \<le> sint k \<Longrightarrow> slot k = sint k mod 5"
  by (simp add: slot_def NUM_BUCKETS_def signed_modulo_int_def sgn_if)

lemma slot_range: "0 \<le> sint k \<Longrightarrow> 0 \<le> slot k \<and> slot k < 5"
  by (simp add: slot_nonneg)

lemma chain_unique: "chain h p as \<Longrightarrow> chain h p bs \<Longrightarrow> as = bs"
proof (induction as arbitrary: p bs)
  case Nil
  then show ?case by (cases bs) auto
next
  case (Cons a as)
  then show ?case by (cases bs) (auto split: option.splits)
qed

lemma chain_live: "chain h p as \<Longrightarrow> a \<in> set as \<Longrightarrow> \<exists>e. h a = Some e"
  by (induction as arbitrary: p) (auto split: option.splits)

lemma chain_upd_other: "a \<notin> set as \<Longrightarrow> chain (h(a := x)) p as = chain h p as"
  by (induction as arbitrary: p) (auto split: option.splits)

lemma chain_fresh: "chain h p as \<Longrightarrow> h a = None \<Longrightarrow> chain (h(a := x)) p as"
  using chain_live chain_upd_other by (metis option.distinct(1))

lemma chain_same_next:
  "h a = Some e \<Longrightarrow> next e' = next e \<Longrightarrow> chain (h(a \<mapsto> e')) p as = chain h p as"
  by (induction as arbitrary: p) (auto split: option.splits)

lemma scan_chain:
  "chain h p as \<Longrightarrow> scan h p k = Some (Inr (find (\<lambda>a. key_at h a = k) as))"
  by (induction as arbitrary: p) (auto simp: key_at_def split: option.splits)

lemma find_key_None: "\<forall>a\<in>set as. key_at h a \<noteq> k \<Longrightarrow> find (\<lambda>a. key_at h a = k) as = None"
  by (simp add: find_None_iff)

lemma find_key_Some:
  "distinct (map (key_at h) as) \<Longrightarrow> a \<in> set as \<Longrightarrow> key_at h a = k
    \<Longrightarrow> find (\<lambda>a. key_at h a = k) as = Some a"
  by (induction as) auto

lemma malloc_fresh: "malloc s = Some a \<Longrightarrow> heap s a = None"
  by (auto simp: malloc_def find_Some_iff)

lemma key_at_upd_val: "h a = Some e \<Longrightarrow> key_at (h(a \<mapsto> e\<lparr>val := v\<rparr>)) = key_at h"
  by (auto simp: key_at_def fun_eq_iff)

lemma key_at_upd_other: "b \<noteq> a \<Longrightarrow> key_at (h(a := x)) b = key_at h b"
  by (simp add: key_at_def)

lemma bucket_ok_store:
  "h a = Some e \<Longrightarrow> bucket_ok (h(a \<mapsto> e\<lparr>val := v\<rparr>)) t i as = bucket_ok h t i as"
  by (simp add: bucket_ok_def chain_same_next key_at_upd_val)

lemma table_ok_store:
  "table_ok s \<Longrightarrow> heap s a = Some e \<Longrightarrow> table_ok (s\<lparr>heap := (heap s)(a \<mapsto> e\<lparr>val := v\<rparr>)\<rparr>)"
  by (simp add: table_ok_def bucket_ok_store)

lemma bucket_ok_fresh:
  assumes "bucket_ok h t i as" "h a = None"
  shows "bucket_ok (h(a \<mapsto> x)) t i as"
proof -
  have "a \<notin> set as" using assms chain_live by (fastforce simp: bucket_ok_def)
  then have m: "map (key_at (h(a \<mapsto> x))) as = map (key_at h) as"
    and k: "\<forall>b\<in>set as. key_at (h(a \<mapsto> x)) b = key_at h b"
    and c: "chain (h(a \<mapsto> x)) (t ! i) as = chain h (t ! i) as"
    by (auto simp: key_at_def chain_upd_other)
  show ?thesis
    unfolding bucket_ok_def m c using assms(1) k by (simp add: bucket_ok_def)
qed

lemma bucket_ok_link:
  assumes "bucket_ok h t i as" "h a = None" "i < length t" "key x = k" "next x = t ! i"
    "slot k = int i" "\<forall>b\<in>set as. key_at h b \<noteq> k"
  shows "bucket_ok (h(a \<mapsto> x)) (t[i := Some a]) i (a # as)"
proof -
  have old: "bucket_ok (h(a \<mapsto> x)) t i as" using assms(1,2) by (rule bucket_ok_fresh)
  have "a \<notin> set as" using assms chain_live by (fastforce simp: bucket_ok_def)
  then have keys: "\<forall>b\<in>set as. key_at (h(a \<mapsto> x)) b = key_at h b"
    by (auto simp: key_at_def)
  have "key_at (h(a \<mapsto> x)) a = k" using assms(4) by (simp add: key_at_def)
  then show ?thesis
    using old assms(3,5,6,7) keys by (auto simp: bucket_ok_def)
qed

lemma table_ok_link:
  assumes "table_ok s" "heap s a = None" "i < 5" "key x = k" "next x = table s ! i"
    "slot k = int i" "chain (heap s) (table s ! i) as" "\<forall>b\<in>set as. key_at (heap s) b \<noteq> k"
  shows "table_ok (s\<lparr>heap := (heap s)(a \<mapsto> x), table := (table s)[i := Some a]\<rparr>)"
proof -
  have len: "length (table s) = 5" using assms(1) by (simp add: table_ok_def)
  have "\<exists>bs. bucket_ok ((heap s)(a \<mapsto> x)) ((table s)[i := Some a]) j bs" if j: "j < 5" for j
  proof (cases "j = i")
    case True
    obtain bs where bs: "bucket_ok (heap s) (table s) i bs"
      using assms(1,3) by (auto simp: table_ok_def)
    then have "bs = as" using assms(7) chain_unique by (fastforce simp: bucket_ok_def)
    then have "bucket_ok ((heap s)(a \<mapsto> x)) ((table s)[i := Some a]) i (a # as)"
      using bs assms len by (intro bucket_ok_link) auto
    then show ?thesis using True by blast
  next
    case False
    obtain bs where bs: "bucket_ok (heap s) (table s) j bs"
      using assms(1) j by (auto simp: table_ok_def)
    then have "bucket_ok ((heap s)(a \<mapsto> x)) (table s) j bs"
      using assms(2) by (rule bucket_ok_fresh)
    then have "bucket_ok ((heap s)(a \<mapsto> x)) ((table s)[i := Some a]) j bs"
      using False by (simp add: bucket_ok_def)
    then show ?thesis by blast
  qed
  then show ?thesis using len by (simp add: table_ok_def)
qed

lemma replicate_update_same [simp]: "(replicate n x)[i := x] = replicate n x"
  by (cases "i < n") (simp_all add: list_update_same_conv list_update_beyond)

lemma slot_less: "slot k < 5"
  using smod_int_range[of 5 "sint k"] by (simp add: slot_def NUM_BUCKETS_def)

lemma index_ok [simp]: "0 \<le> i \<Longrightarrow> i < int (length xs) \<Longrightarrow> index xs i = return (xs ! nat i)"
  by (simp add: index_def)

lemma index_bad [simp]: "i < 0 \<Longrightarrow> index xs i = Some (Inl Undefined_Behaviour)"
  by (simp add: index_def)

lemma spin_lock_ok:
  "bucket_spinlocks s ! nat i = Spin_Unlocked \<Longrightarrow> 0 \<le> i \<Longrightarrow> i < int (length (bucket_spinlocks s)) \<Longrightarrow>
   pthread_spin_lock i s = return (s\<lparr>bucket_spinlocks := (bucket_spinlocks s)[nat i := Spin_Locked]\<rparr>)"
  by (simp add: pthread_spin_lock_def)

lemma spin_unlock_ok:
  "bucket_spinlocks s ! nat i = Spin_Locked \<Longrightarrow> 0 \<le> i \<Longrightarrow> i < int (length (bucket_spinlocks s)) \<Longrightarrow>
   pthread_spin_unlock i s = return (s\<lparr>bucket_spinlocks := (bucket_spinlocks s)[nat i := Spin_Unlocked]\<rparr>)"
  by (simp add: pthread_spin_unlock_def)

lemma malloc_spinlocks [simp]: "malloc (s\<lparr>bucket_spinlocks := l\<rparr>) = malloc s"
  by (simp add: malloc_def)

lemma malloc_bucket_locks [simp]: "malloc (s\<lparr>bucket_locks := l\<rparr>) = malloc s"
  by (simp add: malloc_def)

lemma malloc_lock_log [simp]: "malloc (s\<lparr>lock_log := l\<rparr>) = malloc s"
  by (simp add: malloc_def)

lemma insert_spin_eq:
  assumes "wf_spin s" "0 \<le> slot k" "chain (heap s) (table s ! nat (slot k)) as"
  shows "insert_spin k v s =
     (case find (\<lambda>a. key_at (heap s) a = k) as of
        Some c \<Rightarrow> return (s\<lparr>heap := (heap s)(c \<mapsto> (the (heap s c))\<lparr>val := v\<rparr>)\<rparr>)
      | None \<Rightarrow>
          (case malloc s of
             None \<Rightarrow> panic ''No memory to allocate bucket!'' s
           | Some e \<Rightarrow>
               return (s\<lparr>heap := (heap s)(e \<mapsto> \<lparr>key = k, val = v, next = table s ! nat (slot k)\<rparr>),
                         table := (table s)[nat (slot k) := Some e]\<rparr>)))"
proof -
  have r: "slot k < 5" by (rule slot_less)
  have l: "bucket_spinlocks s ! nat (slot k) = Spin_Unlocked" "length (bucket_spinlocks s) = 5"
    and t: "length (table s) = 5"
    using assms(1,2) r by (auto simp: wf_spin_def table_ok_def)
  have restore: "(bucket_spinlocks s)[nat (slot k) := Spin_Unlocked] = bucket_spinlocks s"
    using l(1) list_update_id by metis
  show ?thesis
  proof (cases "find (\<lambda>a. key_at (heap s) a = k) as")
    case None
    then show ?thesis
      using assms(2,3) r l t restore
      by (cases "malloc s")
        (simp_all add: insert_spin_def Let_def spin_lock_ok spin_unlock_ok scan_chain panic_def)
  next
    case (Some c)
    then have "c \<in> set as" by (auto simp: find_Some_iff)
    then obtain e where "heap s c = Some e" using assms(3) chain_live by fastforce
    then show ?thesis
      using Some assms(2,3) r l t restore
      by (simp add: insert_spin_def Let_def spin_lock_ok spin_unlock_ok scan_chain store_val_def)
  qed
qed

section \<open>What each call computes on a well-formed state\<close>

lemma retrieve_spin_eq:
  assumes "wf_spin s" "0 \<le> slot k" "chain (heap s) (table s ! nat (slot k)) as"
  shows "retrieve_spin k s =
     (case find (\<lambda>a. key_at (heap s) a = k) as of
        None \<Rightarrow> return (None, s)
      | Some b \<Rightarrow>
          (case malloc s of
             None \<Rightarrow> panic ''No memory to allocate result!'' s
           | Some r \<Rightarrow>
               return (Some r, s\<lparr>heap := (heap s)(r \<mapsto> \<lparr>key = key_at (heap s) b, val = val_at (heap s) b, next = None\<rparr>)\<rparr>)))"
proof -
  have r: "slot k < 5" by (rule slot_less)
  have l: "bucket_spinlocks s ! nat (slot k) = Spin_Unlocked" "length (bucket_spinlocks s) = 5"
    and t: "length (table s) = 5"
    using assms(1,2) r by (auto simp: wf_spin_def table_ok_def)
  have restore: "(bucket_spinlocks s)[nat (slot k) := Spin_Unlocked] = bucket_spinlocks s"
    using l(1) list_update_id by metis
  show ?thesis
  proof (cases "find (\<lambda>a. key_at (heap s) a = k) as")
    case None
    then show ?thesis
      using assms(2,3) r l t restore
      by (simp add: retrieve_spin_def Let_def spin_lock_ok spin_unlock_ok scan_chain)
  next
    case (Some c)
    then have "c \<in> set as" by (auto simp: find_Some_iff)
    then obtain e where "heap s c = Some e" using assms(3) chain_live by fastforce
    then show ?thesis
      using Some assms(2,3) r l t restore
      by (cases "malloc s")
        (simp_all add: retrieve_spin_def Let_def spin_lock_ok spin_unlock_ok scan_chain load_def
          panic_def key_at_def val_at_def)
  qed
qed

lemma rdlock_ok:
  "bucket_locks s ! nat i = RW_Unlocked \<Longrightarrow> 0 \<le> i \<Longrightarrow> i < int (length (bucket_locks s)) \<Longrightarrow>
   pthread_rwlock_rdlock i s = return (s\<lparr>bucket_locks := (bucket_locks s)[nat i := RW_Readers 1]\<rparr>)"
  by (simp add: pthread_rwlock_rdlock_def)

lemma wrlock_ok:
  "bucket_locks s ! nat i = RW_Unlocked \<Longrightarrow> 0 \<le> i \<Longrightarrow> i < int (length (bucket_locks s)) \<Longrightarrow>
   pthread_rwlock_wrlock i s = return (s\<lparr>bucket_locks := (bucket_locks s)[nat i := RW_Writer]\<rparr>)"
  by (simp add: pthread_rwlock_wrlock_def)

lemma unlock_reader_ok:
  "bucket_locks s ! nat i = RW_Readers 1 \<Longrightarrow> 0 \<le> i \<Longrightarrow> i < int (length (bucket_locks s)) \<Longrightarrow>
   pthread_rwlock_unlock i s = return (s\<lparr>bucket_locks := (bucket_locks s)[nat i := RW_Unlocked]\<rparr>)"
  by (simp add: pthread_rwlock_unlock_def)

lemma unlock_writer_ok:
  "bucket_locks s ! nat i = RW_Writer \<Longrightarrow> 0 \<le> i \<Longrightarrow> i < int (length (bucket_locks s)) \<Longrightarrow>
   pthread_rwlock_unlock i s = return (s\<lparr>bucket_locks := (bucket_locks s)[nat i := RW_Unlocked]\<rparr>)"
  by (simp add: pthread_rwlock_unlock_def)

lemma insert_rw_eq:
  assumes "wf_rw s" "0 \<le> slot k" "chain (heap s) (table s ! nat (slot k)) as"
  shows "insert_rw k v s =
     (case find (\<lambda>a. key_at (heap s) a = k) as of
        Some c \<Rightarrow> return (s\<lparr>heap := (heap s)(c \<mapsto> (the (heap s c))\<lparr>val := v\<rparr>)\<rparr>)
      | None \<Rightarrow>
          (case malloc s of
             None \<Rightarrow> panic ''No memory to allocate bucket!'' s
           | Some e \<Rightarrow>
               return (s\<lparr>heap := (heap s)(e \<mapsto> \<lparr>key = k, val = v, next = table s ! nat (slot k)\<rparr>),
                         table := (table s)[nat (slot k) := Some e]\<rparr>)))"
proof -
  have r: "slot k < 5" by (rule slot_less)
  have l: "bucket_locks s ! nat (slot k) = RW_Unlocked" "length (bucket_locks s) = 5"
    and t: "length (table s) = 5"
    using assms(1,2) r by (auto simp: wf_rw_def table_ok_def)
  have restore: "(bucket_locks s)[nat (slot k) := RW_Unlocked] = bucket_locks s"
    using l(1) list_update_id by metis
  show ?thesis
  proof (cases "find (\<lambda>a. key_at (heap s) a = k) as")
    case None
    then show ?thesis
      using assms(2,3) r l t restore
      by (cases "malloc s")
        (simp_all add: insert_rw_def Let_def wrlock_ok unlock_writer_ok scan_chain panic_def)
  next
    case (Some c)
    then have "c \<in> set as" by (auto simp: find_Some_iff)
    then obtain e where "heap s c = Some e" using assms(3) chain_live by fastforce
    then show ?thesis
      using Some assms(2,3) r l t restore
      by (simp add: insert_rw_def Let_def wrlock_ok unlock_writer_ok scan_chain store_val_def)
  qed
qed

lemma retrieve_rw_eq:
  assumes "wf_rw s" "0 \<le> slot k" "chain (heap s) (table s ! nat (slot k)) as"
  shows "retrieve_rw k s =
     (case find (\<lambda>a. key_at (heap s) a = k) as of
        None \<Rightarrow> return (None, s)
      | Some b \<Rightarrow>
          (case malloc s of
             None \<Rightarrow> panic ''No memory to allocate result!'' s
           | Some r \<Rightarrow>
               return (Some r, s\<lparr>heap := (heap s)(r \<mapsto> \<lparr>key = key_at (heap s) b, val = val_at (heap s) b, next = None\<rparr>)\<rparr>)))"
proof -
  have r: "slot k < 5" by (rule slot_less)
  have l: "bucket_locks s ! nat (slot k) = RW_Unlocked" "length (bucket_locks s) = 5"
    and t: "length (table s) = 5"
    using assms(1,2) r by (auto simp: wf_rw_def table_ok_def)
  have restore: "(bucket_locks s)[nat (slot k) := RW_Unlocked] = bucket_locks s"
    using l(1) list_update_id by metis
  show ?thesis
  proof (cases "find (\<lambda>a. key_at (heap s) a = k) as")
    case None
    then show ?thesis
      using assms(2,3) r l t restore
      by (simp add: retrieve_rw_def Let_def rdlock_ok unlock_reader_ok scan_chain)
  next
    case (Some c)
    then have "c \<in> set as" by (auto simp: find_Some_iff)
    then obtain e where "heap s c = Some e" using assms(3) chain_live by fastforce
    then show ?thesis
      using Some assms(2,3) r l t restore
      by (cases "malloc s")
        (simp_all add: retrieve_rw_def Let_def rdlock_ok unlock_reader_ok scan_chain load_def
          panic_def key_at_def val_at_def)
  qed
qed

lemma mutex_lock_ok:
  "heap s p = Some e \<Longrightarrow> entry_mutex e = Mutex_Unlocked \<Longrightarrow>
   pthread_mutex_lock p s =
     return (s\<lparr>heap := (heap s)(p \<mapsto> e\<lparr>entry_mutex := Mutex_Locked\<rparr>), lock_log := lock_log s @ [Acquire_Entry p]\<rparr>)"
  by (simp add: pthread_mutex_lock_def logged_def)

lemma mutex_unlock_ok:
  "heap s p = Some e \<Longrightarrow> entry_mutex e = Mutex_Locked \<Longrightarrow>
   pthread_mutex_unlock p s =
     return (s\<lparr>heap := (heap s)(p \<mapsto> e\<lparr>entry_mutex := Mutex_Unlocked\<rparr>), lock_log := lock_log s @ [Release_Entry p]\<rparr>)"
  by (simp add: pthread_mutex_unlock_def logged_def)

lemma entries_unlockedD:
  "entries_unlocked s \<Longrightarrow> 0 \<le> i \<Longrightarrow> i < 5 \<Longrightarrow> chain (heap s) (table s ! nat i) as \<Longrightarrow> a \<in> set as
    \<Longrightarrow> heap s a = Some e \<Longrightarrow> entry_mutex e = Mutex_Unlocked"
  unfolding entries_unlocked_def
  by (metis nat_less_iff nat_numeral of_nat_numeral zless_nat_conj nat_int)

lemma val_mutex_same: "entry_mutex e = m \<Longrightarrow> e\<lparr>val := v, entry_mutex := m\<rparr> = e\<lparr>val := v\<rparr>"
  by (cases e) simp

lemma malloc_cong:
  assumes "mem_cells s' = mem_cells s" "dom (heap s') = dom (heap s)"
  shows "malloc s' = malloc s"
proof -
  have "(\<lambda>a. heap s' a = None) = (\<lambda>a. heap s a = None)"
    using assms(2) by (metis domIff)
  then show ?thesis using assms(1) by (simp add: malloc_def)
qed

lemma update_entry_ok:
  assumes "heap s c = Some e" "entry_mutex e = Mutex_Unlocked" "0 \<le> i" "i < int (length (bucket_locks s))"
    "bucket_locks s ! nat i = RW_Readers 1 \<or> bucket_locks s ! nat i = RW_Writer"
  shows "update_entry i c v s =
     return (s\<lparr>heap := (heap s)(c \<mapsto> e\<lparr>val := v\<rparr>),
               bucket_locks := (bucket_locks s)[nat i := RW_Unlocked],
               lock_log := lock_log s @ [Acquire_Entry c, Release_Entry c, Release_Bucket i]\<rparr>)"
proof -
  have e: "e\<lparr>entry_mutex := Mutex_Unlocked\<rparr> = e" using assms(2) by (cases e) simp
  have u: "pthread_rwlock_unlock i s' = return (s'\<lparr>bucket_locks := (bucket_locks s')[nat i := RW_Unlocked]\<rparr>)"
    if "bucket_locks s' = bucket_locks s" for s' :: two_level_state
    using assms(3,4,5) that unlock_reader_ok[of s' i] unlock_writer_ok[of s' i] by auto
  show ?thesis
    using assms(1,2) e
    by (simp add: update_entry_def mutex_lock_ok store_val_def pthread_mutex_unlock_def
        unlock_bucket_def logged_def u val_mutex_same)
qed

lemma insert_two_level_eq:
  assumes "wf_two_level s" "0 \<le> slot k" "chain (heap s) (table s ! nat (slot k)) as"
  shows "insert_two_level k v s =
     (case find (\<lambda>a. key_at (heap s) a = k) as of
        Some c \<Rightarrow>
          return (s\<lparr>heap := (heap s)(c \<mapsto> (the (heap s c))\<lparr>val := v\<rparr>),
                    lock_log := lock_log s @ [Acquire_Bucket (slot k), Acquire_Entry c, Release_Entry c,
                                              Release_Bucket (slot k)]\<rparr>)
      | None \<Rightarrow>
          (case malloc s of
             None \<Rightarrow>
               panic ''No memory to allocate bucket!''
                 (s\<lparr>lock_log := lock_log s @ [Acquire_Bucket (slot k), Release_Bucket (slot k),
                                             Acquire_Bucket (slot k), Release_Bucket (slot k)]\<rparr>)
           | Some e \<Rightarrow>
               return (s\<lparr>heap := (heap s)(e \<mapsto> \<lparr>key = k, val = v, next = table s ! nat (slot k),
                                                  entry_mutex = Mutex_Unlocked\<rparr>),
                         table := (table s)[nat (slot k) := Some e],
                         lock_log := lock_log s @ [Acquire_Bucket (slot k), Release_Bucket (slot k),
                                                   Acquire_Bucket (slot k), Release_Bucket (slot k)]\<rparr>)))"
proof -
  have r: "slot k < 5" by (rule slot_less)
  have l: "bucket_locks s ! nat (slot k) = RW_Unlocked" "length (bucket_locks s) = 5"
    and t: "length (table s) = 5"
    using assms(1,2) r by (auto simp: wf_two_level_def table_ok_def)
  have restore: "(bucket_locks s)[nat (slot k) := RW_Unlocked] = bucket_locks s"
    using l(1) list_update_id by metis
  show ?thesis
  proof (cases "find (\<lambda>a. key_at (heap s) a = k) as")
    case None
    then show ?thesis
      using assms(2,3) r l t restore
      by (cases "malloc s")
        (simp_all add: insert_two_level_def Let_def rdlock_bucket_def wrlock_bucket_def unlock_bucket_def
          logged_def rdlock_ok wrlock_ok unlock_reader_ok unlock_writer_ok scan_chain panic_def)
  next
    case (Some c)
    then have c: "c \<in> set as" by (auto simp: find_Some_iff)
    then obtain e where e: "heap s c = Some e" using assms(3) chain_live by fastforce
    have "entry_mutex e = Mutex_Unlocked"
      using assms c e r entries_unlockedD[of s "slot k" as c e] by (simp add: wf_two_level_def)
    then show ?thesis
      using Some e assms(2,3) r l t restore
      by (simp add: insert_two_level_def Let_def rdlock_bucket_def logged_def rdlock_ok scan_chain
          update_entry_ok)
  qed
qed

lemma retrieve_two_level_eq:
  assumes "wf_two_level s" "0 \<le> slot k" "chain (heap s) (table s ! nat (slot k)) as"
  shows "retrieve_two_level k s =
     (case find (\<lambda>a. key_at (heap s) a = k) as of
        None \<Rightarrow> return (None, s\<lparr>lock_log := lock_log s @ [Acquire_Bucket (slot k), Release_Bucket (slot k)]\<rparr>)
      | Some b \<Rightarrow>
          (case malloc s of
             None \<Rightarrow>
               panic ''No memory to allocate result!''
                 (s\<lparr>lock_log := lock_log s @ [Acquire_Bucket (slot k), Acquire_Entry b, Release_Entry b,
                                             Release_Bucket (slot k)]\<rparr>)
           | Some r \<Rightarrow>
               return (Some r,
                 s\<lparr>heap := (heap s)(r \<mapsto> \<lparr>key = key_at (heap s) b, val = val_at (heap s) b, next = None,
                                           entry_mutex = Mutex_Unlocked\<rparr>),
                   lock_log := lock_log s @ [Acquire_Bucket (slot k), Acquire_Entry b, Release_Entry b,
                                             Release_Bucket (slot k)]\<rparr>)))"
proof -
  have r: "slot k < 5" by (rule slot_less)
  have l: "bucket_locks s ! nat (slot k) = RW_Unlocked" "length (bucket_locks s) = 5"
    and t: "length (table s) = 5"
    using assms(1,2) r by (auto simp: wf_two_level_def table_ok_def)
  have restore: "(bucket_locks s)[nat (slot k) := RW_Unlocked] = bucket_locks s"
    using l(1) list_update_id by metis
  show ?thesis
  proof (cases "find (\<lambda>a. key_at (heap s) a = k) as")
    case None
    then show ?thesis
      using assms(2,3) r l t restore
      by (simp add: retrieve_two_level_def Let_def rdlock_bucket_def unlock_bucket_def logged_def
          rdlock_ok unlock_reader_ok scan_chain)
  next
    case (Some c)
    then have c: "c \<in> set as" by (auto simp: find_Some_iff)
    then obtain e where e: "heap s c = Some e" using assms(3) chain_live by fastforce
    have m: "entry_mutex e = Mutex_Unlocked"
      using assms c e r entries_unlockedD[of s "slot k" as c e] by (simp add: wf_two_level_def)
    then have eu: "e\<lparr>entry_mutex := Mutex_Unlocked\<rparr> = e" by (cases e) simp
    then have e': "(heap s)(c \<mapsto> e\<lparr>entry_mutex := Mutex_Unlocked\<rparr>) = heap s"
      using e by (simp add: fun_upd_idem)
    have malloc_overwrite: "malloc (s\<lparr>bucket_locks := x, heap := (heap s)(c \<mapsto> y)\<rparr>) = malloc s" for x y
      using e by (intro malloc_cong) auto
    show ?thesis
    proof (cases "malloc s")
      case None
      then show ?thesis
        using Some e m e' assms(2,3) r l t restore
        by (simp add: retrieve_two_level_def Let_def rdlock_bucket_def unlock_bucket_def logged_def
          rdlock_ok unlock_reader_ok scan_chain mutex_lock_ok pthread_mutex_unlock_def malloc_overwrite panic_def)
    next
      case (Some a)
      then have "a \<noteq> c" using e malloc_fresh by fastforce
      then have h2: "(heap s)(a \<mapsto> x, c \<mapsto> e\<lparr>entry_mutex := Mutex_Unlocked\<rparr>) = (heap s)(a \<mapsto> x)" for x
        using e eu by (auto simp: fun_eq_iff)
      from \<open>a \<noteq> c\<close> show ?thesis
        using Some \<open>find _ as = Some c\<close> e m e' assms(2,3) r l t restore
        by (simp add: retrieve_two_level_def Let_def rdlock_bucket_def unlock_bucket_def logged_def
          rdlock_ok unlock_reader_ok scan_chain mutex_lock_ok pthread_mutex_unlock_def malloc_overwrite
          load_def key_at_def val_at_def h2)
    qed
  qed
qed

section \<open>The stored value under an update and under a new head\<close>

lemma val_at_upd_other: "b \<noteq> a \<Longrightarrow> val_at (h(a := x)) b = val_at h b"
  by (simp add: val_at_def)

lemma table_okD:
  "table_ok s \<Longrightarrow> 0 \<le> i \<Longrightarrow> i < 5 \<Longrightarrow> \<exists>as. bucket_ok (heap s) (table s) (nat i) as"
  unfolding table_ok_def
  by (metis nat_less_iff nat_numeral of_nat_numeral zless_nat_conj)

lemma stored_negative: "slot k < 0 \<Longrightarrow> stored s k = None"
  by (simp add: stored_def)

lemma stored_chain:
  "0 \<le> slot k \<Longrightarrow> chain (heap s) (table s ! nat (slot k)) as \<Longrightarrow>
   stored s k = map_option (val_at (heap s)) (find (\<lambda>a. key_at (heap s) a = k) as)"
  by (simp add: stored_def scan_chain split: option.splits)

lemma table_ok_store':
  assumes "table_ok s" "heap s c = Some e" "heap s' = (heap s)(c \<mapsto> e\<lparr>val := v\<rparr>)" "table s' = table s"
  shows "table_ok s'"
  using assms by (simp add: table_ok_def bucket_ok_store)

lemma stored_store:
  assumes ok: "table_ok s" and c: "heap s c = Some e" and k: "key e = k"
    and h: "heap s' = (heap s)(c \<mapsto> e\<lparr>val := v\<rparr>)" and t: "table s' = table s"
    and sl: "0 \<le> slot k" and ch: "chain (heap s) (table s ! nat (slot k)) as" and cin: "c \<in> set as"
  shows "stored s' = (stored s)(k \<mapsto> v)"
proof
  fix k'
  show "stored s' k' = ((stored s)(k \<mapsto> v)) k'"
  proof (cases "0 \<le> slot k'")
    case False
    then have "slot k' < 0" by simp
    moreover from this sl have "k' \<noteq> k" by auto
    ultimately show ?thesis by (simp add: stored_negative)
  next
    case True
    then obtain bs where bs: "bucket_ok (heap s) (table s) (nat (slot k')) bs"
      using ok table_okD slot_less by blast
    then have chs: "chain (heap s) (table s ! nat (slot k')) bs" by (simp add: bucket_ok_def)
    then have chs': "chain (heap s') (table s' ! nat (slot k')) bs"
      using c h t by (simp add: chain_same_next)
    have keys: "key_at (heap s') = key_at (heap s)" using c h by (simp add: key_at_upd_val)
    have kc: "key_at (heap s) c = k" using c k by (simp add: key_at_def)
    show ?thesis
    proof (cases "k' = k")
      case True
      then have "bs = as" using chs ch chain_unique by fastforce
      then have "find (\<lambda>a. key_at (heap s) a = k) bs = Some c"
        using bs cin kc True by (intro find_key_Some) (auto simp: bucket_ok_def)
      then show ?thesis
        using True sl chs' keys h by (simp add: stored_chain val_at_def)
    next
      case False
      have "val_at (heap s') a = val_at (heap s) a" if "find (\<lambda>a. key_at (heap s) a = k') bs = Some a" for a
      proof -
        have "key_at (heap s) a = k'" using that by (auto simp: find_Some_iff)
        then have "a \<noteq> c" using kc False by auto
        then show ?thesis using h by (simp add: val_at_def)
      qed
      then have "map_option (val_at (heap s')) (find (\<lambda>a. key_at (heap s) a = k') bs)
        = map_option (val_at (heap s)) (find (\<lambda>a. key_at (heap s) a = k') bs)"
        by (cases "find (\<lambda>a. key_at (heap s) a = k') bs") auto
      then show ?thesis
        using False True chs chs' keys by (simp add: stored_chain)
    qed
  qed
qed

lemma table_ok_link':
  assumes "table_ok s" "heap s a = None" "0 \<le> slot k" "key x = k" "next x = table s ! nat (slot k)"
    "chain (heap s) (table s ! nat (slot k)) as" "\<forall>b\<in>set as. key_at (heap s) b \<noteq> k"
    "heap s' = (heap s)(a \<mapsto> x)" "table s' = (table s)[nat (slot k) := Some a]"
  shows "table_ok s'"
proof -
  have "nat (slot k) < 5" using assms(3) slot_less[of k] by simp
  then have "table_ok (s\<lparr>heap := (heap s)(a \<mapsto> x), table := (table s)[nat (slot k) := Some a]\<rparr>)"
    using assms by (intro table_ok_link[where k = k and as = as]) auto
  then show ?thesis using assms(8,9) by (simp add: table_ok_def)
qed

lemma stored_link:
  assumes ok: "table_ok s" and fresh: "heap s a = None" and sl: "0 \<le> slot k"
    and x: "key x = k" "val x = v" "next x = table s ! nat (slot k)"
    and ch: "chain (heap s) (table s ! nat (slot k)) as" and absent: "\<forall>b\<in>set as. key_at (heap s) b \<noteq> k"
    and h: "heap s' = (heap s)(a \<mapsto> x)" and t: "table s' = (table s)[nat (slot k) := Some a]"
  shows "stored s' = (stored s)(k \<mapsto> v)"
proof
  fix k'
  have len: "length (table s) = 5" using ok by (simp add: table_ok_def)
  have i5: "nat (slot k) < 5" using sl slot_less[of k] by simp
  have notin: "a \<notin> set as" using ch fresh chain_live by fastforce
  show "stored s' k' = ((stored s)(k \<mapsto> v)) k'"
  proof (cases "0 \<le> slot k'")
    case False
    then have "slot k' < 0" by simp
    moreover from this sl have "k' \<noteq> k" by auto
    ultimately show ?thesis by (simp add: stored_negative)
  next
    case True
    then obtain bs where bs: "bucket_ok (heap s) (table s) (nat (slot k')) bs"
      using ok table_okD slot_less by blast
    then have chs: "chain (heap s) (table s ! nat (slot k')) bs" by (simp add: bucket_ok_def)
    have nb: "a \<notin> set bs" using chs fresh chain_live by fastforce
    have same: "\<forall>b\<in>set bs. key_at (heap s') b = key_at (heap s) b \<and> val_at (heap s') b = val_at (heap s) b"
      using nb h by (auto simp: key_at_def val_at_def)
    have f: "find (\<lambda>b. key_at (heap s') b = k') bs = find (\<lambda>b. key_at (heap s) b = k') bs"
      using same by (intro find_cong) auto
    have chs1: "chain (heap s') (table s ! nat (slot k')) bs"
      using chs nb h by (simp add: chain_upd_other)
    have v: "map_option (val_at (heap s')) (find (\<lambda>b. key_at (heap s) b = k') bs)
        = map_option (val_at (heap s)) (find (\<lambda>b. key_at (heap s) b = k') bs)"
    proof (cases "find (\<lambda>b. key_at (heap s) b = k') bs")
      case None
      then show ?thesis by simp
    next
      case (Some b)
      then have "b \<in> set bs" by (auto simp: find_Some_iff)
      then show ?thesis using Some same by simp
    qed
    show ?thesis
    proof (cases "slot k' = slot k")
      case False
      then have "nat (slot k') \<noteq> nat (slot k)" using True sl by auto
      then have "chain (heap s') (table s' ! nat (slot k')) bs" using chs1 t by simp
      moreover have "k' \<noteq> k" using False by auto
      ultimately show ?thesis using True chs f v by (simp add: stored_chain)
    next
      case same_slot: True
      then have "bs = as" using chs ch chain_unique by fastforce
      have "chain (heap s') (table s' ! nat (slot k')) (a # bs)"
        using chs1 t h x(3) same_slot len i5 by simp
      then have st: "stored s' k' = map_option (val_at (heap s')) (find (\<lambda>b. key_at (heap s') b = k') (a # bs))"
        using True by (intro stored_chain)
      have ka: "key_at (heap s') a = k" "val_at (heap s') a = v"
        using h x by (simp_all add: key_at_def val_at_def)
      show ?thesis
      proof (cases "k' = k")
        case True
        then show ?thesis using st ka by simp
      next
        case False
        then show ?thesis using st ka f v True chs by (simp add: stored_chain)
      qed
    qed
  qed
qed

section \<open>Keys whose remainder is negative\<close>

lemma slot_minus_one: "slot (- 1) = - 1"
  by (simp add: slot_def NUM_BUCKETS_def signed_modulo_int_def)

lemma insert_spin_bad_slot: "slot k < 0 \<Longrightarrow> insert_spin k v s = Some (Inl Undefined_Behaviour)"
  by (simp add: insert_spin_def Let_def pthread_spin_lock_def)

lemma retrieve_spin_bad_slot: "slot k < 0 \<Longrightarrow> retrieve_spin k s = Some (Inl Undefined_Behaviour)"
  by (simp add: retrieve_spin_def Let_def pthread_spin_lock_def)

lemma insert_rw_bad_slot: "slot k < 0 \<Longrightarrow> insert_rw k v s = Some (Inl Undefined_Behaviour)"
  by (simp add: insert_rw_def Let_def pthread_rwlock_wrlock_def)

lemma retrieve_rw_bad_slot: "slot k < 0 \<Longrightarrow> retrieve_rw k s = Some (Inl Undefined_Behaviour)"
  by (simp add: retrieve_rw_def Let_def pthread_rwlock_rdlock_def)

lemma insert_two_level_bad_slot: "slot k < 0 \<Longrightarrow> insert_two_level k v s = Some (Inl Undefined_Behaviour)"
  by (simp add: insert_two_level_def Let_def rdlock_bucket_def pthread_rwlock_rdlock_def)

lemma retrieve_two_level_bad_slot: "slot k < 0 \<Longrightarrow> retrieve_two_level k s = Some (Inl Undefined_Behaviour)"
  by (simp add: retrieve_two_level_def Let_def rdlock_bucket_def pthread_rwlock_rdlock_def)

lemma slot_valid_for_nonnegative_key:
  "0 \<le> sint k \<Longrightarrow> slot k = sint k mod 5 \<and> 0 \<le> slot k \<and> slot k < NUM_BUCKETS"
  by (simp add: slot_nonneg NUM_BUCKETS_def)

section \<open>The effect of insert on the stored values\<close>

lemma return_eq [simp]: "(return x = return y) = (x = y)"
  by (simp add: return_def)

lemma return_not_panic [simp]: "return x \<noteq> panic msg s" "panic msg s \<noteq> return x"
  by (simp_all add: return_def panic_def)

lemma return_not_undefined [simp]:
  "return x \<noteq> Some (Inl Undefined_Behaviour)" "Some (Inl Undefined_Behaviour) \<noteq> return x"
  by (simp_all add: return_def)

lemma panic_not_undefined [simp]:
  "panic msg s \<noteq> Some (Inl Undefined_Behaviour)" "Some (Inl Undefined_Behaviour) \<noteq> panic msg s"
  by (simp_all add: panic_def)

lemma panic_eq [simp]: "(panic m s = panic m' s') = (m = m' \<and> s = s')"
  by (auto simp: panic_def)

lemma stored_None_iff:
  "0 \<le> slot k \<Longrightarrow> chain (heap s) (table s ! nat (slot k)) as \<Longrightarrow>
   stored s k = None \<longleftrightarrow> find (\<lambda>a. key_at (heap s) a = k) as = None"
  by (simp add: stored_chain)

lemma wf_chain:
  "table_ok s \<Longrightarrow> 0 \<le> slot k \<Longrightarrow> \<exists>as. bucket_ok (heap s) (table s) (nat (slot k)) as"
  using table_okD slot_less by blast

lemma store_effect:
  assumes ok: "table_ok s" and sl: "0 \<le> slot k" and ch: "chain (heap s) (table s ! nat (slot k)) as"
    and f: "find (\<lambda>a. key_at (heap s) a = k) as = Some c"
    and h: "heap s' = (heap s)(c \<mapsto> (the (heap s c))\<lparr>val := v\<rparr>)" and t: "table s' = table s"
  shows "table_ok s' \<and> stored s' = (stored s)(k \<mapsto> v) \<and> dom (heap s') = dom (heap s)"
proof -
  have cin: "c \<in> set as" and kc: "key_at (heap s) c = k" using f by (auto simp: find_Some_iff)
  then obtain e where e: "heap s c = Some e" using ch chain_live by fastforce
  then have ke: "key e = k" using kc by (simp add: key_at_def)
  have h': "heap s' = (heap s)(c \<mapsto> e\<lparr>val := v\<rparr>)" using h e by simp
  have "table_ok s'" using ok e h' t by (rule table_ok_store')
  moreover have "stored s' = (stored s)(k \<mapsto> v)" using ok e ke h' t sl ch cin by (rule stored_store)
  moreover have "dom (heap s') = dom (heap s)" using h' e by auto
  ultimately show ?thesis by simp
qed

lemma link_effect:
  assumes ok: "table_ok s" and sl: "0 \<le> slot k" and ch: "chain (heap s) (table s ! nat (slot k)) as"
    and f: "find (\<lambda>a. key_at (heap s) a = k) as = None" and m: "malloc s = Some a"
    and x: "key x = k" "val x = v" "next x = table s ! nat (slot k)"
    and h: "heap s' = (heap s)(a \<mapsto> x)" and t: "table s' = (table s)[nat (slot k) := Some a]"
  shows "table_ok s' \<and> stored s' = (stored s)(k \<mapsto> v) \<and> dom (heap s') = insert a (dom (heap s))"
proof -
  have fresh: "heap s a = None" using m by (rule malloc_fresh)
  have absent: "\<forall>b\<in>set as. key_at (heap s) b \<noteq> k" using f by (simp add: find_None_iff)
  have "table_ok s'" using ok fresh sl x(1,3) ch absent h t by (rule table_ok_link')
  moreover have "stored s' = (stored s)(k \<mapsto> v)" using ok fresh sl x ch absent h t by (rule stored_link)
  moreover have "dom (heap s') = insert a (dom (heap s))" using h by auto
  ultimately show ?thesis by simp
qed

lemma insert_spin_returns:
  assumes "wf_spin s" "0 \<le> slot k" "stored s k \<noteq> None \<or> malloc s \<noteq> None"
  shows "\<exists>s'. insert_spin k v s = return s' \<and> wf_spin s' \<and> stored s' = (stored s)(k \<mapsto> v)
           \<and> mem_cells s' = mem_cells s
           \<and> dom (heap s') = dom (heap s) \<union> (if stored s k = None then set_option (malloc s) else {})"
proof -
  have ok: "table_ok s" using assms(1) by (simp add: wf_spin_def)
  then obtain as where "bucket_ok (heap s) (table s) (nat (slot k)) as"
    using assms(2) wf_chain by blast
  then have ch: "chain (heap s) (table s ! nat (slot k)) as" by (simp add: bucket_ok_def)
  note eq = insert_spin_eq[OF assms(1,2) ch, of v]
  show ?thesis
  proof (cases "find (\<lambda>a. key_at (heap s) a = k) as")
    case (Some c)
    let ?s' = "s\<lparr>heap := (heap s)(c \<mapsto> (the (heap s c))\<lparr>val := v\<rparr>)\<rparr>"
    have "table_ok ?s' \<and> stored ?s' = (stored s)(k \<mapsto> v) \<and> dom (heap ?s') = dom (heap s)"
      using ok assms(2) ch Some by (rule store_effect) simp_all
    moreover have "stored s k \<noteq> None" using Some assms(2) ch by (simp add: stored_chain)
    ultimately show ?thesis using eq Some assms(1) by (auto simp: wf_spin_def)
  next
    case None
    then have sn: "stored s k = None" using assms(2) ch by (simp add: stored_chain)
    then obtain a where a: "malloc s = Some a" using assms(3) by auto
    let ?s' = "s\<lparr>heap := (heap s)(a \<mapsto> \<lparr>key = k, val = v, next = table s ! nat (slot k)\<rparr>),
                  table := (table s)[nat (slot k) := Some a]\<rparr>"
    have "table_ok ?s' \<and> stored ?s' = (stored s)(k \<mapsto> v) \<and> dom (heap ?s') = insert a (dom (heap s))"
      using ok assms(2) ch None a by (rule link_effect) simp_all
    then show ?thesis using eq None a sn assms(1) by (simp add: wf_spin_def)
  qed
qed

lemma insert_spin_exits:
  assumes "wf_spin s" "0 \<le> slot k" "stored s k = None" "malloc s = None"
  shows "insert_spin k v s = panic ''No memory to allocate bucket!'' s"
proof -
  have ok: "table_ok s" using assms(1) by (simp add: wf_spin_def)
  then obtain as where "bucket_ok (heap s) (table s) (nat (slot k)) as"
    using assms(2) wf_chain by blast
  then have ch: "chain (heap s) (table s ! nat (slot k)) as" by (simp add: bucket_ok_def)
  then have "find (\<lambda>a. key_at (heap s) a = k) as = None"
    using assms(2,3) by (simp add: stored_chain)
  then show ?thesis using insert_spin_eq[OF assms(1,2) ch, of v] assms(4) by simp
qed

lemma insert_rw_returns:
  assumes "wf_rw s" "0 \<le> slot k" "stored s k \<noteq> None \<or> malloc s \<noteq> None"
  shows "\<exists>s'. insert_rw k v s = return s' \<and> wf_rw s' \<and> stored s' = (stored s)(k \<mapsto> v)
           \<and> mem_cells s' = mem_cells s
           \<and> dom (heap s') = dom (heap s) \<union> (if stored s k = None then set_option (malloc s) else {})"
proof -
  have ok: "table_ok s" using assms(1) by (simp add: wf_rw_def)
  then obtain as where "bucket_ok (heap s) (table s) (nat (slot k)) as"
    using assms(2) wf_chain by blast
  then have ch: "chain (heap s) (table s ! nat (slot k)) as" by (simp add: bucket_ok_def)
  note eq = insert_rw_eq[OF assms(1,2) ch, of v]
  show ?thesis
  proof (cases "find (\<lambda>a. key_at (heap s) a = k) as")
    case (Some c)
    let ?s' = "s\<lparr>heap := (heap s)(c \<mapsto> (the (heap s c))\<lparr>val := v\<rparr>)\<rparr>"
    have "table_ok ?s' \<and> stored ?s' = (stored s)(k \<mapsto> v) \<and> dom (heap ?s') = dom (heap s)"
      using ok assms(2) ch Some by (rule store_effect) simp_all
    moreover have "stored s k \<noteq> None" using Some assms(2) ch by (simp add: stored_chain)
    ultimately show ?thesis using eq Some assms(1) by (auto simp: wf_rw_def)
  next
    case None
    then have sn: "stored s k = None" using assms(2) ch by (simp add: stored_chain)
    then obtain a where a: "malloc s = Some a" using assms(3) by auto
    let ?s' = "s\<lparr>heap := (heap s)(a \<mapsto> \<lparr>key = k, val = v, next = table s ! nat (slot k)\<rparr>),
                  table := (table s)[nat (slot k) := Some a]\<rparr>"
    have "table_ok ?s' \<and> stored ?s' = (stored s)(k \<mapsto> v) \<and> dom (heap ?s') = insert a (dom (heap s))"
      using ok assms(2) ch None a by (rule link_effect) simp_all
    then show ?thesis using eq None a sn assms(1) by (simp add: wf_rw_def)
  qed
qed

lemma insert_rw_exits:
  assumes "wf_rw s" "0 \<le> slot k" "stored s k = None" "malloc s = None"
  shows "insert_rw k v s = panic ''No memory to allocate bucket!'' s"
proof -
  have ok: "table_ok s" using assms(1) by (simp add: wf_rw_def)
  then obtain as where "bucket_ok (heap s) (table s) (nat (slot k)) as"
    using assms(2) wf_chain by blast
  then have ch: "chain (heap s) (table s ! nat (slot k)) as" by (simp add: bucket_ok_def)
  then have "find (\<lambda>a. key_at (heap s) a = k) as = None"
    using assms(2,3) by (simp add: stored_chain)
  then show ?thesis using insert_rw_eq[OF assms(1,2) ch, of v] assms(4) by simp
qed

lemma entries_unlockedI:
  assumes "\<And>i. i < 5 \<Longrightarrow> \<exists>as. chain (heap s) (table s ! i) as \<and>
              (\<forall>a\<in>set as. \<forall>e. heap s a = Some e \<longrightarrow> entry_mutex e = Mutex_Unlocked)"
  shows "entries_unlocked s"
  unfolding entries_unlocked_def
proof (intro allI impI)
  fix i as assume "i < (5::nat)" "chain (heap s) (table s ! i) as"
  moreover from this assms obtain bs where "chain (heap s) (table s ! i) bs"
    "\<forall>a\<in>set bs. \<forall>e. heap s a = Some e \<longrightarrow> entry_mutex e = Mutex_Unlocked" by blast
  ultimately show "\<forall>a\<in>set as. \<forall>e. heap s a = Some e \<longrightarrow> entry_mutex e = Mutex_Unlocked"
    using chain_unique by blast
qed

lemma entries_unlocked_store:
  assumes un: "entries_unlocked s" and ok: "table_ok s" and c: "heap s c = Some e"
    and h: "heap s' = (heap s)(c \<mapsto> e\<lparr>val := v\<rparr>)" and t: "table s' = table s"
  shows "entries_unlocked s'"
proof (rule entries_unlockedI)
  fix i :: nat assume i: "i < 5"
  then obtain as where "bucket_ok (heap s) (table s) i as" using ok by (auto simp: table_ok_def)
  then have ch: "chain (heap s) (table s ! i) as" by (simp add: bucket_ok_def)
  then have "chain (heap s') (table s' ! i) as" using c h t by (simp add: chain_same_next)
  moreover have "\<forall>a\<in>set as. \<forall>e'. heap s' a = Some e' \<longrightarrow> entry_mutex e' = Mutex_Unlocked"
  proof (intro ballI allI impI)
    fix a e' assume a: "a \<in> set as" "heap s' a = Some e'"
    show "entry_mutex e' = Mutex_Unlocked"
    proof (cases "a = c")
      case True
      then have "entry_mutex e = Mutex_Unlocked" using un i ch a(1) c by (auto simp: entries_unlocked_def)
      then show ?thesis using True a(2) h by auto
    next
      case False
      then have "heap s a = Some e'" using a(2) h by simp
      then show ?thesis using un i ch a(1) by (auto simp: entries_unlocked_def)
    qed
  qed
  ultimately show "\<exists>as. chain (heap s') (table s' ! i) as \<and>
      (\<forall>a\<in>set as. \<forall>e. heap s' a = Some e \<longrightarrow> entry_mutex e = Mutex_Unlocked)" by blast
qed

lemma entries_unlocked_link:
  assumes un: "entries_unlocked s" and ok: "table_ok s" and fresh: "heap s a = None"
    and sl: "0 \<le> slot k" and x: "next x = table s ! nat (slot k)" "entry_mutex x = Mutex_Unlocked"
    and h: "heap s' = (heap s)(a \<mapsto> x)" and t: "table s' = (table s)[nat (slot k) := Some a]"
  shows "entries_unlocked s'"
proof (rule entries_unlockedI)
  fix i :: nat assume i: "i < 5"
  have len: "length (table s) = 5" using ok by (simp add: table_ok_def)
  obtain as where "bucket_ok (heap s) (table s) i as" using ok i by (auto simp: table_ok_def)
  then have ch: "chain (heap s) (table s ! i) as" by (simp add: bucket_ok_def)
  have na: "a \<notin> set as" using ch fresh chain_live by fastforce
  then have ch': "chain (heap s') (table s ! i) as" using ch h by (simp add: chain_upd_other)
  have old: "\<forall>b\<in>set as. \<forall>e. heap s' b = Some e \<longrightarrow> entry_mutex e = Mutex_Unlocked"
    using un i ch na h by (auto simp: entries_unlocked_def)
  show "\<exists>as. chain (heap s') (table s' ! i) as \<and>
      (\<forall>a\<in>set as. \<forall>e. heap s' a = Some e \<longrightarrow> entry_mutex e = Mutex_Unlocked)"
  proof (cases "i = nat (slot k)")
    case False
    then have "chain (heap s') (table s' ! i) as" using ch' t by simp
    then show ?thesis using old by blast
  next
    case True
    then have "chain (heap s') (table s' ! i) (a # as)" using ch' t h x(1) len i by simp
    moreover have "\<forall>b\<in>set (a # as). \<forall>e. heap s' b = Some e \<longrightarrow> entry_mutex e = Mutex_Unlocked"
      using old h x(2) by auto
    ultimately show ?thesis by blast
  qed
qed

lemma table_ok_lock_log [simp]: "table_ok (s\<lparr>lock_log := l\<rparr>) = table_ok s"
  by (simp add: table_ok_def)

lemma stored_cong: "heap s' = heap s \<Longrightarrow> table s' = table s \<Longrightarrow> stored s' = stored s"
  unfolding stored_def by presburger

lemma stored_lock_log [simp]: "stored (s\<lparr>lock_log := l\<rparr>) = stored s"
  by (rule stored_cong) simp_all

lemma entries_unlocked_lock_log [simp]: "entries_unlocked (s\<lparr>lock_log := l\<rparr>) = entries_unlocked s"
  by (simp add: entries_unlocked_def)

lemma wf_two_level_lock_log [simp]: "wf_two_level (s\<lparr>lock_log := l\<rparr>) = wf_two_level s"
  by (simp add: wf_two_level_def)

lemma insert_two_level_returns:
  assumes "wf_two_level s" "0 \<le> slot k" "stored s k \<noteq> None \<or> malloc s \<noteq> None"
  shows "\<exists>s'. insert_two_level k v s = return s' \<and> wf_two_level s' \<and> stored s' = (stored s)(k \<mapsto> v)
           \<and> mem_cells s' = mem_cells s
           \<and> dom (heap s') = dom (heap s) \<union> (if stored s k = None then set_option (malloc s) else {})"
proof -
  have ok: "table_ok s" and un: "entries_unlocked s" using assms(1) by (simp_all add: wf_two_level_def)
  then obtain as where "bucket_ok (heap s) (table s) (nat (slot k)) as"
    using assms(2) wf_chain by blast
  then have ch: "chain (heap s) (table s ! nat (slot k)) as" by (simp add: bucket_ok_def)
  note eq = insert_two_level_eq[OF assms(1,2) ch, of v]
  show ?thesis
  proof (cases "find (\<lambda>a. key_at (heap s) a = k) as")
    case (Some c)
    let ?s' = "s\<lparr>heap := (heap s)(c \<mapsto> (the (heap s c))\<lparr>val := v\<rparr>)\<rparr>"
    have "c \<in> set as" using Some by (auto simp: find_Some_iff)
    then obtain e where e: "heap s c = Some e" using ch chain_live by fastforce
    have "table_ok ?s' \<and> stored ?s' = (stored s)(k \<mapsto> v) \<and> dom (heap ?s') = dom (heap s)"
      using ok assms(2) ch Some by (rule store_effect) simp_all
    moreover have "stored s k \<noteq> None" using Some assms(2) ch by (simp add: stored_chain)
    moreover have "entries_unlocked ?s'" using un ok e by (rule entries_unlocked_store) (simp_all add: e)
    ultimately show ?thesis using eq Some assms(1) by (auto simp: wf_two_level_def)
  next
    case None
    then have sn: "stored s k = None" using assms(2) ch by (simp add: stored_chain)
    then obtain a where a: "malloc s = Some a" using assms(3) by auto
    let ?s' = "s\<lparr>heap := (heap s)(a \<mapsto> \<lparr>key = k, val = v, next = table s ! nat (slot k),
                                         entry_mutex = Mutex_Unlocked\<rparr>),
                  table := (table s)[nat (slot k) := Some a]\<rparr>"
    have "table_ok ?s' \<and> stored ?s' = (stored s)(k \<mapsto> v) \<and> dom (heap ?s') = insert a (dom (heap s))"
      using ok assms(2) ch None a by (rule link_effect) simp_all
    moreover have "entries_unlocked ?s'"
      using un ok malloc_fresh[OF a] assms(2) by (rule entries_unlocked_link) simp_all
    ultimately show ?thesis using eq None a sn assms(1) by (auto simp: wf_two_level_def)
  qed
qed

lemma insert_two_level_exits:
  assumes "wf_two_level s" "0 \<le> slot k" "stored s k = None" "malloc s = None"
  shows "insert_two_level k v s =
     panic ''No memory to allocate bucket!''
       (s\<lparr>lock_log := lock_log s @ [Acquire_Bucket (slot k), Release_Bucket (slot k),
                                   Acquire_Bucket (slot k), Release_Bucket (slot k)]\<rparr>)"
proof -
  have ok: "table_ok s" using assms(1) by (simp add: wf_two_level_def)
  then obtain as where "bucket_ok (heap s) (table s) (nat (slot k)) as"
    using assms(2) wf_chain by blast
  then have ch: "chain (heap s) (table s ! nat (slot k)) as" by (simp add: bucket_ok_def)
  then have "find (\<lambda>a. key_at (heap s) a = k) as = None"
    using assms(2,3) by (simp add: stored_chain)
  then show ?thesis using insert_two_level_eq[OF assms(1,2) ch, of v] assms(4) by simp
qed

section \<open>Every variant refines the map\<close>

lemma first_free_abstraction [simp]: "first_free (abstraction s) = malloc s"
proof -
  have "(\<lambda>a. a \<notin> dom (heap s)) = (\<lambda>a. heap s a = None)" by (auto simp: fun_eq_iff)
  then show ?thesis by (simp add: first_free_def abstraction_def malloc_def)
qed

lemma abstract_simps [simp]:
  "abstract (return s) = return (abstraction s)"
  "abstract (panic msg s) = panic msg ()"
  "abstract (Some (Inl Undefined_Behaviour)) = Some (Inl Undefined_Behaviour)"
  "abstract None = None"
  by (simp_all add: abstract_def return_def panic_def)

lemma abstraction_fields [simp]:
  "capacity (abstraction s) = mem_cells s"
  "live (abstraction s) = dom (heap s)"
  "content (abstraction s) = stored s"
  by (simp_all add: abstraction_def)

lemma abstraction_eq_iff:
  "abstraction s' = t \<longleftrightarrow> mem_cells s' = capacity t \<and> dom (heap s') = live t \<and> stored s' = content t"
  by (cases t) (auto simp: abstraction_def)

lemma insert_spin_refines:
  assumes "wf_spin s"
  shows "abstract (insert_spin k v s) = map_insert k v (abstraction s)
         \<and> (\<forall>s'. insert_spin k v s = return s' \<longrightarrow> wf_spin s')"
proof (cases "0 \<le> slot k")
  case False
  then show ?thesis by (simp add: insert_spin_bad_slot map_insert_def)
next
  case True
  show ?thesis
  proof (cases "stored s k \<noteq> None \<or> malloc s \<noteq> None")
    case True
    from insert_spin_returns[OF assms \<open>0 \<le> slot k\<close> True, of v]
    obtain s' where s': "insert_spin k v s = return s'" "wf_spin s'" "stored s' = (stored s)(k \<mapsto> v)"
      "mem_cells s' = mem_cells s"
      "dom (heap s') = dom (heap s) \<union> (if stored s k = None then set_option (malloc s) else {})"
      by blast
    show ?thesis
      using s' \<open>0 \<le> slot k\<close> True
      by (auto simp: map_insert_def abstraction_eq_iff split: option.splits)
  next
    case False
    then show ?thesis
      using insert_spin_exits[OF assms \<open>0 \<le> slot k\<close>, of v] \<open>0 \<le> slot k\<close>
      by (auto simp: map_insert_def)
  qed
qed

lemma insert_rw_refines:
  assumes "wf_rw s"
  shows "abstract (insert_rw k v s) = map_insert k v (abstraction s)
         \<and> (\<forall>s'. insert_rw k v s = return s' \<longrightarrow> wf_rw s')"
proof (cases "0 \<le> slot k")
  case False
  then show ?thesis by (simp add: insert_rw_bad_slot map_insert_def)
next
  case True
  show ?thesis
  proof (cases "stored s k \<noteq> None \<or> malloc s \<noteq> None")
    case True
    from insert_rw_returns[OF assms \<open>0 \<le> slot k\<close> True, of v]
    obtain s' where s': "insert_rw k v s = return s'" "wf_rw s'" "stored s' = (stored s)(k \<mapsto> v)"
      "mem_cells s' = mem_cells s"
      "dom (heap s') = dom (heap s) \<union> (if stored s k = None then set_option (malloc s) else {})"
      by blast
    show ?thesis
      using s' \<open>0 \<le> slot k\<close> True
      by (auto simp: map_insert_def abstraction_eq_iff split: option.splits)
  next
    case False
    then show ?thesis
      using insert_rw_exits[OF assms \<open>0 \<le> slot k\<close>, of v] \<open>0 \<le> slot k\<close>
      by (auto simp: map_insert_def)
  qed
qed

lemma insert_two_level_refines:
  assumes "wf_two_level s"
  shows "abstract (insert_two_level k v s) = map_insert k v (abstraction s)
         \<and> (\<forall>s'. insert_two_level k v s = return s' \<longrightarrow> wf_two_level s')"
proof (cases "0 \<le> slot k")
  case False
  then show ?thesis by (simp add: insert_two_level_bad_slot map_insert_def)
next
  case True
  show ?thesis
  proof (cases "stored s k \<noteq> None \<or> malloc s \<noteq> None")
    case True
    from insert_two_level_returns[OF assms \<open>0 \<le> slot k\<close> True, of v]
    obtain s' where s': "insert_two_level k v s = return s'" "wf_two_level s'" "stored s' = (stored s)(k \<mapsto> v)"
      "mem_cells s' = mem_cells s"
      "dom (heap s') = dom (heap s) \<union> (if stored s k = None then set_option (malloc s) else {})"
      by blast
    show ?thesis
      using s' \<open>0 \<le> slot k\<close> True
      by (auto simp: map_insert_def abstraction_eq_iff split: option.splits)
  next
    case False
    then show ?thesis
      using insert_two_level_exits[OF assms \<open>0 \<le> slot k\<close>, of v] \<open>0 \<le> slot k\<close>
      by (auto simp: map_insert_def)
  qed
qed


lemma and_then_abstract:
  assumes "abstract r = q" "\<And>s. r = return s \<Longrightarrow> abstract (f s) = g (abstraction s)"
  shows "abstract (and_then r f) = and_then q g"
proof (cases r)
  case None
  then show ?thesis using assms(1) by (auto simp: abstract_def and_then_def)
next
  case (Some x)
  show ?thesis
  proof (cases x)
    case (Inl e)
    then show ?thesis using Some assms(1) by (cases e) (auto simp: abstract_def and_then_def)
  next
    case (Inr s)
    then have "r = return s" using Some by (simp add: return_def)
    then show ?thesis using assms by (auto simp: abstract_def and_then_def return_def)
  qed
qed

lemma insert_all_spin_refines:
  "wf_spin s \<Longrightarrow> abstract (insert_all_spin ops s) = map_insert_all ops (abstraction s)
     \<and> (\<forall>s'. insert_all_spin ops s = return s' \<longrightarrow> wf_spin s')"
proof (induction ops arbitrary: s)
  case Nil
  then show ?case by simp
next
  case (Cons op ops)
  obtain k v where op: "op = (k, v)" by (cases op)
  note step = insert_spin_refines[OF Cons.prems, of k v]
  have "abstract (and_then (insert_spin k v s) (insert_all_spin ops))
      = and_then (map_insert k v (abstraction s)) (map_insert_all ops)"
    using step Cons.IH by (intro and_then_abstract) auto
  moreover have "\<forall>s'. and_then (insert_spin k v s) (insert_all_spin ops) = return s' \<longrightarrow> wf_spin s'"
    using step Cons.IH by (auto simp: and_then_def return_def split: option.splits sum.splits)
  ultimately show ?case using op by simp
qed

lemma insert_all_rw_refines:
  "wf_rw s \<Longrightarrow> abstract (insert_all_rw ops s) = map_insert_all ops (abstraction s)
     \<and> (\<forall>s'. insert_all_rw ops s = return s' \<longrightarrow> wf_rw s')"
proof (induction ops arbitrary: s)
  case Nil
  then show ?case by simp
next
  case (Cons op ops)
  obtain k v where op: "op = (k, v)" by (cases op)
  note step = insert_rw_refines[OF Cons.prems, of k v]
  have "abstract (and_then (insert_rw k v s) (insert_all_rw ops))
      = and_then (map_insert k v (abstraction s)) (map_insert_all ops)"
    using step Cons.IH by (intro and_then_abstract) auto
  moreover have "\<forall>s'. and_then (insert_rw k v s) (insert_all_rw ops) = return s' \<longrightarrow> wf_rw s'"
    using step Cons.IH by (auto simp: and_then_def return_def split: option.splits sum.splits)
  ultimately show ?case using op by simp
qed

lemma insert_all_two_level_refines:
  "wf_two_level s \<Longrightarrow> abstract (insert_all_two_level ops s) = map_insert_all ops (abstraction s)
     \<and> (\<forall>s'. insert_all_two_level ops s = return s' \<longrightarrow> wf_two_level s')"
proof (induction ops arbitrary: s)
  case Nil
  then show ?case by simp
next
  case (Cons op ops)
  obtain k v where op: "op = (k, v)" by (cases op)
  note step = insert_two_level_refines[OF Cons.prems, of k v]
  have "abstract (and_then (insert_two_level k v s) (insert_all_two_level ops))
      = and_then (map_insert k v (abstraction s)) (map_insert_all ops)"
    using step Cons.IH by (intro and_then_abstract) auto
  moreover have "\<forall>s'. and_then (insert_two_level k v s) (insert_all_two_level ops) = return s' \<longrightarrow> wf_two_level s'"
    using step Cons.IH by (auto simp: and_then_def return_def split: option.splits sum.splits)
  ultimately show ?case using op by simp
qed

lemma observe_simps [simp]:
  "observe (return (None, s)) = Not_Found"
  "observe (panic msg s') = Fatal msg"
  "observe (Some (Inl Undefined_Behaviour)) = Undefined"
  "observe None = Hangs"
  "heap s r = Some e \<Longrightarrow> observe (return (Some r, s)) = Found (val e)"
  by (simp_all add: observe_def return_def panic_def)

lemma retrieve_spin_refines:
  assumes "wf_spin s"
  shows "observe (retrieve_spin k s) = map_lookup k (abstraction s)"
proof (cases "0 \<le> slot k")
  case False
  then show ?thesis by (simp add: retrieve_spin_bad_slot map_lookup_def)
next
  case True
  have ok: "table_ok s" using assms by (simp add: wf_spin_def)
  then obtain as where "bucket_ok (heap s) (table s) (nat (slot k)) as"
    using True wf_chain by blast
  then have ch: "chain (heap s) (table s ! nat (slot k)) as" by (simp add: bucket_ok_def)
  show ?thesis
    using retrieve_spin_eq[OF assms True ch] True stored_chain[OF True ch]
    by (auto simp: map_lookup_def split: option.splits)
qed

lemma retrieve_rw_refines:
  assumes "wf_rw s"
  shows "observe (retrieve_rw k s) = map_lookup k (abstraction s)"
proof (cases "0 \<le> slot k")
  case False
  then show ?thesis by (simp add: retrieve_rw_bad_slot map_lookup_def)
next
  case True
  have ok: "table_ok s" using assms by (simp add: wf_rw_def)
  then obtain as where "bucket_ok (heap s) (table s) (nat (slot k)) as"
    using True wf_chain by blast
  then have ch: "chain (heap s) (table s ! nat (slot k)) as" by (simp add: bucket_ok_def)
  show ?thesis
    using retrieve_rw_eq[OF assms True ch] True stored_chain[OF True ch]
    by (auto simp: map_lookup_def split: option.splits)
qed

lemma retrieve_two_level_refines:
  assumes "wf_two_level s"
  shows "observe (retrieve_two_level k s) = map_lookup k (abstraction s)"
proof (cases "0 \<le> slot k")
  case False
  then show ?thesis by (simp add: retrieve_two_level_bad_slot map_lookup_def)
next
  case True
  have ok: "table_ok s" using assms by (simp add: wf_two_level_def)
  then obtain as where "bucket_ok (heap s) (table s) (nat (slot k)) as"
    using True wf_chain by blast
  then have ch: "chain (heap s) (table s ! nat (slot k)) as" by (simp add: bucket_ok_def)
  show ?thesis
    using retrieve_two_level_eq[OF assms True ch] True stored_chain[OF True ch]
    by (auto simp: map_lookup_def split: option.splits)
qed

lemma table_ok_init:
  "heap s = Map.empty \<Longrightarrow> table s = replicate 5 None \<Longrightarrow> table_ok s"
  unfolding table_ok_def bucket_ok_def
  by (auto intro!: exI[of _ "[]"])

lemma stored_init:
  "table s = replicate 5 None \<Longrightarrow> stored s = Map.empty"
proof
  fix k assume t: "table s = replicate 5 None"
  show "stored s k = None"
  proof (cases "0 \<le> slot k")
    case True
    then have "nat (slot k) < 5" using slot_less[of k] by simp
    then show ?thesis using t by (simp add: stored_def)
  qed (simp add: stored_def)
qed

lemma wf_init_spin [simp]: "wf_spin (init_spin n)"
  by (simp add: wf_spin_def init_spin_def table_ok_init)

lemma wf_init_rw [simp]: "wf_rw (init_rw n)"
  by (simp add: wf_rw_def init_rw_def table_ok_init)

lemma wf_init_two_level [simp]: "wf_two_level (init_two_level n)"
  by (simp add: wf_two_level_def init_two_level_def table_ok_init entries_unlocked_def)

lemma abstraction_init:
  "abstraction (init_spin n) = \<lparr>capacity = n, live = {}, content = Map.empty\<rparr>"
  "abstraction (init_rw n) = \<lparr>capacity = n, live = {}, content = Map.empty\<rparr>"
  "abstraction (init_two_level n) = \<lparr>capacity = n, live = {}, content = Map.empty\<rparr>"
  by (simp_all add: abstraction_eq_iff stored_init init_spin_def init_rw_def init_two_level_def)

lemma observe_and_then:
  assumes "abstract r = q" "\<And>s. r = return s \<Longrightarrow> observe (f s) = g (abstraction s)"
  shows "observe (and_then r f) =
     (case q of None \<Rightarrow> Hangs | Some (Inl (Exited _ msg _)) \<Rightarrow> Fatal msg
      | Some (Inl Undefined_Behaviour) \<Rightarrow> Undefined | Some (Inr t) \<Rightarrow> g t)"
proof (cases r)
  case None
  then show ?thesis using assms(1) by (auto simp: abstract_def and_then_def observe_def)
next
  case (Some x)
  show ?thesis
  proof (cases x)
    case (Inl e)
    then show ?thesis using Some assms(1) by (cases e) (auto simp: abstract_def and_then_def observe_def)
  next
    case (Inr s)
    then have "r = return s" using Some by (simp add: return_def)
    then show ?thesis using assms by (auto simp: abstract_def and_then_def return_def)
  qed
qed

lemma lookup_after_spin_refines: "lookup_after_spin n ops k = map_lookup_after n ops k"
  unfolding lookup_after_spin_def map_lookup_after_def
  using insert_all_spin_refines[OF wf_init_spin, of ops n]
  by (intro observe_and_then) (auto simp: abstraction_init retrieve_spin_refines)

lemma lookup_after_rw_refines: "lookup_after_rw n ops k = map_lookup_after n ops k"
  unfolding lookup_after_rw_def map_lookup_after_def
  using insert_all_rw_refines[OF wf_init_rw, of ops n]
  by (intro observe_and_then) (auto simp: abstraction_init retrieve_rw_refines)

lemma lookup_after_two_level_refines: "lookup_after_two_level n ops k = map_lookup_after n ops k"
  unfolding lookup_after_two_level_def map_lookup_after_def
  using insert_all_two_level_refines[OF wf_init_two_level, of ops n]
  by (intro observe_and_then) (auto simp: abstraction_init retrieve_two_level_refines)

section \<open>The table after a sequence of inserts\<close>

lemma replicate_five: "replicate 5 x = [x, x, x, x, x]"
  by (simp add: eval_nat_numeral)

lemma filter_key_single:
  "distinct (map f as) \<Longrightarrow> c \<in> set as \<Longrightarrow> filter (\<lambda>a. f a = f c) as = [c]"
proof (induction as)
  case Nil
  then show ?case by simp
next
  case (Cons a as)
  show ?case
  proof (cases "a = c")
    case True
    then have "\<forall>b\<in>set as. f b \<noteq> f c" using Cons.prems(1) by (metis distinct.simps(2) image_eqI list.simps(9) set_map)
    then have "filter (\<lambda>a. f a = f c) as = []" by (simp add: filter_empty_conv)
    then show ?thesis using True by simp
  next
    case False
    then have "c \<in> set as" using Cons.prems(2) by simp
    moreover have "f a \<noteq> f c" using Cons.prems(1) \<open>c \<in> set as\<close> by auto
    ultimately show ?thesis using Cons by simp
  qed
qed

lemma stored_holds_once:
  assumes "table_ok s" "stored s k = Some v"
  shows "holds_once s k v"
proof -
  have sl: "0 \<le> slot k" using assms(2) by (cases "0 \<le> slot k") (simp_all add: stored_def)
  then obtain as where b: "bucket_ok (heap s) (table s) (nat (slot k)) as"
    using assms(1) wf_chain by blast
  then have ch: "chain (heap s) (table s ! nat (slot k)) as" by (simp add: bucket_ok_def)
  then obtain c where c: "find (\<lambda>a. key_at (heap s) a = k) as = Some c" "val_at (heap s) c = v"
    using assms(2) sl by (auto simp: stored_chain)
  then have "c \<in> set as" "key_at (heap s) c = k" by (auto simp: find_Some_iff)
  then have "filter (\<lambda>a. key_at (heap s) a = k) as = [c]"
    using b filter_key_single[of "key_at (heap s)" as c] by (auto simp: bucket_ok_def)
  then show ?thesis using sl ch c(2) by (auto simp: holds_once_def)
qed

lemma map_insert_content:
  "map_insert k v t = return t' \<Longrightarrow> content t' = (content t)(k \<mapsto> v)"
  by (auto simp: map_insert_def split: if_splits option.splits)

lemma map_insert_all_content:
  "map_insert_all ops t = return t' \<Longrightarrow> content t' = content t ++ map_of (rev ops)"
proof (induction ops arbitrary: t)
  case Nil
  then show ?case by simp
next
  case (Cons op ops)
  obtain k v where op: "op = (k, v)" by (cases op)
  then obtain t1 where t1: "map_insert k v t = return t1" "map_insert_all ops t1 = return t'"
    using Cons.prems by (auto simp: and_then_def return_def split: option.splits sum.splits)
  have "content t' = (content t)(k \<mapsto> v) ++ map_of (rev ops)"
    using Cons.IH[OF t1(2)] map_insert_content[OF t1(1)] by (simp only:)
  also have "\<dots> = content t ++ map_of (rev (op # ops))"
    using op by (simp add: map_add_upd_left map_add_def fun_eq_iff split: option.splits)
  finally show ?case .
qed

lemma last_insert_value:
  assumes "ops = before @ (k, v) # after" "k \<notin> fst ` set after"
  shows "map_of (rev ops) k = Some v"
proof -
  have "map_of (rev after) k = None" using assms(2) by (simp add: map_of_eq_None_iff)
  then show ?thesis using assms(1) by (simp add: map_add_def)
qed

lemma abstract_return: "r = return s \<Longrightarrow> abstract r = return (abstraction s)"
  by simp

lemma stored_after_inserts_spin:
  assumes "insert_all_spin ops (init_spin n) = return s"
  shows "wf_spin s \<and> stored s = map_of (rev ops)"
proof -
  note r = insert_all_spin_refines[OF wf_init_spin, of ops n]
  then have "map_insert_all ops (abstraction (init_spin n)) = return (abstraction s)"
    using assms by simp
  then have "stored s = map_of (rev ops)"
    using map_insert_all_content by (fastforce simp: abstraction_init)
  then show ?thesis using r assms by simp
qed

lemma stored_after_inserts_rw:
  assumes "insert_all_rw ops (init_rw n) = return s"
  shows "wf_rw s \<and> stored s = map_of (rev ops)"
proof -
  note r = insert_all_rw_refines[OF wf_init_rw, of ops n]
  then have "map_insert_all ops (abstraction (init_rw n)) = return (abstraction s)"
    using assms by simp
  then have "stored s = map_of (rev ops)"
    using map_insert_all_content by (fastforce simp: abstraction_init)
  then show ?thesis using r assms by simp
qed

lemma stored_after_inserts_two_level:
  assumes "insert_all_two_level ops (init_two_level n) = return s"
  shows "wf_two_level s \<and> stored s = map_of (rev ops)"
proof -
  note r = insert_all_two_level_refines[OF wf_init_two_level, of ops n]
  then have "map_insert_all ops (abstraction (init_two_level n)) = return (abstraction s)"
    using assms by simp
  then have "stored s = map_of (rev ops)"
    using map_insert_all_content by (fastforce simp: abstraction_init)
  then show ?thesis using r assms by simp
qed

lemma map_lookup_stored:
  assumes "table_ok s" "stored s k = Some v"
  shows "map_lookup k (abstraction s) \<noteq> Not_Found
     \<and> (malloc s \<noteq> None \<longrightarrow> map_lookup k (abstraction s) = Found v)"
proof -
  have "0 \<le> slot k" using assms(2) by (cases "0 \<le> slot k") (simp_all add: stored_def)
  then show ?thesis using assms(2) by (auto simp: map_lookup_def split: option.splits)
qed

section \<open>The runs of the map: when they return and what they hold\<close>

lemma first_free_Some:
  assumes "finite (live t)" "card (live t) < capacity t"
  shows "\<exists>a. first_free t = Some a \<and> a \<notin> live t"
proof -
  have "\<not> {0..<capacity t} \<subseteq> live t"
    using assms card_mono[of "live t" "{0..<capacity t}"] by auto
  then obtain b where "b \<in> {0..<capacity t}" "b \<notin> live t" by blast
  then have "b < capacity t" "b \<notin> live t" by simp_all
  then have "first_free t \<noteq> None" by (auto simp: first_free_def find_None_iff)
  then obtain a where a: "first_free t = Some a" by auto
  then have "a \<notin> live t" by (auto simp: first_free_def find_Some_iff)
  then show ?thesis using a by simp
qed

lemma map_insert_all_enough:
  assumes "finite (live t)" "\<forall>k\<in>fst ` set ops. 0 \<le> slot k"
    "card (live t) + card (fst ` set ops - dom (content t)) \<le> capacity t"
  shows "\<exists>t'. map_insert_all ops t = return t' \<and> finite (live t') \<and> capacity t' = capacity t
     \<and> card (live t') \<le> card (live t) + card (fst ` set ops - dom (content t))"
  using assms
proof (induction ops arbitrary: t)
  case Nil
  then show ?case by simp
next
  case (Cons op ops)
  obtain k v where op: "op = (k, v)" by (cases op)
  have sl: "\<not> slot k < 0" using Cons.prems(2) op by auto
  have fin: "finite (fst ` set (op # ops) - dom (content t))" by simp
  show ?case
  proof (cases "content t k")
    case (Some w)
    let ?t = "t\<lparr>content := (content t)(k \<mapsto> v)\<rparr>"
    have d: "dom (content ?t) = dom (content t)" using Some by auto
    have sub: "fst ` set ops - dom (content ?t) \<subseteq> fst ` set (op # ops) - dom (content t)"
      unfolding d by auto
    have c: "card (fst ` set ops - dom (content ?t)) \<le> card (fst ` set (op # ops) - dom (content t))"
      using card_mono[OF fin sub] .
    have p1: "finite (live ?t)" using Cons.prems(1) by simp
    have p2: "\<forall>k\<in>fst ` set ops. 0 \<le> slot k" using Cons.prems(2) by simp
    have p3: "card (live ?t) + card (fst ` set ops - dom (content ?t)) \<le> capacity ?t"
      using Cons.prems(3) c by simp
    obtain t' where t': "map_insert_all ops ?t = return t'" "finite (live t')" "capacity t' = capacity ?t"
        "card (live t') \<le> card (live ?t) + card (fst ` set ops - dom (content ?t))"
      using Cons.IH[OF p1 p2 p3] by blast
    have m: "map_insert k v t = return ?t" using Some sl by (simp add: map_insert_def)
    have "card (live t') \<le> card (live t) + card (fst ` set (op # ops) - dom (content t))"
      using t'(4) c by simp
    then show ?thesis using t' m op by (intro exI[of _ t']) simp
  next
    case None
    have kin: "k \<in> fst ` set (op # ops) - dom (content t)" using None op by auto
    then have pos: "0 < card (fst ` set (op # ops) - dom (content t))"
      using fin by (metis card_gt_0_iff empty_iff)
    then obtain a where a: "first_free t = Some a" "a \<notin> live t"
      using first_free_Some[OF Cons.prems(1)] Cons.prems(3) by auto
    let ?t = "t\<lparr>live := insert a (live t), content := (content t)(k \<mapsto> v)\<rparr>"
    have sub: "fst ` set ops - dom (content ?t) \<subseteq> (fst ` set (op # ops) - dom (content t)) - {k}"
      by auto
    have "card (fst ` set ops - dom (content ?t)) \<le> card ((fst ` set (op # ops) - dom (content t)) - {k})"
      using card_mono[OF _ sub] fin by simp
    then have c: "Suc (card (fst ` set ops - dom (content ?t))) \<le> card (fst ` set (op # ops) - dom (content t))"
      using kin fin pos by (simp add: card_Diff_singleton)
    have l: "card (live ?t) = Suc (card (live t))" using a(2) Cons.prems(1) by simp
    have p1: "finite (live ?t)" using Cons.prems(1) by simp
    have p2: "\<forall>k\<in>fst ` set ops. 0 \<le> slot k" using Cons.prems(2) by simp
    have p3: "card (live ?t) + card (fst ` set ops - dom (content ?t)) \<le> capacity ?t"
      using Cons.prems(3) c l by simp
    obtain t' where t': "map_insert_all ops ?t = return t'" "finite (live t')" "capacity t' = capacity ?t"
        "card (live t') \<le> card (live ?t) + card (fst ` set ops - dom (content ?t))"
      using Cons.IH[OF p1 p2 p3] by blast
    have m: "map_insert k v t = return ?t" using None sl a(1) by (simp add: map_insert_def)
    have "card (live t') \<le> card (live t) + card (fst ` set (op # ops) - dom (content t))"
      using t'(4) c l by simp
    then show ?thesis using t' m op by (intro exI[of _ t']) simp
  qed
qed

lemma map_insert_all_defined:
  assumes "\<forall>k\<in>fst ` set ops. 0 \<le> slot k"
  shows "(\<exists>t'. map_insert_all ops t = return t') \<or> map_insert_all ops t = panic ''No memory to allocate bucket!'' ()"
  using assms
proof (induction ops arbitrary: t)
  case Nil
  then show ?case by simp
next
  case (Cons op ops)
  obtain k v where op: "op = (k, v)" by (cases op)
  have sl: "\<not> slot k < 0" using Cons.prems op by auto
  have ih: "(\<exists>t'. map_insert_all ops t1 = return t') \<or> map_insert_all ops t1 = panic ''No memory to allocate bucket!'' ()" for t1
    using Cons.IH Cons.prems by simp
  show ?case
    using sl op ih by (auto simp: map_insert_def panic_def split: option.splits)
qed

lemma map_insert_all_keys:
  "map_insert_all ops t = return t' \<Longrightarrow> \<forall>k\<in>fst ` set ops. 0 \<le> slot k"
proof (induction ops arbitrary: t)
  case Nil
  then show ?case by simp
next
  case (Cons op ops)
  obtain k v where op: "op = (k, v)" by (cases op)
  obtain t1 where 1: "map_insert k v t = return t1" and 2: "map_insert_all ops t1 = return t'"
    using Cons.prems op by (auto simp: and_then_def return_def split: option.splits sum.splits)
  have "0 \<le> slot k" using 1 by (auto simp: map_insert_def split: if_splits)
  then show ?case using Cons.IH[OF 2] op by simp
qed

lemma map_lookup_after_cases:
  assumes keys: "\<forall>k'\<in>fst ` set ops. 0 \<le> slot k'" and sl: "0 \<le> slot k"
  shows "map_lookup_after n ops k \<noteq> Undefined \<and> map_lookup_after n ops k \<noteq> Hangs
     \<and> (\<forall>v. map_lookup_after n ops k = Found v \<longrightarrow> map_of (rev ops) k = Some v)
     \<and> (map_lookup_after n ops k = Not_Found \<longrightarrow> k \<notin> fst ` set ops)
     \<and> (card (fst ` set ops) < n \<longrightarrow>
          map_lookup_after n ops k = (case map_of (rev ops) k of None \<Rightarrow> Not_Found | Some v \<Rightarrow> Found v))"
proof -
  let ?t = "\<lparr>capacity = n, live = {}, content = Map.empty\<rparr>"
  have enough: "\<exists>t'. map_insert_all ops ?t = return t' \<and> finite (live t') \<and> capacity t' = n
      \<and> card (live t') \<le> card (fst ` set ops)"
    if "card (fst ` set ops) < n"
    using map_insert_all_enough[of ?t ops] keys that by simp
  from map_insert_all_defined[OF keys, of ?t] show ?thesis
  proof (elim disjE exE)
    assume p: "map_insert_all ops ?t = panic ''No memory to allocate bucket!'' ()"
    then have "map_lookup_after n ops k = Fatal ''No memory to allocate bucket!''"
      by (simp add: map_lookup_after_def panic_def)
    moreover have "\<not> card (fst ` set ops) < n" using enough p by auto
    ultimately show ?thesis by simp
  next
    fix t' assume r: "map_insert_all ops ?t = return t'"
    have c: "content t' = map_of (rev ops)" using map_insert_all_content[OF r] by simp
    have l: "map_lookup_after n ops k =
        (case map_of (rev ops) k of None \<Rightarrow> Not_Found
         | Some v \<Rightarrow> (case first_free t' of None \<Rightarrow> Fatal ''No memory to allocate result!'' | Some r \<Rightarrow> Found v))"
      using r sl c by (simp add: map_lookup_after_def return_def map_lookup_def)
    have none: "map_of (rev ops) k = None \<longleftrightarrow> k \<notin> fst ` set ops" by (simp add: map_of_eq_None_iff)
    have free: "first_free t' \<noteq> None" if lt: "card (fst ` set ops) < n"
    proof -
      obtain t'' where t'': "map_insert_all ops ?t = return t''" "finite (live t'')" "capacity t'' = n"
        "card (live t'') \<le> card (fst ` set ops)"
        using enough lt by blast
      then have "t'' = t'" using r by simp
      then show ?thesis using first_free_Some[of t'] t'' lt by auto
    qed
    show ?thesis
      unfolding l using none free by (auto split: option.splits)
  qed
qed

lemma abstract_returnD: "abstract r = return t \<Longrightarrow> \<exists>s. r = return s \<and> abstraction s = t"
  by (auto simp: abstract_def return_def split: option.splits sum.splits error.splits)

lemma abstract_return_iff: "(\<exists>s. r = return s) \<longleftrightarrow> (\<exists>t. abstract r = return t)"
  by (auto simp: abstract_def return_def split: option.splits sum.splits error.splits)

lemma inserts_complete:
  assumes "\<forall>k\<in>fst ` set ops. 0 \<le> slot k" "card (fst ` set ops) \<le> n"
  shows "\<exists>s. insert_all_spin ops (init_spin n) = return s"
    "\<exists>s. insert_all_rw ops (init_rw n) = return s"
    "\<exists>s. insert_all_two_level ops (init_two_level n) = return s"
proof -
  obtain t where t: "map_insert_all ops \<lparr>capacity = n, live = {}, content = Map.empty\<rparr> = return t"
    using map_insert_all_enough[of "\<lparr>capacity = n, live = {}, content = Map.empty\<rparr>" ops] assms by auto
  show "\<exists>s. insert_all_spin ops (init_spin n) = return s"
    using insert_all_spin_refines[OF wf_init_spin, of ops n] t abstract_returnD
    by (fastforce simp: abstraction_init)
  show "\<exists>s. insert_all_rw ops (init_rw n) = return s"
    using insert_all_rw_refines[OF wf_init_rw, of ops n] t abstract_returnD
    by (fastforce simp: abstraction_init)
  show "\<exists>s. insert_all_two_level ops (init_two_level n) = return s"
    using insert_all_two_level_refines[OF wf_init_two_level, of ops n] t abstract_returnD
    by (fastforce simp: abstraction_init)
qed

lemma inserts_keys:
  "insert_all_spin ops (init_spin n) = return sa \<Longrightarrow> \<forall>k\<in>fst ` set ops. 0 \<le> slot k"
  "insert_all_rw ops (init_rw n) = return sb \<Longrightarrow> \<forall>k\<in>fst ` set ops. 0 \<le> slot k"
  "insert_all_two_level ops (init_two_level n) = return sc \<Longrightarrow> \<forall>k\<in>fst ` set ops. 0 \<le> slot k"
proof -
  show "\<forall>k\<in>fst ` set ops. 0 \<le> slot k" if "insert_all_spin ops (init_spin n) = return sa"
    using insert_all_spin_refines[OF wf_init_spin, of ops n] that map_insert_all_keys
    by (metis abstract_simps(1))
  show "\<forall>k\<in>fst ` set ops. 0 \<le> slot k" if "insert_all_rw ops (init_rw n) = return sb"
    using insert_all_rw_refines[OF wf_init_rw, of ops n] that map_insert_all_keys
    by (metis abstract_simps(1))
  show "\<forall>k\<in>fst ` set ops. 0 \<le> slot k" if "insert_all_two_level ops (init_two_level n) = return sc"
    using insert_all_two_level_refines[OF wf_init_two_level, of ops n] that map_insert_all_keys
    by (metis abstract_simps(1))
qed

lemma map_lookup_present:
  assumes "content t k = Some v" "0 \<le> slot k"
  shows "map_lookup k t = (case first_free t of None \<Rightarrow> Fatal ''No memory to allocate result!'' | Some r \<Rightarrow> Found v)"
  using assms by (simp add: map_lookup_def)

lemma map_lookup_stored_exact:
  assumes "stored s k = Some v"
  shows "map_lookup k (abstraction s) =
     (case malloc s of None \<Rightarrow> Fatal ''No memory to allocate result!'' | Some r \<Rightarrow> Found v)"
proof -
  have "0 \<le> slot k" using assms by (cases "0 \<le> slot k") (simp_all add: stored_def)
  then show ?thesis using assms by (simp add: map_lookup_def)
qed

section \<open>Insert as an upsert, variant by variant\<close>

lemma stored_Some_find:
  assumes "table_ok s" "stored s k = Some v"
  obtains as c e where "0 \<le> slot k" "chain (heap s) (table s ! nat (slot k)) as"
    "find (\<lambda>a. key_at (heap s) a = k) as = Some c" "heap s c = Some e" "key e = k" "val e = v"
proof -
  have sl: "0 \<le> slot k" using assms(2) by (cases "0 \<le> slot k") (simp_all add: stored_def)
  then obtain as where b: "bucket_ok (heap s) (table s) (nat (slot k)) as"
    using assms(1) wf_chain by blast
  then have ch: "chain (heap s) (table s ! nat (slot k)) as" by (simp add: bucket_ok_def)
  then obtain c where c: "find (\<lambda>a. key_at (heap s) a = k) as = Some c" "val_at (heap s) c = v"
    using assms(2) sl by (auto simp: stored_chain)
  then have "c \<in> set as" "key_at (heap s) c = k" by (auto simp: find_Some_iff)
  then obtain e where "heap s c = Some e" "key e = k" "val e = v"
    using ch chain_live c(2) by (fastforce simp: key_at_def val_at_def)
  then show ?thesis using that sl ch c(1) by blast
qed

lemma same_value_again:
  "heap s c = Some e \<Longrightarrow> val e = v \<Longrightarrow> (heap s)(c \<mapsto> (the (heap s c))\<lparr>val := v\<rparr>) = heap s"
  by (auto simp: fun_eq_iff)

lemma insert_spin_again:
  assumes "wf_spin s" "stored s k = Some v"
  shows "insert_spin k v s = return s"
proof -
  have "table_ok s" using assms(1) by (simp add: wf_spin_def)
  then obtain as c e where *: "0 \<le> slot k" "chain (heap s) (table s ! nat (slot k)) as"
    "find (\<lambda>a. key_at (heap s) a = k) as = Some c" "heap s c = Some e" "key e = k" "val e = v"
    using assms(2) by (rule stored_Some_find)
  show ?thesis
    using insert_spin_eq[OF assms(1) *(1,2), of v] *(3) same_value_again[OF *(4,6)] by simp
qed

lemma insert_rw_again:
  assumes "wf_rw s" "stored s k = Some v"
  shows "insert_rw k v s = return s"
proof -
  have "table_ok s" using assms(1) by (simp add: wf_rw_def)
  then obtain as c e where *: "0 \<le> slot k" "chain (heap s) (table s ! nat (slot k)) as"
    "find (\<lambda>a. key_at (heap s) a = k) as = Some c" "heap s c = Some e" "key e = k" "val e = v"
    using assms(2) by (rule stored_Some_find)
  show ?thesis
    using insert_rw_eq[OF assms(1) *(1,2), of v] *(3) same_value_again[OF *(4,6)] by simp
qed

lemma insert_two_level_again:
  assumes "wf_two_level s" "stored s k = Some v"
  shows "\<exists>c. insert_two_level k v s =
     return (s\<lparr>lock_log := lock_log s @ [Acquire_Bucket (slot k), Acquire_Entry c, Release_Entry c,
                                         Release_Bucket (slot k)]\<rparr>)"
proof -
  have "table_ok s" using assms(1) by (simp add: wf_two_level_def)
  then obtain as c e where *: "0 \<le> slot k" "chain (heap s) (table s ! nat (slot k)) as"
    "find (\<lambda>a. key_at (heap s) a = k) as = Some c" "heap s c = Some e" "key e = k" "val e = v"
    using assms(2) by (rule stored_Some_find)
  show ?thesis
    using insert_two_level_eq[OF assms(1) *(1,2), of v] *(3) same_value_again[OF *(4,6)]
    by (intro exI[of _ c]) simp
qed

lemma find_present:
  assumes "bucket_ok h t i as" "c \<in> set as" "h c = Some e" "key e = k"
  shows "find (\<lambda>a. key_at h a = k) as = Some c"
  using assms by (intro find_key_Some) (auto simp: bucket_ok_def key_at_def)

lemma wf_bucket:
  assumes "table_ok s" "0 \<le> slot k" "chain (heap s) (table s ! nat (slot k)) as"
  shows "bucket_ok (heap s) (table s) (nat (slot k)) as"
proof -
  obtain bs where b: "bucket_ok (heap s) (table s) (nat (slot k)) bs"
    using assms(1,2) wf_chain by blast
  then have "bs = as" using assms(3) chain_unique by (fastforce simp: bucket_ok_def)
  then show ?thesis using b by simp
qed

lemma upsert_spin:
  assumes "0 \<le> slot k" "wf_spin s" "chain (heap s) (table s ! nat (slot k)) as"
  shows "(\<forall>c e. c \<in> set as \<and> heap s c = Some e \<and> key e = k \<longrightarrow>
            insert_spin k v s = return (s\<lparr>heap := (heap s)(c \<mapsto> e\<lparr>val := v\<rparr>)\<rparr>))
       \<and> ((\<forall>c\<in>set as. key_at (heap s) c \<noteq> k) \<longrightarrow>
            (\<forall>a. malloc s = Some a \<longrightarrow>
               insert_spin k v s =
                 return (s\<lparr>heap := (heap s)(a \<mapsto> \<lparr>key = k, val = v, next = table s ! nat (slot k)\<rparr>),
                           table := (table s)[nat (slot k) := Some a]\<rparr>))
            \<and> (malloc s = None \<longrightarrow> insert_spin k v s = panic ''No memory to allocate bucket!'' s))
       \<and> (\<forall>s'. insert_spin k v s = return s' \<longrightarrow> wf_spin s' \<and> insert_spin k v s' = return s')"
proof -
  have ok: "table_ok s" using assms(2) by (simp add: wf_spin_def)
  note b = wf_bucket[OF ok assms(1,3)]
  note eq = insert_spin_eq[OF assms(2,1,3), of v]
  have 1: "insert_spin k v s = return (s\<lparr>heap := (heap s)(c \<mapsto> e\<lparr>val := v\<rparr>)\<rparr>)"
    if "c \<in> set as" "heap s c = Some e" "key e = k" for c e
    using eq find_present[OF b that] that(2) by simp
  have 2: "(\<forall>a. malloc s = Some a \<longrightarrow>
               insert_spin k v s =
                 return (s\<lparr>heap := (heap s)(a \<mapsto> \<lparr>key = k, val = v, next = table s ! nat (slot k)\<rparr>),
                           table := (table s)[nat (slot k) := Some a]\<rparr>))
            \<and> (malloc s = None \<longrightarrow> insert_spin k v s = panic ''No memory to allocate bucket!'' s)"
    if "\<forall>c\<in>set as. key_at (heap s) c \<noteq> k"
    using eq find_key_None[OF that] by simp
  have 3: "wf_spin s' \<and> insert_spin k v s' = return s'" if "insert_spin k v s = return s'" for s'
  proof -
    have "stored s k \<noteq> None \<or> malloc s \<noteq> None"
      using that insert_spin_exits[OF assms(2,1), of v] by (cases "stored s k"; cases "malloc s") auto
    from insert_spin_returns[OF assms(2,1) this, of v] that
    have "wf_spin s'" "stored s' k = Some v" by auto
    then show ?thesis using insert_spin_again by blast
  qed
  show ?thesis using 1 2 3 by blast
qed

lemma upsert_rw:
  assumes "0 \<le> slot k" "wf_rw s" "chain (heap s) (table s ! nat (slot k)) as"
  shows "(\<forall>c e. c \<in> set as \<and> heap s c = Some e \<and> key e = k \<longrightarrow>
            insert_rw k v s = return (s\<lparr>heap := (heap s)(c \<mapsto> e\<lparr>val := v\<rparr>)\<rparr>))
       \<and> ((\<forall>c\<in>set as. key_at (heap s) c \<noteq> k) \<longrightarrow>
            (\<forall>a. malloc s = Some a \<longrightarrow>
               insert_rw k v s =
                 return (s\<lparr>heap := (heap s)(a \<mapsto> \<lparr>key = k, val = v, next = table s ! nat (slot k)\<rparr>),
                           table := (table s)[nat (slot k) := Some a]\<rparr>))
            \<and> (malloc s = None \<longrightarrow> insert_rw k v s = panic ''No memory to allocate bucket!'' s))
       \<and> (\<forall>s'. insert_rw k v s = return s' \<longrightarrow> wf_rw s' \<and> insert_rw k v s' = return s')"
proof -
  have ok: "table_ok s" using assms(2) by (simp add: wf_rw_def)
  note b = wf_bucket[OF ok assms(1,3)]
  note eq = insert_rw_eq[OF assms(2,1,3), of v]
  have 1: "insert_rw k v s = return (s\<lparr>heap := (heap s)(c \<mapsto> e\<lparr>val := v\<rparr>)\<rparr>)"
    if "c \<in> set as" "heap s c = Some e" "key e = k" for c e
    using eq find_present[OF b that] that(2) by simp
  have 2: "(\<forall>a. malloc s = Some a \<longrightarrow>
               insert_rw k v s =
                 return (s\<lparr>heap := (heap s)(a \<mapsto> \<lparr>key = k, val = v, next = table s ! nat (slot k)\<rparr>),
                           table := (table s)[nat (slot k) := Some a]\<rparr>))
            \<and> (malloc s = None \<longrightarrow> insert_rw k v s = panic ''No memory to allocate bucket!'' s)"
    if "\<forall>c\<in>set as. key_at (heap s) c \<noteq> k"
    using eq find_key_None[OF that] by simp
  have 3: "wf_rw s' \<and> insert_rw k v s' = return s'" if "insert_rw k v s = return s'" for s'
  proof -
    have "stored s k \<noteq> None \<or> malloc s \<noteq> None"
      using that insert_rw_exits[OF assms(2,1), of v] by (cases "stored s k"; cases "malloc s") auto
    from insert_rw_returns[OF assms(2,1) this, of v] that
    have "wf_rw s'" "stored s' k = Some v" by auto
    then show ?thesis using insert_rw_again by blast
  qed
  show ?thesis using 1 2 3 by blast
qed

lemma upsert_two_level:
  assumes "0 \<le> slot k" "wf_two_level s" "chain (heap s) (table s ! nat (slot k)) as"
  shows "(\<forall>c e. c \<in> set as \<and> heap s c = Some e \<and> key e = k \<longrightarrow>
            insert_two_level k v s =
              return (s\<lparr>heap := (heap s)(c \<mapsto> e\<lparr>val := v\<rparr>),
                        lock_log := lock_log s @ [Acquire_Bucket (slot k), Acquire_Entry c, Release_Entry c,
                                                  Release_Bucket (slot k)]\<rparr>))
       \<and> ((\<forall>c\<in>set as. key_at (heap s) c \<noteq> k) \<longrightarrow>
            (\<forall>a. malloc s = Some a \<longrightarrow>
               insert_two_level k v s =
                 return (s\<lparr>heap := (heap s)(a \<mapsto> \<lparr>key = k, val = v, next = table s ! nat (slot k),
                                                    entry_mutex = Mutex_Unlocked\<rparr>),
                           table := (table s)[nat (slot k) := Some a],
                           lock_log := lock_log s @ [Acquire_Bucket (slot k), Release_Bucket (slot k),
                                                     Acquire_Bucket (slot k), Release_Bucket (slot k)]\<rparr>))
            \<and> (malloc s = None \<longrightarrow>
                 insert_two_level k v s =
                   panic ''No memory to allocate bucket!''
                     (s\<lparr>lock_log := lock_log s @ [Acquire_Bucket (slot k), Release_Bucket (slot k),
                                                 Acquire_Bucket (slot k), Release_Bucket (slot k)]\<rparr>)))
       \<and> (\<forall>s'. insert_two_level k v s = return s' \<longrightarrow> wf_two_level s' \<and>
             (\<exists>s''. insert_two_level k v s' = return s'' \<and> heap s'' = heap s' \<and> table s'' = table s'
                \<and> bucket_locks s'' = bucket_locks s' \<and> mem_cells s'' = mem_cells s'))"
proof -
  have ok: "table_ok s" using assms(2) by (simp add: wf_two_level_def)
  note b = wf_bucket[OF ok assms(1,3)]
  note eq = insert_two_level_eq[OF assms(2,1,3), of v]
  have 1: "insert_two_level k v s =
              return (s\<lparr>heap := (heap s)(c \<mapsto> e\<lparr>val := v\<rparr>),
                        lock_log := lock_log s @ [Acquire_Bucket (slot k), Acquire_Entry c, Release_Entry c,
                                                  Release_Bucket (slot k)]\<rparr>)"
    if "c \<in> set as" "heap s c = Some e" "key e = k" for c e
    using eq find_present[OF b that] that(2) by simp
  have 2: "(\<forall>a. malloc s = Some a \<longrightarrow>
               insert_two_level k v s =
                 return (s\<lparr>heap := (heap s)(a \<mapsto> \<lparr>key = k, val = v, next = table s ! nat (slot k),
                                                    entry_mutex = Mutex_Unlocked\<rparr>),
                           table := (table s)[nat (slot k) := Some a],
                           lock_log := lock_log s @ [Acquire_Bucket (slot k), Release_Bucket (slot k),
                                                     Acquire_Bucket (slot k), Release_Bucket (slot k)]\<rparr>))
            \<and> (malloc s = None \<longrightarrow>
                 insert_two_level k v s =
                   panic ''No memory to allocate bucket!''
                     (s\<lparr>lock_log := lock_log s @ [Acquire_Bucket (slot k), Release_Bucket (slot k),
                                                 Acquire_Bucket (slot k), Release_Bucket (slot k)]\<rparr>))"
    if "\<forall>c\<in>set as. key_at (heap s) c \<noteq> k"
    using eq find_key_None[OF that] by simp
  have 3: "wf_two_level s' \<and>
             (\<exists>s''. insert_two_level k v s' = return s'' \<and> heap s'' = heap s' \<and> table s'' = table s'
                \<and> bucket_locks s'' = bucket_locks s' \<and> mem_cells s'' = mem_cells s')"
    if "insert_two_level k v s = return s'" for s'
  proof -
    have "stored s k \<noteq> None \<or> malloc s \<noteq> None"
      using that insert_two_level_exits[OF assms(2,1), of v] by (cases "stored s k"; cases "malloc s") auto
    from insert_two_level_returns[OF assms(2,1) this, of v] that
    have "wf_two_level s'" "stored s' k = Some v" by auto
    then show ?thesis using insert_two_level_again[of s' k v] by auto
  qed
  show ?thesis using 1 2 3 by blast
qed

section \<open>Lookup, variant by variant\<close>

lemma off_chain_update:
  assumes ok: "table_ok s" and fresh: "heap s r = None"
    and h: "heap s' = (heap s)(r := y)" and t: "table s' = table s"
  shows "table_ok s' \<and> stored s' = stored s"
proof -
  have b: "bucket_ok (heap s') (table s') i as" if "bucket_ok (heap s) (table s) i as" for i as
  proof -
    have "r \<notin> set as" using that fresh chain_live by (fastforce simp: bucket_ok_def)
    then have m: "map (key_at (heap s')) as = map (key_at (heap s)) as"
      and k: "\<forall>b\<in>set as. key_at (heap s') b = key_at (heap s) b"
      and c: "chain (heap s') (table s' ! i) as = chain (heap s) (table s ! i) as"
      using h t by (auto simp: key_at_def chain_upd_other)
    show ?thesis unfolding bucket_ok_def m c using that k by (simp add: bucket_ok_def)
  qed
  then have ok': "table_ok s'" using ok t unfolding table_ok_def by metis
  have "stored s' k = stored s k" for k
  proof (cases "0 \<le> slot k")
    case True
    then obtain as where as: "bucket_ok (heap s) (table s) (nat (slot k)) as"
      using ok wf_chain by blast
    then have ch: "chain (heap s) (table s ! nat (slot k)) as" by (simp add: bucket_ok_def)
    have ch': "chain (heap s') (table s' ! nat (slot k)) as" using b[OF as] by (simp add: bucket_ok_def)
    have nr: "r \<notin> set as" using ch fresh chain_live by fastforce
    then have same: "\<forall>b\<in>set as. key_at (heap s') b = key_at (heap s) b \<and> val_at (heap s') b = val_at (heap s) b"
      using h by (auto simp: key_at_def val_at_def)
    then have f: "find (\<lambda>b. key_at (heap s') b = k) as = find (\<lambda>b. key_at (heap s) b = k) as"
      by (intro find_cong) auto
    have "map_option (val_at (heap s')) (find (\<lambda>b. key_at (heap s) b = k) as)
        = map_option (val_at (heap s)) (find (\<lambda>b. key_at (heap s) b = k) as)"
    proof (cases "find (\<lambda>b. key_at (heap s) b = k) as")
      case (Some b)
      then have "b \<in> set as" by (auto simp: find_Some_iff)
      then show ?thesis using Some same by simp
    qed simp
    then show ?thesis using True ch ch' f by (simp add: stored_chain)
  qed (simp add: stored_def)
  then show ?thesis using ok' by auto
qed

lemma stored_present:
  assumes "table_ok s" "0 \<le> slot k" "chain (heap s) (table s ! nat (slot k)) as"
    "c \<in> set as" "heap s c = Some e" "key e = k"
  shows "stored s k = Some (val e)"
proof -
  note b = wf_bucket[OF assms(1,2,3)]
  show ?thesis
    using stored_chain[OF assms(2,3)] find_present[OF b assms(4,5,6)] assms(5) by (simp add: val_at_def)
qed

lemma lookup_spin:
  assumes "0 \<le> slot k" "wf_spin s" "chain (heap s) (table s ! nat (slot k)) as"
  shows "((\<forall>c\<in>set as. key_at (heap s) c \<noteq> k) \<longrightarrow> retrieve_spin k s = return (None, s))
       \<and> (\<forall>c e. c \<in> set as \<and> heap s c = Some e \<and> key e = k \<longrightarrow>
            (\<forall>s'. retrieve_spin k s \<noteq> return (None, s'))
          \<and> (malloc s = None \<longrightarrow> retrieve_spin k s = panic ''No memory to allocate result!'' s)
          \<and> (\<forall>r. malloc s = Some r \<longrightarrow>
                heap s r = None \<and>
                retrieve_spin k s =
                  return (Some r, s\<lparr>heap := (heap s)(r \<mapsto> \<lparr>key = k, val = val e, next = None\<rparr>)\<rparr>))
          \<and> (\<forall>r s1. retrieve_spin k s = return (Some r, s1) \<longrightarrow>
                (\<forall>x. stored (s1\<lparr>heap := (heap s1)(r \<mapsto> x)\<rparr>) k = Some (val e)
                   \<and> (observe (retrieve_spin k (s1\<lparr>heap := (heap s1)(r \<mapsto> x)\<rparr>)) = Found (val e)
                      \<or> observe (retrieve_spin k (s1\<lparr>heap := (heap s1)(r \<mapsto> x)\<rparr>))
                          = Fatal ''No memory to allocate result!''))
              \<and> free r s1 = return s))"
proof -
  have ok: "table_ok s" using assms(2) by (simp add: wf_spin_def)
  note eq = retrieve_spin_eq[OF assms(2,1,3)]
  have 1: "retrieve_spin k s = return (None, s)" if "\<forall>c\<in>set as. key_at (heap s) c \<noteq> k"
    using eq find_key_None[OF that] by simp
  have 2: "(\<forall>s'. retrieve_spin k s \<noteq> return (None, s'))
          \<and> (malloc s = None \<longrightarrow> retrieve_spin k s = panic ''No memory to allocate result!'' s)
          \<and> (\<forall>r. malloc s = Some r \<longrightarrow>
                heap s r = None \<and>
                retrieve_spin k s =
                  return (Some r, s\<lparr>heap := (heap s)(r \<mapsto> \<lparr>key = k, val = val e, next = None\<rparr>)\<rparr>))
          \<and> (\<forall>r s1. retrieve_spin k s = return (Some r, s1) \<longrightarrow>
                (\<forall>x. stored (s1\<lparr>heap := (heap s1)(r \<mapsto> x)\<rparr>) k = Some (val e)
                   \<and> (observe (retrieve_spin k (s1\<lparr>heap := (heap s1)(r \<mapsto> x)\<rparr>)) = Found (val e)
                      \<or> observe (retrieve_spin k (s1\<lparr>heap := (heap s1)(r \<mapsto> x)\<rparr>))
                          = Fatal ''No memory to allocate result!''))
              \<and> free r s1 = return s)"
    if c: "c \<in> set as" "heap s c = Some e" "key e = k" for c e
  proof -
    note f = find_present[OF wf_bucket[OF ok assms(1,3)] c]
    have kv: "key_at (heap s) c = k" "val_at (heap s) c = val e" using c by (simp_all add: key_at_def val_at_def)
    have st: "stored s k = Some (val e)" using ok assms(1,3) c by (rule stored_present)
    have a: "\<forall>s'. retrieve_spin k s \<noteq> return (None, s')"
      using eq f by (cases "malloc s") simp_all
    have b: "malloc s = None \<longrightarrow> retrieve_spin k s = panic ''No memory to allocate result!'' s"
      using eq f by simp
    have d: "heap s r = None \<and> retrieve_spin k s =
                  return (Some r, s\<lparr>heap := (heap s)(r \<mapsto> \<lparr>key = k, val = val e, next = None\<rparr>)\<rparr>)"
      if "malloc s = Some r" for r
      using eq f kv that malloc_fresh[OF that] by simp
    have e: "(\<forall>x. stored (s1\<lparr>heap := (heap s1)(r \<mapsto> x)\<rparr>) k = Some (val e)
                   \<and> (observe (retrieve_spin k (s1\<lparr>heap := (heap s1)(r \<mapsto> x)\<rparr>)) = Found (val e)
                      \<or> observe (retrieve_spin k (s1\<lparr>heap := (heap s1)(r \<mapsto> x)\<rparr>))
                          = Fatal ''No memory to allocate result!''))
              \<and> free r s1 = return s"
      if r: "retrieve_spin k s = return (Some r, s1)" for r s1
    proof -
      have m: "malloc s = Some r" and s1: "s1 = s\<lparr>heap := (heap s)(r \<mapsto> \<lparr>key = k, val = val e, next = None\<rparr>)\<rparr>"
        using eq f kv r by (cases "malloc s"; simp)+
      have fresh: "heap s r = None" using m by (rule malloc_fresh)
      have fr: "free r s1 = return s" using s1 fresh by (simp add: free_def fun_upd_idem)
      have mut: "stored s2 k = Some (val e)
                   \<and> (observe (retrieve_spin k s2) = Found (val e)
                      \<or> observe (retrieve_spin k s2) = Fatal ''No memory to allocate result!'')"
        if s2: "s2 = s1\<lparr>heap := (heap s1)(r \<mapsto> x)\<rparr>" for x s2
      proof -
        have h2: "heap s2 = (heap s)(r := Some x)" "table s2 = table s" using s1 s2 by simp_all
        note o = off_chain_update[OF ok fresh h2]
        then have wf2: "wf_spin s2" using assms(2) s1 s2 by (simp add: wf_spin_def)
        have "stored s2 k = Some (val e)" using o st by simp
        then show ?thesis
          using retrieve_spin_refines[OF wf2, of k] assms(1)
          by (auto simp: map_lookup_def split: option.splits)
      qed
      show ?thesis using mut fr by blast
    qed
    show ?thesis using a b d e by blast
  qed
  show ?thesis using 1 2 by blast
qed

lemma lookup_rw:
  assumes "0 \<le> slot k" "wf_rw s" "chain (heap s) (table s ! nat (slot k)) as"
  shows "((\<forall>c\<in>set as. key_at (heap s) c \<noteq> k) \<longrightarrow> retrieve_rw k s = return (None, s))
       \<and> (\<forall>c e. c \<in> set as \<and> heap s c = Some e \<and> key e = k \<longrightarrow>
            (\<forall>s'. retrieve_rw k s \<noteq> return (None, s'))
          \<and> (malloc s = None \<longrightarrow> retrieve_rw k s = panic ''No memory to allocate result!'' s)
          \<and> (\<forall>r. malloc s = Some r \<longrightarrow>
                heap s r = None \<and>
                retrieve_rw k s =
                  return (Some r, s\<lparr>heap := (heap s)(r \<mapsto> \<lparr>key = k, val = val e, next = None\<rparr>)\<rparr>))
          \<and> (\<forall>r s1. retrieve_rw k s = return (Some r, s1) \<longrightarrow>
                (\<forall>x. stored (s1\<lparr>heap := (heap s1)(r \<mapsto> x)\<rparr>) k = Some (val e)
                   \<and> (observe (retrieve_rw k (s1\<lparr>heap := (heap s1)(r \<mapsto> x)\<rparr>)) = Found (val e)
                      \<or> observe (retrieve_rw k (s1\<lparr>heap := (heap s1)(r \<mapsto> x)\<rparr>))
                          = Fatal ''No memory to allocate result!''))
              \<and> free r s1 = return s))"
proof -
  have ok: "table_ok s" using assms(2) by (simp add: wf_rw_def)
  note eq = retrieve_rw_eq[OF assms(2,1,3)]
  have 1: "retrieve_rw k s = return (None, s)" if "\<forall>c\<in>set as. key_at (heap s) c \<noteq> k"
    using eq find_key_None[OF that] by simp
  have 2: "(\<forall>s'. retrieve_rw k s \<noteq> return (None, s'))
          \<and> (malloc s = None \<longrightarrow> retrieve_rw k s = panic ''No memory to allocate result!'' s)
          \<and> (\<forall>r. malloc s = Some r \<longrightarrow>
                heap s r = None \<and>
                retrieve_rw k s =
                  return (Some r, s\<lparr>heap := (heap s)(r \<mapsto> \<lparr>key = k, val = val e, next = None\<rparr>)\<rparr>))
          \<and> (\<forall>r s1. retrieve_rw k s = return (Some r, s1) \<longrightarrow>
                (\<forall>x. stored (s1\<lparr>heap := (heap s1)(r \<mapsto> x)\<rparr>) k = Some (val e)
                   \<and> (observe (retrieve_rw k (s1\<lparr>heap := (heap s1)(r \<mapsto> x)\<rparr>)) = Found (val e)
                      \<or> observe (retrieve_rw k (s1\<lparr>heap := (heap s1)(r \<mapsto> x)\<rparr>))
                          = Fatal ''No memory to allocate result!''))
              \<and> free r s1 = return s)"
    if c: "c \<in> set as" "heap s c = Some e" "key e = k" for c e
  proof -
    note f = find_present[OF wf_bucket[OF ok assms(1,3)] c]
    have kv: "key_at (heap s) c = k" "val_at (heap s) c = val e" using c by (simp_all add: key_at_def val_at_def)
    have st: "stored s k = Some (val e)" using ok assms(1,3) c by (rule stored_present)
    have a: "\<forall>s'. retrieve_rw k s \<noteq> return (None, s')"
      using eq f by (cases "malloc s") simp_all
    have b: "malloc s = None \<longrightarrow> retrieve_rw k s = panic ''No memory to allocate result!'' s"
      using eq f by simp
    have d: "heap s r = None \<and> retrieve_rw k s =
                  return (Some r, s\<lparr>heap := (heap s)(r \<mapsto> \<lparr>key = k, val = val e, next = None\<rparr>)\<rparr>)"
      if "malloc s = Some r" for r
      using eq f kv that malloc_fresh[OF that] by simp
    have e: "(\<forall>x. stored (s1\<lparr>heap := (heap s1)(r \<mapsto> x)\<rparr>) k = Some (val e)
                   \<and> (observe (retrieve_rw k (s1\<lparr>heap := (heap s1)(r \<mapsto> x)\<rparr>)) = Found (val e)
                      \<or> observe (retrieve_rw k (s1\<lparr>heap := (heap s1)(r \<mapsto> x)\<rparr>))
                          = Fatal ''No memory to allocate result!''))
              \<and> free r s1 = return s"
      if r: "retrieve_rw k s = return (Some r, s1)" for r s1
    proof -
      have m: "malloc s = Some r" and s1: "s1 = s\<lparr>heap := (heap s)(r \<mapsto> \<lparr>key = k, val = val e, next = None\<rparr>)\<rparr>"
        using eq f kv r by (cases "malloc s"; simp)+
      have fresh: "heap s r = None" using m by (rule malloc_fresh)
      have fr: "free r s1 = return s" using s1 fresh by (simp add: free_def fun_upd_idem)
      have mut: "stored s2 k = Some (val e)
                   \<and> (observe (retrieve_rw k s2) = Found (val e)
                      \<or> observe (retrieve_rw k s2) = Fatal ''No memory to allocate result!'')"
        if s2: "s2 = s1\<lparr>heap := (heap s1)(r \<mapsto> x)\<rparr>" for x s2
      proof -
        have h2: "heap s2 = (heap s)(r := Some x)" "table s2 = table s" using s1 s2 by simp_all
        note o = off_chain_update[OF ok fresh h2]
        then have wf2: "wf_rw s2" using assms(2) s1 s2 by (simp add: wf_rw_def)
        have "stored s2 k = Some (val e)" using o st by simp
        then show ?thesis
          using retrieve_rw_refines[OF wf2, of k] assms(1)
          by (auto simp: map_lookup_def split: option.splits)
      qed
      show ?thesis using mut fr by blast
    qed
    show ?thesis using a b d e by blast
  qed
  show ?thesis using 1 2 by blast
qed


lemma entries_unlocked_off_chain:
  assumes un: "entries_unlocked s" and ok: "table_ok s" and fresh: "heap s r = None"
    and h: "heap s' = (heap s)(r := y)" and t: "table s' = table s"
  shows "entries_unlocked s'"
proof (rule entries_unlockedI)
  fix i :: nat assume i: "i < 5"
  then obtain as where "bucket_ok (heap s) (table s) i as" using ok by (auto simp: table_ok_def)
  then have ch: "chain (heap s) (table s ! i) as" by (simp add: bucket_ok_def)
  have nr: "r \<notin> set as" using ch fresh chain_live by fastforce
  then have "chain (heap s') (table s' ! i) as" using ch h t by (simp add: chain_upd_other)
  moreover have "\<forall>a\<in>set as. \<forall>e. heap s' a = Some e \<longrightarrow> entry_mutex e = Mutex_Unlocked"
    using un i ch nr h by (auto simp: entries_unlocked_def)
  ultimately show "\<exists>as. chain (heap s') (table s' ! i) as \<and>
      (\<forall>a\<in>set as. \<forall>e. heap s' a = Some e \<longrightarrow> entry_mutex e = Mutex_Unlocked)" by blast
qed

lemma lookup_two_level:
  assumes "0 \<le> slot k" "wf_two_level s" "chain (heap s) (table s ! nat (slot k)) as"
  shows "((\<forall>c\<in>set as. key_at (heap s) c \<noteq> k) \<longrightarrow>
            retrieve_two_level k s =
              return (None, s\<lparr>lock_log := lock_log s @ [Acquire_Bucket (slot k), Release_Bucket (slot k)]\<rparr>))
       \<and> (\<forall>c e. c \<in> set as \<and> heap s c = Some e \<and> key e = k \<longrightarrow>
            (\<forall>s'. retrieve_two_level k s \<noteq> return (None, s'))
          \<and> (malloc s = None \<longrightarrow>
                retrieve_two_level k s =
                  panic ''No memory to allocate result!''
                    (s\<lparr>lock_log := lock_log s @ [Acquire_Bucket (slot k), Acquire_Entry c, Release_Entry c,
                                                Release_Bucket (slot k)]\<rparr>))
          \<and> (\<forall>r. malloc s = Some r \<longrightarrow>
                heap s r = None \<and>
                retrieve_two_level k s =
                  return (Some r,
                    s\<lparr>heap := (heap s)(r \<mapsto> \<lparr>key = k, val = val e, next = None, entry_mutex = Mutex_Unlocked\<rparr>),
                      lock_log := lock_log s @ [Acquire_Bucket (slot k), Acquire_Entry c, Release_Entry c,
                                                Release_Bucket (slot k)]\<rparr>))
          \<and> (\<forall>r s1. retrieve_two_level k s = return (Some r, s1) \<longrightarrow>
                (\<forall>x. stored (s1\<lparr>heap := (heap s1)(r \<mapsto> x)\<rparr>) k = Some (val e)
                   \<and> (observe (retrieve_two_level k (s1\<lparr>heap := (heap s1)(r \<mapsto> x)\<rparr>)) = Found (val e)
                      \<or> observe (retrieve_two_level k (s1\<lparr>heap := (heap s1)(r \<mapsto> x)\<rparr>))
                          = Fatal ''No memory to allocate result!''))
              \<and> free r s1 = return (s\<lparr>lock_log := lock_log s1\<rparr>)))"
proof -
  have ok: "table_ok s" and un: "entries_unlocked s" using assms(2) by (simp_all add: wf_two_level_def)
  note eq = retrieve_two_level_eq[OF assms(2,1,3)]
  have 1: "retrieve_two_level k s =
              return (None, s\<lparr>lock_log := lock_log s @ [Acquire_Bucket (slot k), Release_Bucket (slot k)]\<rparr>)"
    if "\<forall>c\<in>set as. key_at (heap s) c \<noteq> k"
    using eq find_key_None[OF that] by simp
  have 2: "(\<forall>s'. retrieve_two_level k s \<noteq> return (None, s'))
          \<and> (malloc s = None \<longrightarrow>
                retrieve_two_level k s =
                  panic ''No memory to allocate result!''
                    (s\<lparr>lock_log := lock_log s @ [Acquire_Bucket (slot k), Acquire_Entry c, Release_Entry c,
                                                Release_Bucket (slot k)]\<rparr>))
          \<and> (\<forall>r. malloc s = Some r \<longrightarrow>
                heap s r = None \<and>
                retrieve_two_level k s =
                  return (Some r,
                    s\<lparr>heap := (heap s)(r \<mapsto> \<lparr>key = k, val = val e, next = None, entry_mutex = Mutex_Unlocked\<rparr>),
                      lock_log := lock_log s @ [Acquire_Bucket (slot k), Acquire_Entry c, Release_Entry c,
                                                Release_Bucket (slot k)]\<rparr>))
          \<and> (\<forall>r s1. retrieve_two_level k s = return (Some r, s1) \<longrightarrow>
                (\<forall>x. stored (s1\<lparr>heap := (heap s1)(r \<mapsto> x)\<rparr>) k = Some (val e)
                   \<and> (observe (retrieve_two_level k (s1\<lparr>heap := (heap s1)(r \<mapsto> x)\<rparr>)) = Found (val e)
                      \<or> observe (retrieve_two_level k (s1\<lparr>heap := (heap s1)(r \<mapsto> x)\<rparr>))
                          = Fatal ''No memory to allocate result!''))
              \<and> free r s1 = return (s\<lparr>lock_log := lock_log s1\<rparr>))"
    if c: "c \<in> set as" "heap s c = Some e" "key e = k" for c e
  proof -
    note f = find_present[OF wf_bucket[OF ok assms(1,3)] c]
    have kv: "key_at (heap s) c = k" "val_at (heap s) c = val e" using c by (simp_all add: key_at_def val_at_def)
    have st: "stored s k = Some (val e)" using ok assms(1,3) c by (rule stored_present)
    have a: "\<forall>s'. retrieve_two_level k s \<noteq> return (None, s')"
      using eq f by (cases "malloc s") simp_all
    have b: "malloc s = None \<longrightarrow>
                retrieve_two_level k s =
                  panic ''No memory to allocate result!''
                    (s\<lparr>lock_log := lock_log s @ [Acquire_Bucket (slot k), Acquire_Entry c, Release_Entry c,
                                                Release_Bucket (slot k)]\<rparr>)"
      using eq f by simp
    have d: "heap s r = None \<and> retrieve_two_level k s =
                  return (Some r,
                    s\<lparr>heap := (heap s)(r \<mapsto> \<lparr>key = k, val = val e, next = None, entry_mutex = Mutex_Unlocked\<rparr>),
                      lock_log := lock_log s @ [Acquire_Bucket (slot k), Acquire_Entry c, Release_Entry c,
                                                Release_Bucket (slot k)]\<rparr>)"
      if "malloc s = Some r" for r
      using eq f kv that malloc_fresh[OF that] by simp
    have e: "(\<forall>x. stored (s1\<lparr>heap := (heap s1)(r \<mapsto> x)\<rparr>) k = Some (val e)
                   \<and> (observe (retrieve_two_level k (s1\<lparr>heap := (heap s1)(r \<mapsto> x)\<rparr>)) = Found (val e)
                      \<or> observe (retrieve_two_level k (s1\<lparr>heap := (heap s1)(r \<mapsto> x)\<rparr>))
                          = Fatal ''No memory to allocate result!''))
              \<and> free r s1 = return (s\<lparr>lock_log := lock_log s1\<rparr>)"
      if r: "retrieve_two_level k s = return (Some r, s1)" for r s1
    proof -
      have m: "malloc s = Some r"
        and s1: "s1 = s\<lparr>heap := (heap s)(r \<mapsto> \<lparr>key = k, val = val e, next = None, entry_mutex = Mutex_Unlocked\<rparr>),
                      lock_log := lock_log s @ [Acquire_Bucket (slot k), Acquire_Entry c, Release_Entry c,
                                                Release_Bucket (slot k)]\<rparr>"
        using eq f kv r by (cases "malloc s"; simp)+
      have fresh: "heap s r = None" using m by (rule malloc_fresh)
      have fr: "free r s1 = return (s\<lparr>lock_log := lock_log s1\<rparr>)"
        using s1 fresh by (simp add: free_def fun_upd_idem)
      have mut: "stored s2 k = Some (val e)
                   \<and> (observe (retrieve_two_level k s2) = Found (val e)
                      \<or> observe (retrieve_two_level k s2) = Fatal ''No memory to allocate result!'')"
        if s2: "s2 = s1\<lparr>heap := (heap s1)(r \<mapsto> x)\<rparr>" for x s2
      proof -
        have h2: "heap s2 = (heap s)(r := Some x)" "table s2 = table s" using s1 s2 by simp_all
        note o = off_chain_update[OF ok fresh h2]
        note u = entries_unlocked_off_chain[OF un ok fresh h2]
        have wf2: "wf_two_level s2" using o u assms(2) s1 s2 by (simp add: wf_two_level_def)
        have "stored s2 k = Some (val e)" using o st by simp
        then show ?thesis
          using retrieve_two_level_refines[OF wf2, of k] assms(1)
          by (auto simp: map_lookup_def split: option.splits)
      qed
      show ?thesis using mut fr by blast
    qed
    show ?thesis using a b d e by blast
  qed
  show ?thesis using 1 2 by blast
qed

section \<open>What insert and lookup leave unchanged\<close>

lemma frame_same: "heap s' = heap s \<Longrightarrow> table s' = table s \<Longrightarrow> bucket_unchanged s s' j"
  by (simp add: bucket_unchanged_def)

lemma frame_fresh:
  assumes "heap s r = None" "heap s' = (heap s)(r := y)" "table s' = table s"
  shows "bucket_unchanged s s' j"
  unfolding bucket_unchanged_def
proof (intro conjI allI impI)
  fix as assume ch: "chain (heap s) (table s ! j) as"
  then have "r \<notin> set as" using assms(1) chain_live by fastforce
  then show "chain (heap s') (table s' ! j) as" "\<forall>a\<in>set as. heap s' a = heap s a"
    using ch assms(2,3) by (auto simp: chain_upd_other)
qed (simp add: assms)

lemma other_bucket:
  assumes "table_ok s" "j < 5" "chain (heap s) (table s ! j) bs" "int j \<noteq> slot k"
    "heap s c = Some e" "key e = k"
  shows "c \<notin> set bs"
proof
  assume c: "c \<in> set bs"
  obtain as where as: "bucket_ok (heap s) (table s) j as" using assms(1,2) by (auto simp: table_ok_def)
  then have "as = bs" using assms(3) chain_unique by (fastforce simp: bucket_ok_def)
  then have "slot (key_at (heap s) c) = int j" using as c by (auto simp: bucket_ok_def)
  then show False using assms(4,5,6) by (simp add: key_at_def)
qed

lemma frame_store:
  assumes ok: "table_ok s" and c: "heap s c = Some e" "key e = k"
    and h: "heap s' = (heap s)(c \<mapsto> e\<lparr>val := v\<rparr>)" and t: "table s' = table s"
  shows "(\<forall>j<5. int j \<noteq> slot k \<longrightarrow> bucket_unchanged s s' j)
       \<and> (\<forall>j<5. \<forall>bs. chain (heap s) (table s ! j) bs \<longrightarrow> chain (heap s') (table s' ! j) bs)"
proof -
  have 1: "bucket_unchanged s s' j" if j: "j < 5" "int j \<noteq> slot k" for j
    unfolding bucket_unchanged_def
  proof (intro conjI allI impI)
    fix bs assume ch: "chain (heap s) (table s ! j) bs"
    have "c \<notin> set bs" using ok j(1) ch j(2) c by (rule other_bucket)
    then show "chain (heap s') (table s' ! j) bs" "\<forall>a\<in>set bs. heap s' a = heap s a"
      using ch h t by (auto simp: chain_upd_other)
  qed (simp add: t)
  have 2: "chain (heap s') (table s' ! j) bs" if "chain (heap s) (table s ! j) bs" for j bs
    using that c h t by (simp add: chain_same_next)
  show ?thesis using 1 2 by blast
qed

lemma frame_link:
  assumes ok: "table_ok s" and fresh: "heap s a = None" and sl: "0 \<le> slot k"
    and h: "heap s' = (heap s)(a \<mapsto> x)" and t: "table s' = (table s)[nat (slot k) := Some a]"
  shows "\<forall>j<5. int j \<noteq> slot k \<longrightarrow> bucket_unchanged s s' j"
proof (intro allI impI)
  fix j :: nat assume j: "j < 5" "int j \<noteq> slot k"
  then have "nat (slot k) \<noteq> j" using sl by auto
  then have tj: "table s' ! j = table s ! j" using t by simp
  show "bucket_unchanged s s' j"
    unfolding bucket_unchanged_def
  proof (intro conjI allI impI)
    fix bs assume ch: "chain (heap s) (table s ! j) bs"
    then have "a \<notin> set bs" using fresh chain_live by fastforce
    then show "chain (heap s') (table s' ! j) bs" "\<forall>b\<in>set bs. heap s' b = heap s b"
      using ch h tj by (auto simp: chain_upd_other)
  qed (rule tj)
qed

lemma frame_spin:
  assumes "wf_spin s"
  shows "(\<forall>s'. insert_spin k v s = return s' \<or> (\<exists>st msg. insert_spin k v s = Some (Inl (Exited st msg s'))) \<longrightarrow>
            (\<forall>j<5. int j \<noteq> slot k \<longrightarrow> bucket_unchanged s s' j)
          \<and> bucket_spinlocks s' = bucket_spinlocks s
          \<and> (stored s k \<noteq> None \<longrightarrow>
                table s' = table s
              \<and> (\<exists>c e. heap s c = Some e \<and> key e = k \<and> heap s' = (heap s)(c \<mapsto> e\<lparr>val := v\<rparr>))
              \<and> (\<forall>j<5. \<forall>bs. chain (heap s) (table s ! j) bs \<longrightarrow> chain (heap s') (table s' ! j) bs)))
       \<and> (\<forall>r s'. retrieve_spin k s = return (r, s') \<or> (\<exists>st msg. retrieve_spin k s = Some (Inl (Exited st msg s'))) \<longrightarrow>
            (\<forall>j<5. bucket_unchanged s s' j) \<and> table s' = table s \<and> bucket_spinlocks s' = bucket_spinlocks s)
       \<and> (0 \<le> slot k \<longrightarrow> (\<exists>s'. insert_spin k v s = return s' \<or> (\<exists>st msg. insert_spin k v s = Some (Inl (Exited st msg s')))))"
proof (cases "0 \<le> slot k")
  case False
  then show ?thesis by (simp add: insert_spin_bad_slot retrieve_spin_bad_slot return_def)
next
  case True
  have ok: "table_ok s" using assms by (simp add: wf_spin_def)
  then obtain as where "bucket_ok (heap s) (table s) (nat (slot k)) as"
    using True wf_chain by blast
  then have ch: "chain (heap s) (table s ! nat (slot k)) as" by (simp add: bucket_ok_def)
  note ieq = insert_spin_eq[OF assms True ch, of v]
  note req = retrieve_spin_eq[OF assms True ch]
  note st = stored_chain[OF True ch]
  show ?thesis
  proof (cases "find (\<lambda>a. key_at (heap s) a = k) as")
    case None
    have r: "retrieve_spin k s = return (None, s)" using req None by simp
    show ?thesis
    proof (cases "malloc s")
      case n: None
      then have "insert_spin k v s = panic ''No memory to allocate bucket!'' s" using ieq None by simp
      then show ?thesis using r None st by (auto simp: panic_def return_def frame_same)
    next
      case (Some a)
      let ?s' = "s\<lparr>heap := (heap s)(a \<mapsto> \<lparr>key = k, val = v, next = table s ! nat (slot k)\<rparr>),
                         table := (table s)[nat (slot k) := Some a]\<rparr>"
      have i: "insert_spin k v s = return ?s'" using ieq None Some by simp
      have "\<forall>j<5. int j \<noteq> slot k \<longrightarrow> bucket_unchanged s ?s' j"
        using ok malloc_fresh[OF Some] True by (rule frame_link) simp_all
      then show ?thesis using i r None st by (auto simp: return_def frame_same)
    qed
  next
    case (Some c)
    then have "c \<in> set as" "key_at (heap s) c = k" by (auto simp: find_Some_iff)
    then obtain e where e: "heap s c = Some e" "key e = k" using ch chain_live by (fastforce simp: key_at_def)
    let ?s' = "s\<lparr>heap := (heap s)(c \<mapsto> e\<lparr>val := v\<rparr>)\<rparr>"
    have i: "insert_spin k v s = return ?s'" using ieq Some e by simp
    have f: "(\<forall>j<5. int j \<noteq> slot k \<longrightarrow> bucket_unchanged s ?s' j)
       \<and> (\<forall>j<5. \<forall>bs. chain (heap s) (table s ! j) bs \<longrightarrow> chain (heap ?s') (table ?s' ! j) bs)"
      using ok e by (rule frame_store) simp_all
    have ins: "(\<forall>j<5. int j \<noteq> slot k \<longrightarrow> bucket_unchanged s s' j)
          \<and> bucket_spinlocks s' = bucket_spinlocks s
          \<and> (stored s k \<noteq> None \<longrightarrow>
                table s' = table s
              \<and> (\<exists>c e. heap s c = Some e \<and> key e = k \<and> heap s' = (heap s)(c \<mapsto> e\<lparr>val := v\<rparr>))
              \<and> (\<forall>j<5. \<forall>bs. chain (heap s) (table s ! j) bs \<longrightarrow> chain (heap s') (table s' ! j) bs))"
      if "s' = ?s'" for s'
      unfolding that using f e by (auto intro!: exI[of _ c] exI[of _ e])
    have ret: "(\<forall>j<5. bucket_unchanged s s' j) \<and> table s' = table s \<and> bucket_spinlocks s' = bucket_spinlocks s"
      if "retrieve_spin k s = return (r, s') \<or> (\<exists>st msg. retrieve_spin k s = Some (Inl (Exited st msg s')))" for r s'
    proof (cases "malloc s")
      case None
      then have "s' = s" using that req Some by (auto simp: panic_def return_def)
      then show ?thesis by (simp add: frame_same)
    next
      case m: (Some a)
      then have "s' = s\<lparr>heap := (heap s)(a \<mapsto> \<lparr>key = key_at (heap s) c, val = val_at (heap s) c, next = None\<rparr>)\<rparr>"
        using that req Some by (auto simp: return_def)
      then show ?thesis using frame_fresh[OF malloc_fresh[OF m], of s'] by simp
    qed
    show ?thesis using i ins ret by (auto simp: return_def)
  qed
qed

lemma frame_rw:
  assumes "wf_rw s"
  shows "(\<forall>s'. insert_rw k v s = return s' \<or> (\<exists>st msg. insert_rw k v s = Some (Inl (Exited st msg s'))) \<longrightarrow>
            (\<forall>j<5. int j \<noteq> slot k \<longrightarrow> bucket_unchanged s s' j)
          \<and> bucket_locks s' = bucket_locks s
          \<and> (stored s k \<noteq> None \<longrightarrow>
                table s' = table s
              \<and> (\<exists>c e. heap s c = Some e \<and> key e = k \<and> heap s' = (heap s)(c \<mapsto> e\<lparr>val := v\<rparr>))
              \<and> (\<forall>j<5. \<forall>bs. chain (heap s) (table s ! j) bs \<longrightarrow> chain (heap s') (table s' ! j) bs)))
       \<and> (\<forall>r s'. retrieve_rw k s = return (r, s') \<or> (\<exists>st msg. retrieve_rw k s = Some (Inl (Exited st msg s'))) \<longrightarrow>
            (\<forall>j<5. bucket_unchanged s s' j) \<and> table s' = table s \<and> bucket_locks s' = bucket_locks s)
       \<and> (0 \<le> slot k \<longrightarrow> (\<exists>s'. insert_rw k v s = return s' \<or> (\<exists>st msg. insert_rw k v s = Some (Inl (Exited st msg s')))))"
proof (cases "0 \<le> slot k")
  case False
  then show ?thesis by (simp add: insert_rw_bad_slot retrieve_rw_bad_slot return_def)
next
  case True
  have ok: "table_ok s" using assms by (simp add: wf_rw_def)
  then obtain as where "bucket_ok (heap s) (table s) (nat (slot k)) as"
    using True wf_chain by blast
  then have ch: "chain (heap s) (table s ! nat (slot k)) as" by (simp add: bucket_ok_def)
  note ieq = insert_rw_eq[OF assms True ch, of v]
  note req = retrieve_rw_eq[OF assms True ch]
  note st = stored_chain[OF True ch]
  show ?thesis
  proof (cases "find (\<lambda>a. key_at (heap s) a = k) as")
    case None
    have r: "retrieve_rw k s = return (None, s)" using req None by simp
    show ?thesis
    proof (cases "malloc s")
      case n: None
      then have "insert_rw k v s = panic ''No memory to allocate bucket!'' s" using ieq None by simp
      then show ?thesis using r None st by (auto simp: panic_def return_def frame_same)
    next
      case (Some a)
      let ?s' = "s\<lparr>heap := (heap s)(a \<mapsto> \<lparr>key = k, val = v, next = table s ! nat (slot k)\<rparr>),
                         table := (table s)[nat (slot k) := Some a]\<rparr>"
      have i: "insert_rw k v s = return ?s'" using ieq None Some by simp
      have "\<forall>j<5. int j \<noteq> slot k \<longrightarrow> bucket_unchanged s ?s' j"
        using ok malloc_fresh[OF Some] True by (rule frame_link) simp_all
      then show ?thesis using i r None st by (auto simp: return_def frame_same)
    qed
  next
    case (Some c)
    then have "c \<in> set as" "key_at (heap s) c = k" by (auto simp: find_Some_iff)
    then obtain e where e: "heap s c = Some e" "key e = k" using ch chain_live by (fastforce simp: key_at_def)
    let ?s' = "s\<lparr>heap := (heap s)(c \<mapsto> e\<lparr>val := v\<rparr>)\<rparr>"
    have i: "insert_rw k v s = return ?s'" using ieq Some e by simp
    have f: "(\<forall>j<5. int j \<noteq> slot k \<longrightarrow> bucket_unchanged s ?s' j)
       \<and> (\<forall>j<5. \<forall>bs. chain (heap s) (table s ! j) bs \<longrightarrow> chain (heap ?s') (table ?s' ! j) bs)"
      using ok e by (rule frame_store) simp_all
    have ins: "(\<forall>j<5. int j \<noteq> slot k \<longrightarrow> bucket_unchanged s s' j)
          \<and> bucket_locks s' = bucket_locks s
          \<and> (stored s k \<noteq> None \<longrightarrow>
                table s' = table s
              \<and> (\<exists>c e. heap s c = Some e \<and> key e = k \<and> heap s' = (heap s)(c \<mapsto> e\<lparr>val := v\<rparr>))
              \<and> (\<forall>j<5. \<forall>bs. chain (heap s) (table s ! j) bs \<longrightarrow> chain (heap s') (table s' ! j) bs))"
      if "s' = ?s'" for s'
      unfolding that using f e by (auto intro!: exI[of _ c] exI[of _ e])
    have ret: "(\<forall>j<5. bucket_unchanged s s' j) \<and> table s' = table s \<and> bucket_locks s' = bucket_locks s"
      if "retrieve_rw k s = return (r, s') \<or> (\<exists>st msg. retrieve_rw k s = Some (Inl (Exited st msg s')))" for r s'
    proof (cases "malloc s")
      case None
      then have "s' = s" using that req Some by (auto simp: panic_def return_def)
      then show ?thesis by (simp add: frame_same)
    next
      case m: (Some a)
      then have "s' = s\<lparr>heap := (heap s)(a \<mapsto> \<lparr>key = key_at (heap s) c, val = val_at (heap s) c, next = None\<rparr>)\<rparr>"
        using that req Some by (auto simp: return_def)
      then show ?thesis using frame_fresh[OF malloc_fresh[OF m], of s'] by simp
    qed
    show ?thesis using i ins ret by (auto simp: return_def)
  qed
qed

lemma frame_two_level:
  assumes "wf_two_level s"
  shows "(\<forall>s'. insert_two_level k v s = return s' \<or> (\<exists>st msg. insert_two_level k v s = Some (Inl (Exited st msg s'))) \<longrightarrow>
            (\<forall>j<5. int j \<noteq> slot k \<longrightarrow> bucket_unchanged s s' j)
          \<and> bucket_locks s' = bucket_locks s
          \<and> (stored s k \<noteq> None \<longrightarrow>
                table s' = table s
              \<and> (\<exists>c e. heap s c = Some e \<and> key e = k \<and> heap s' = (heap s)(c \<mapsto> e\<lparr>val := v\<rparr>))
              \<and> (\<forall>j<5. \<forall>bs. chain (heap s) (table s ! j) bs \<longrightarrow> chain (heap s') (table s' ! j) bs)))
       \<and> (\<forall>r s'. retrieve_two_level k s = return (r, s') \<or> (\<exists>st msg. retrieve_two_level k s = Some (Inl (Exited st msg s'))) \<longrightarrow>
            (\<forall>j<5. bucket_unchanged s s' j) \<and> table s' = table s \<and> bucket_locks s' = bucket_locks s)
       \<and> (0 \<le> slot k \<longrightarrow> (\<exists>s'. insert_two_level k v s = return s' \<or> (\<exists>st msg. insert_two_level k v s = Some (Inl (Exited st msg s')))))"
proof (cases "0 \<le> slot k")
  case False
  then show ?thesis by (simp add: insert_two_level_bad_slot retrieve_two_level_bad_slot return_def)
next
  case True
  have ok: "table_ok s" using assms by (simp add: wf_two_level_def)
  then obtain as where "bucket_ok (heap s) (table s) (nat (slot k)) as"
    using True wf_chain by blast
  then have ch: "chain (heap s) (table s ! nat (slot k)) as" by (simp add: bucket_ok_def)
  note ieq = insert_two_level_eq[OF assms True ch, of v]
  note req = retrieve_two_level_eq[OF assms True ch]
  note st = stored_chain[OF True ch]
  show ?thesis
  proof (cases "find (\<lambda>a. key_at (heap s) a = k) as")
    case None
    have r: "retrieve_two_level k s =
        return (None, s\<lparr>lock_log := lock_log s @ [Acquire_Bucket (slot k), Release_Bucket (slot k)]\<rparr>)"
      using req None by simp
    show ?thesis
    proof (cases "malloc s")
      case n: None
      then have "insert_two_level k v s = panic ''No memory to allocate bucket!''
          (s\<lparr>lock_log := lock_log s @ [Acquire_Bucket (slot k), Release_Bucket (slot k),
                                      Acquire_Bucket (slot k), Release_Bucket (slot k)]\<rparr>)"
        using ieq None by simp
      then show ?thesis using r None st by (auto simp: panic_def return_def frame_same)
    next
      case (Some a)
      let ?s' = "s\<lparr>heap := (heap s)(a \<mapsto> \<lparr>key = k, val = v, next = table s ! nat (slot k),
                                          entry_mutex = Mutex_Unlocked\<rparr>),
                   table := (table s)[nat (slot k) := Some a],
                   lock_log := lock_log s @ [Acquire_Bucket (slot k), Release_Bucket (slot k),
                                             Acquire_Bucket (slot k), Release_Bucket (slot k)]\<rparr>"
      have i: "insert_two_level k v s = return ?s'" using ieq None Some by simp
      have "\<forall>j<5. int j \<noteq> slot k \<longrightarrow> bucket_unchanged s ?s' j"
        using ok malloc_fresh[OF Some] True by (rule frame_link) simp_all
      then show ?thesis using i r None st by (auto simp: return_def frame_same)
    qed
  next
    case (Some c)
    then have "c \<in> set as" "key_at (heap s) c = k" by (auto simp: find_Some_iff)
    then obtain e where e: "heap s c = Some e" "key e = k" using ch chain_live by (fastforce simp: key_at_def)
    let ?s' = "s\<lparr>heap := (heap s)(c \<mapsto> e\<lparr>val := v\<rparr>),
                 lock_log := lock_log s @ [Acquire_Bucket (slot k), Acquire_Entry c, Release_Entry c,
                                           Release_Bucket (slot k)]\<rparr>"
    have i: "insert_two_level k v s = return ?s'" using ieq Some e by simp
    have f: "(\<forall>j<5. int j \<noteq> slot k \<longrightarrow> bucket_unchanged s ?s' j)
       \<and> (\<forall>j<5. \<forall>bs. chain (heap s) (table s ! j) bs \<longrightarrow> chain (heap ?s') (table ?s' ! j) bs)"
      using ok e by (rule frame_store) simp_all
    have ins: "(\<forall>j<5. int j \<noteq> slot k \<longrightarrow> bucket_unchanged s s' j)
          \<and> bucket_locks s' = bucket_locks s
          \<and> (stored s k \<noteq> None \<longrightarrow>
                table s' = table s
              \<and> (\<exists>c e. heap s c = Some e \<and> key e = k \<and> heap s' = (heap s)(c \<mapsto> e\<lparr>val := v\<rparr>))
              \<and> (\<forall>j<5. \<forall>bs. chain (heap s) (table s ! j) bs \<longrightarrow> chain (heap s') (table s' ! j) bs))"
      if "s' = ?s'" for s'
      unfolding that using f e by (auto intro!: exI[of _ c] exI[of _ e])
    have ret: "(\<forall>j<5. bucket_unchanged s s' j) \<and> table s' = table s \<and> bucket_locks s' = bucket_locks s"
      if "retrieve_two_level k s = return (r, s') \<or> (\<exists>st msg. retrieve_two_level k s = Some (Inl (Exited st msg s')))" for r s'
    proof (cases "malloc s")
      case None
      then have "s' = s\<lparr>lock_log := lock_log s @ [Acquire_Bucket (slot k), Acquire_Entry c, Release_Entry c,
                                             Release_Bucket (slot k)]\<rparr>"
        using that req Some by (auto simp: panic_def return_def)
      then show ?thesis by (simp add: frame_same)
    next
      case m: (Some a)
      then have "s' = s\<lparr>heap := (heap s)(a \<mapsto> \<lparr>key = key_at (heap s) c, val = val_at (heap s) c, next = None,
                                           entry_mutex = Mutex_Unlocked\<rparr>),
                   lock_log := lock_log s @ [Acquire_Bucket (slot k), Acquire_Entry c, Release_Entry c,
                                             Release_Bucket (slot k)]\<rparr>"
        using that req Some by (auto simp: return_def)
      then show ?thesis using frame_fresh[OF malloc_fresh[OF m], of s'] by simp
    qed
    show ?thesis using i ins ret by (auto simp: return_def)
  qed
qed

lemma lookup_leaves_state:
  "wf_spin sa \<Longrightarrow> 0 \<le> slot k \<Longrightarrow>
     \<exists>r sa'. retrieve_spin k sa = return (r, sa') \<or> (\<exists>st msg. retrieve_spin k sa = Some (Inl (Exited st msg sa')))"
  "wf_rw sb \<Longrightarrow> 0 \<le> slot k \<Longrightarrow>
     \<exists>r sb'. retrieve_rw k sb = return (r, sb') \<or> (\<exists>st msg. retrieve_rw k sb = Some (Inl (Exited st msg sb')))"
  "wf_two_level sc \<Longrightarrow> 0 \<le> slot k \<Longrightarrow>
     \<exists>r sc'. retrieve_two_level k sc = return (r, sc')
       \<or> (\<exists>st msg. retrieve_two_level k sc = Some (Inl (Exited st msg sc')))"
proof -
  show "\<exists>r sa'. retrieve_spin k sa = return (r, sa') \<or> (\<exists>st msg. retrieve_spin k sa = Some (Inl (Exited st msg sa')))"
    if wf: "wf_spin sa" and k: "0 \<le> slot k"
  proof -
    have "table_ok sa" using wf by (simp add: wf_spin_def)
    then obtain as where "bucket_ok (heap sa) (table sa) (nat (slot k)) as" using k wf_chain by blast
    then have ch: "chain (heap sa) (table sa ! nat (slot k)) as" by (simp add: bucket_ok_def)
    show ?thesis
      unfolding retrieve_spin_eq[OF wf k ch]
      by (cases "find (\<lambda>a. key_at (heap sa) a = k) as"; cases "malloc sa") (auto simp: panic_def return_def)
  qed
  show "\<exists>r sb'. retrieve_rw k sb = return (r, sb') \<or> (\<exists>st msg. retrieve_rw k sb = Some (Inl (Exited st msg sb')))"
    if wf: "wf_rw sb" and k: "0 \<le> slot k"
  proof -
    have "table_ok sb" using wf by (simp add: wf_rw_def)
    then obtain as where "bucket_ok (heap sb) (table sb) (nat (slot k)) as" using k wf_chain by blast
    then have ch: "chain (heap sb) (table sb ! nat (slot k)) as" by (simp add: bucket_ok_def)
    show ?thesis
      unfolding retrieve_rw_eq[OF wf k ch]
      by (cases "find (\<lambda>a. key_at (heap sb) a = k) as"; cases "malloc sb") (auto simp: panic_def return_def)
  qed
  show "\<exists>r sc'. retrieve_two_level k sc = return (r, sc')
       \<or> (\<exists>st msg. retrieve_two_level k sc = Some (Inl (Exited st msg sc')))"
    if wf: "wf_two_level sc" and k: "0 \<le> slot k"
  proof -
    have "table_ok sc" using wf by (simp add: wf_two_level_def)
    then obtain as where "bucket_ok (heap sc) (table sc) (nat (slot k)) as" using k wf_chain by blast
    then have ch: "chain (heap sc) (table sc ! nat (slot k)) as" by (simp add: bucket_ok_def)
    show ?thesis
      unfolding retrieve_two_level_eq[OF wf k ch]
      by (cases "find (\<lambda>a. key_at (heap sc) a = k) as"; cases "malloc sc") (auto simp: panic_def return_def)
  qed
qed

section \<open>Allocation failure\<close>

lemma wf_spinD: "wf_spin s \<Longrightarrow> bucket_spinlocks s = replicate 5 Spin_Unlocked"
  by (simp add: wf_spin_def)

lemma exits_spin:
  assumes "wf_spin s"
  shows "(\<forall>st msg s'. insert_spin k v s = Some (Inl (Exited st msg s')) \<longrightarrow>
            st = 1 \<and> msg = ''No memory to allocate bucket!'' \<and> malloc s = None
            \<and> bucket_spinlocks s' = replicate 5 Spin_Unlocked \<and> s' = s)
       \<and> (\<forall>st msg s'. retrieve_spin k s = Some (Inl (Exited st msg s')) \<longrightarrow>
            st = 1 \<and> msg = ''No memory to allocate result!'' \<and> malloc s = None
            \<and> bucket_spinlocks s' = replicate 5 Spin_Unlocked \<and> s' = s)
       \<and> (0 \<le> slot k \<and> stored s k = None \<and> malloc s = None \<longrightarrow>
            insert_spin k v s = Some (Inl (Exited 1 ''No memory to allocate bucket!'' s)))
       \<and> (stored s k \<noteq> None \<and> malloc s = None \<longrightarrow>
            retrieve_spin k s = Some (Inl (Exited 1 ''No memory to allocate result!'' s)))"
proof (cases "0 \<le> slot k")
  case False
  then show ?thesis by (simp add: insert_spin_bad_slot retrieve_spin_bad_slot stored_def)
next
  case True
  have ok: "table_ok s" using assms by (simp add: wf_spin_def)
  then obtain as where "bucket_ok (heap s) (table s) (nat (slot k)) as"
    using True wf_chain by blast
  then have ch: "chain (heap s) (table s ! nat (slot k)) as" by (simp add: bucket_ok_def)
  note ieq = insert_spin_eq[OF assms True ch, of v]
  note req = retrieve_spin_eq[OF assms True ch]
  note st = stored_chain[OF True ch]
  note l = wf_spinD[OF assms]
  show ?thesis
  proof (cases "find (\<lambda>a. key_at (heap s) a = k) as")
    case None
    then show ?thesis
      using ieq req st l True by (cases "malloc s") (auto simp: panic_def return_def)
  next
    case (Some c)
    then show ?thesis
      using ieq req st l True by (cases "malloc s") (auto simp: panic_def return_def)
  qed
qed

lemma wf_rwD: "wf_rw s \<Longrightarrow> bucket_locks s = replicate 5 RW_Unlocked"
  by (simp add: wf_rw_def)

lemma exits_rw:
  assumes "wf_rw s"
  shows "(\<forall>st msg s'. insert_rw k v s = Some (Inl (Exited st msg s')) \<longrightarrow>
            st = 1 \<and> msg = ''No memory to allocate bucket!'' \<and> malloc s = None
            \<and> bucket_locks s' = replicate 5 RW_Unlocked \<and> s' = s)
       \<and> (\<forall>st msg s'. retrieve_rw k s = Some (Inl (Exited st msg s')) \<longrightarrow>
            st = 1 \<and> msg = ''No memory to allocate result!'' \<and> malloc s = None
            \<and> bucket_locks s' = replicate 5 RW_Unlocked \<and> s' = s)
       \<and> (0 \<le> slot k \<and> stored s k = None \<and> malloc s = None \<longrightarrow>
            insert_rw k v s = Some (Inl (Exited 1 ''No memory to allocate bucket!'' s)))
       \<and> (stored s k \<noteq> None \<and> malloc s = None \<longrightarrow>
            retrieve_rw k s = Some (Inl (Exited 1 ''No memory to allocate result!'' s)))"
proof (cases "0 \<le> slot k")
  case False
  then show ?thesis by (simp add: insert_rw_bad_slot retrieve_rw_bad_slot stored_def)
next
  case True
  have ok: "table_ok s" using assms by (simp add: wf_rw_def)
  then obtain as where "bucket_ok (heap s) (table s) (nat (slot k)) as"
    using True wf_chain by blast
  then have ch: "chain (heap s) (table s ! nat (slot k)) as" by (simp add: bucket_ok_def)
  note ieq = insert_rw_eq[OF assms True ch, of v]
  note req = retrieve_rw_eq[OF assms True ch]
  note st = stored_chain[OF True ch]
  note l = wf_rwD[OF assms]
  show ?thesis
  proof (cases "find (\<lambda>a. key_at (heap s) a = k) as")
    case None
    then show ?thesis
      using ieq req st l True by (cases "malloc s") (auto simp: panic_def return_def)
  next
    case (Some c)
    then show ?thesis
      using ieq req st l True by (cases "malloc s") (auto simp: panic_def return_def)
  qed
qed

lemma exits_two_level:
  assumes "wf_two_level s"
  shows "(\<forall>st msg s'. insert_two_level k v s = Some (Inl (Exited st msg s')) \<longrightarrow>
            st = 1 \<and> msg = ''No memory to allocate bucket!'' \<and> malloc s = None
            \<and> bucket_locks s' = replicate 5 RW_Unlocked \<and> entries_unlocked s'
            \<and> heap s' = heap s \<and> table s' = table s
            \<and> (\<exists>evs. lock_log s' = lock_log s @ evs \<and> locks_held [] [] evs = ([], [])))
       \<and> (\<forall>st msg s'. retrieve_two_level k s = Some (Inl (Exited st msg s')) \<longrightarrow>
            st = 1 \<and> msg = ''No memory to allocate result!'' \<and> malloc s = None
            \<and> bucket_locks s' = replicate 5 RW_Unlocked \<and> entries_unlocked s'
            \<and> heap s' = heap s \<and> table s' = table s
            \<and> (\<exists>evs c. lock_log s' = lock_log s @ evs \<and> Release_Entry c \<in> set evs
                  \<and> locks_held [] [] evs = ([], [])))
       \<and> (0 \<le> slot k \<and> stored s k = None \<and> malloc s = None \<longrightarrow>
            (\<exists>s'. insert_two_level k v s = Some (Inl (Exited 1 ''No memory to allocate bucket!'' s'))))
       \<and> (stored s k \<noteq> None \<and> malloc s = None \<longrightarrow>
            (\<exists>s'. retrieve_two_level k s = Some (Inl (Exited 1 ''No memory to allocate result!'' s'))))"
proof (cases "0 \<le> slot k")
  case False
  then show ?thesis by (simp add: insert_two_level_bad_slot retrieve_two_level_bad_slot stored_def)
next
  case True
  have ok: "table_ok s" and l: "bucket_locks s = replicate 5 RW_Unlocked" and un: "entries_unlocked s"
    using assms by (simp_all add: wf_two_level_def)
  then obtain as where "bucket_ok (heap s) (table s) (nat (slot k)) as"
    using True wf_chain by blast
  then have ch: "chain (heap s) (table s ! nat (slot k)) as" by (simp add: bucket_ok_def)
  note ieq = insert_two_level_eq[OF assms True ch, of v]
  note req = retrieve_two_level_eq[OF assms True ch]
  note st = stored_chain[OF True ch]
  show ?thesis
  proof (cases "find (\<lambda>a. key_at (heap s) a = k) as")
    case None
    then show ?thesis
      using ieq req st l un True by (cases "malloc s") (auto simp: panic_def return_def)
  next
    case (Some c)
    then show ?thesis
      using ieq req st l un True by (cases "malloc s") (auto simp: panic_def return_def)
  qed
qed

section \<open>The lock operations of the two-level variant\<close>

lemma lock_order_two_level:
  assumes "wf_two_level s"
  shows "(\<forall>s'. insert_two_level k v s = return s' \<or> (\<exists>st msg. insert_two_level k v s = Some (Inl (Exited st msg s'))) \<longrightarrow>
            (\<exists>evs. lock_log s' = lock_log s @ evs \<and> lock_order_ok [] [] evs \<and> locks_held [] [] evs = ([], [])))
       \<and> (\<forall>r s'. retrieve_two_level k s = return (r, s') \<or> (\<exists>st msg. retrieve_two_level k s = Some (Inl (Exited st msg s'))) \<longrightarrow>
            (\<exists>evs. lock_log s' = lock_log s @ evs \<and> lock_order_ok [] [] evs \<and> locks_held [] [] evs = ([], [])))"
proof (cases "0 \<le> slot k")
  case False
  then show ?thesis by (simp add: insert_two_level_bad_slot retrieve_two_level_bad_slot return_def)
next
  case True
  have ok: "table_ok s" using assms by (simp_all add: wf_two_level_def)
  then obtain as where "bucket_ok (heap s) (table s) (nat (slot k)) as"
    using True wf_chain by blast
  then have ch: "chain (heap s) (table s ! nat (slot k)) as" by (simp add: bucket_ok_def)
  note ieq = insert_two_level_eq[OF assms True ch, of v]
  note req = retrieve_two_level_eq[OF assms True ch]
  show ?thesis
  proof (cases "find (\<lambda>a. key_at (heap s) a = k) as")
    case None
    then show ?thesis
      using ieq req by (cases "malloc s") (auto simp: panic_def return_def)
  next
    case (Some c)
    then show ?thesis
      using ieq req by (cases "malloc s") (auto simp: panic_def return_def)
  qed
qed

lemma lock_order_update_entry:
  assumes "heap s c = Some e" "entry_mutex e = Mutex_Unlocked" "0 \<le> i" "i < int (length (bucket_locks s))"
    "bucket_locks s ! nat i = RW_Readers 1 \<or> bucket_locks s ! nat i = RW_Writer"
  shows "\<exists>s'. update_entry i c v s = return s' \<and>
      lock_log s' = lock_log s @ [Acquire_Entry c, Release_Entry c, Release_Bucket i]
      \<and> lock_order_ok [i] [] [Acquire_Entry c, Release_Entry c, Release_Bucket i]
      \<and> locks_held [i] [] [Acquire_Entry c, Release_Entry c, Release_Bucket i] = ([], [])"
  using update_entry_ok[OF assms, of v] by simp

section \<open>Evaluating the calls on concrete states\<close>

lemmas run_spin = insert_spin_def retrieve_spin_def pthread_spin_lock_def pthread_spin_unlock_def init_spin_def
lemmas run_rw = insert_rw_def retrieve_rw_def init_rw_def
lemmas run_rwlock = pthread_rwlock_rdlock_def pthread_rwlock_wrlock_def pthread_rwlock_unlock_def
lemmas run_two_level = insert_two_level_def retrieve_two_level_def update_entry_def rdlock_bucket_def
  wrlock_bucket_def unlock_bucket_def logged_def pthread_mutex_lock_def pthread_mutex_unlock_def init_two_level_def
lemmas run_memory = Let_def slot_def NUM_BUCKETS_def signed_modulo_int_def malloc_def store_val_def load_def
  upt_rec fun_eq_iff panic_def replicate_five

section \<open>The example states are well-formed\<close>

lemma wf_example_spin: "wf_spin example_spin"
proof -
  have "insert_all_spin [(1, 10), (6, 20)] (init_spin 3) = return example_spin"
    by (simp add: example_spin_def run_spin run_memory)
  then show ?thesis using stored_after_inserts_spin by blast
qed

lemma wf_example_rw: "wf_rw example_rw"
proof -
  have "insert_all_rw [(1, 10), (6, 20)] (init_rw 3) = return example_rw"
    by (simp add: example_rw_def run_rw run_rwlock run_memory)
  then show ?thesis using stored_after_inserts_rw by blast
qed

lemma wf_example_two_level: "wf_two_level example_two_level"
proof -
  have "insert_all_two_level [(1, 10), (6, 20)] (init_two_level 3) =
      return (example_two_level\<lparr>lock_log := [Acquire_Bucket 1, Release_Bucket 1, Acquire_Bucket 1, Release_Bucket 1,
        Acquire_Bucket 1, Release_Bucket 1, Acquire_Bucket 1, Release_Bucket 1]\<rparr>)"
    by (simp add: example_two_level_def run_two_level run_rwlock run_memory)
  then have "wf_two_level (example_two_level\<lparr>lock_log := [Acquire_Bucket 1, Release_Bucket 1, Acquire_Bucket 1, Release_Bucket 1,
        Acquire_Bucket 1, Release_Bucket 1, Acquire_Bucket 1, Release_Bucket 1]\<rparr>)"
    using stored_after_inserts_two_level by blast
  then show ?thesis by simp
qed

lemma example_chain:
  "chain (heap example_spin) (table example_spin ! nat (slot 1)) [1, 0]"
  "chain (heap example_rw) (table example_rw ! nat (slot 1)) [1, 0]"
  "chain (heap example_two_level) (table example_two_level ! nat (slot 1)) [1, 0]"
  "chain (heap example_spin) (table example_spin ! nat (slot 11)) [1, 0]"
  "chain (heap example_rw) (table example_rw ! nat (slot 11)) [1, 0]"
  "chain (heap example_two_level) (table example_two_level ! nat (slot 11)) [1, 0]"
  by (simp_all add: example_spin_def example_rw_def example_two_level_def slot_def NUM_BUCKETS_def
      signed_modulo_int_def)

lemma example_slot: "0 \<le> slot 1" "0 \<le> slot 11" "slot 1 = 1" "slot 11 = 1" "slot 7 = 2"
  by (simp_all add: slot_def NUM_BUCKETS_def signed_modulo_int_def)

lemma example_malloc:
  "malloc example_spin = Some 2" "malloc example_rw = Some 2" "malloc example_two_level = Some 2"
  by (simp_all add: malloc_def example_spin_def example_rw_def example_two_level_def upt_rec)

lemma example_absent:
  "\<forall>c\<in>set [1, 0]. key_at (heap example_spin) c \<noteq> 11"
  "\<forall>c\<in>set [1, 0]. key_at (heap example_rw) c \<noteq> 11"
  "\<forall>c\<in>set [1, 0]. key_at (heap example_two_level) c \<noteq> 11"
  by (simp_all add: example_spin_def example_rw_def example_two_level_def key_at_def)

lemma example_entry:
  "0 \<in> set [1, 0 :: addr] \<and> heap example_spin 0 = Some \<lparr>key = 1, val = 10, next = None\<rparr>
     \<and> key \<lparr>key = 1, val = 10, next = None\<rparr> = 1"
  "0 \<in> set [1, 0 :: addr] \<and> heap example_rw 0 = Some \<lparr>key = 1, val = 10, next = None\<rparr>
     \<and> key \<lparr>key = 1, val = 10, next = None\<rparr> = 1"
  "0 \<in> set [1, 0 :: addr] \<and> heap example_two_level 0 = Some \<lparr>key = 1, val = 10, next = None, entry_mutex = Mutex_Unlocked\<rparr>
     \<and> key \<lparr>key = 1, val = 10, next = None, entry_mutex = Mutex_Unlocked\<rparr> = 1"
  by (simp_all add: example_spin_def example_rw_def example_two_level_def)

section \<open>Example states without free memory\<close>

lemma wf_mem_cells [simp]:
  "wf_spin (sa\<lparr>mem_cells := n\<rparr>) = wf_spin sa"
  "wf_rw (sb\<lparr>mem_cells := n\<rparr>) = wf_rw sb"
  "wf_two_level (sc\<lparr>mem_cells := n\<rparr>) = wf_two_level sc"
  by (simp_all add: wf_spin_def wf_rw_def wf_two_level_def table_ok_def entries_unlocked_def)

lemma stored_mem_cells [simp]: "stored (s\<lparr>mem_cells := n\<rparr>) = stored s"
  by (rule stored_cong) simp_all

lemma example_stored:
  "stored example_spin 1 = Some 10" "stored example_rw 1 = Some 10" "stored example_two_level 1 = Some 10"
  using stored_present[OF _ example_slot(1) example_chain(1), of 0 "\<lparr>key = 1, val = 10, next = None\<rparr>"]
    stored_present[OF _ example_slot(1) example_chain(2), of 0 "\<lparr>key = 1, val = 10, next = None\<rparr>"]
    stored_present[OF _ example_slot(1) example_chain(3), of 0 "\<lparr>key = 1, val = 10, next = None, entry_mutex = Mutex_Unlocked\<rparr>"]
    wf_example_spin wf_example_rw wf_example_two_level example_entry
  by (simp_all add: wf_spin_def wf_rw_def wf_two_level_def)

lemma example_full:
  "malloc (example_spin\<lparr>mem_cells := 2\<rparr>) = None" "malloc (example_rw\<lparr>mem_cells := 2\<rparr>) = None"
  "malloc (example_two_level\<lparr>mem_cells := 2\<rparr>) = None"
  "malloc (init_spin 0) = None" "malloc (init_rw 0) = None" "malloc (init_two_level 0) = None"
  by (simp_all add: malloc_def example_spin_def example_rw_def example_two_level_def upt_rec
      init_spin_def init_rw_def init_two_level_def)

section \<open>The argument of the entry point\<close>

lemma digit_not_space_or_sign:
  "isdigit c \<Longrightarrow> \<not> isspace c \<and> c \<noteq> CHR ''-'' \<and> c \<noteq> CHR ''+''"
  by (auto simp: isdigit_def isspace_def)

lemma digits_value_foldl_nonneg:
  "0 \<le> a \<Longrightarrow> list_all isdigit ds \<Longrightarrow> 0 \<le> foldl (\<lambda>a c. 10 * a + (int (of_char c) - 48)) a ds"
proof (induction ds arbitrary: a)
  case Nil
  then show ?case by simp
next
  case (Cons d ds)
  then have "0 \<le> 10 * a + (int (of_char d) - 48)" by (simp add: isdigit_def)
  then show ?case using Cons by simp
qed

lemma digits_value_nonneg: "list_all isdigit ds \<Longrightarrow> 0 \<le> digits_value ds"
  unfolding digits_value_def by (rule digits_value_foldl_nonneg) simp_all

lemma takeWhile_digits:
  "list_all isdigit ds \<Longrightarrow> rest = [] \<or> \<not> isdigit (hd rest) \<Longrightarrow> takeWhile isdigit (ds @ rest) = ds"
  by (cases rest) (auto simp: takeWhile_append2 list_all_iff)

lemma number_in_exists: "\<exists>ws sg ds rest. number_in arg ws sg ds rest"
proof -
  define ws where "ws = takeWhile isspace arg"
  define x where "x = dropWhile isspace arg"
  define sg where "sg = (if x \<noteq> [] \<and> (hd x = CHR ''+'' \<or> hd x = CHR ''-'') then [hd x] else [])"
  define y where "y = (if x \<noteq> [] \<and> (hd x = CHR ''+'' \<or> hd x = CHR ''-'') then tl x else x)"
  define ds where "ds = takeWhile isdigit y"
  define rest where "rest = dropWhile isdigit y"
  have 1: "arg = ws @ sg @ ds @ rest"
    by (simp add: ws_def x_def sg_def y_def ds_def rest_def)
  have 2: "list_all isspace ws" by (simp add: ws_def list_all_iff) (meson set_takeWhileD)
  have 3: "sg = [] \<or> sg = ''+'' \<or> sg = ''-''" by (auto simp: sg_def)
  have 4: "list_all isdigit ds" by (simp add: ds_def list_all_iff) (meson set_takeWhileD)
  have 5: "rest = [] \<or> \<not> isdigit (hd rest)" using hd_dropWhile[of isdigit y] by (auto simp: rest_def)
  have 6: "rest = [] \<or> (\<not> isspace (hd rest) \<and> hd rest \<noteq> CHR ''+'' \<and> hd rest \<noteq> CHR ''-'')"
    if "sg = []" "ds = []"
  proof (cases "rest = []")
    case True
    then show ?thesis by simp
  next
    case False
    have yx: "y = x" using that(1) by (auto simp: sg_def y_def split: if_splits)
    have "rest = y" using that(2) unfolding ds_def rest_def
      by (metis takeWhile_dropWhile_id append_Nil)
    then have r: "rest = x" using yx by simp
    then have "\<not> isspace (hd rest)" using False hd_dropWhile[of isspace arg] by (simp add: x_def)
    moreover have "hd rest \<noteq> CHR ''+'' \<and> hd rest \<noteq> CHR ''-''"
      using that(1) False r by (auto simp: sg_def split: if_splits)
    ultimately show ?thesis by simp
  qed
  show ?thesis unfolding number_in_def using 1 2 3 4 5 6 by blast
qed

lemma sign_not_space: "\<not> isspace CHR ''+''" "\<not> isspace CHR ''-''"
  by (simp_all add: isspace_def)

lemma atoi_number:
  assumes "number_in arg ws sg ds rest"
  shows "atoi arg =
     (if sg = ''-''
      then (if digits_value ds \<le> 2 ^ 31 then return (- digits_value ds) else Some (Inl Undefined_Behaviour))
      else (if digits_value ds < 2 ^ 31 then return (digits_value ds) else Some (Inl Undefined_Behaviour)))"
proof -
  have a: "arg = ws @ sg @ ds @ rest" and ws: "list_all isspace ws"
    and sg: "sg = [] \<or> sg = ''+'' \<or> sg = ''-''" and ds: "list_all isdigit ds"
    and rest: "rest = [] \<or> \<not> isdigit (hd rest)"
    and none: "sg = [] \<Longrightarrow> ds = [] \<Longrightarrow>
        rest = [] \<or> (\<not> isspace (hd rest) \<and> hd rest \<noteq> CHR ''+'' \<and> hd rest \<noteq> CHR ''-'')"
    using assms by (auto simp: number_in_def)
  have nn: "0 \<le> digits_value ds" using ds by (rule digits_value_nonneg)
  have tw: "takeWhile isdigit (ds @ rest) = ds" using takeWhile_digits[OF ds rest] .
  have d1: "dropWhile isspace arg = dropWhile isspace (sg @ ds @ rest)"
    unfolding a using ws by (simp add: dropWhile_append2 list_all_iff)
  show ?thesis
  proof (cases "sg = []")
    case False
    then have d2: "dropWhile isspace (sg @ ds @ rest) = sg @ ds @ rest"
      using sg sign_not_space by auto
    show ?thesis
      unfolding atoi_def d1 d2 using sg False tw nn by (auto simp: Let_def)
  next
    case True
    show ?thesis
    proof (cases ds)
      case (Cons d ds')
      then have "isdigit d" using ds by simp
      then have n: "\<not> isspace d" "d \<noteq> CHR ''-''" "d \<noteq> CHR ''+''" using digit_not_space_or_sign by auto
      have tw': "takeWhile isdigit (d # ds' @ rest) = d # ds'" using tw Cons by simp
      show ?thesis
        unfolding atoi_def d1 using True Cons n tw' nn by (simp add: Let_def)
    next
      case Nil
      have z: "digits_value [] = 0" by (simp add: digits_value_def)
      show ?thesis
      proof (cases rest)
        case Nil': Nil
        show ?thesis unfolding atoi_def d1 using True Nil Nil' z by (simp add: Let_def)
      next
        case (Cons c r)
        then have c: "\<not> isspace c" "c \<noteq> CHR ''+''" "c \<noteq> CHR ''-''" "\<not> isdigit c"
          using none[OF True Nil] rest by auto
        show ?thesis unfolding atoi_def d1 using True Nil Cons c z by (simp add: Let_def)
      qed
    qed
  qed
qed

lemma check_args_number:
  assumes "length argv = 2" "number_in (argv ! 1) ws sg ds rest"
  shows "check_args usage argv =
     (if sg = ''-''
      then (if digits_value ds \<le> 2 ^ 31 then Some (Inl (Exited 1 ''must enter a valid number of threads to run'' ()))
            else Some (Inl Undefined_Behaviour))
      else (if digits_value ds = 0 then Some (Inl (Exited 1 ''must enter a valid number of threads to run'' ()))
            else if digits_value ds < 2 ^ 31 then return (digits_value ds)
            else Some (Inl Undefined_Behaviour)))"
proof -
  have nn: "0 \<le> digits_value ds" using assms(2) digits_value_nonneg by (simp add: number_in_def)
  have "(atoi (argv ! 1) :: (unit, int) outcome) =
     (if sg = ''-''
      then (if digits_value ds \<le> 2 ^ 31 then return (- digits_value ds) else Some (Inl Undefined_Behaviour))
      else (if digits_value ds < 2 ^ 31 then return (digits_value ds) else Some (Inl Undefined_Behaviour)))"
    using atoi_number[OF assms(2)] .
  then show ?thesis using assms(1) nn by (auto simp: check_args_def panic_def)
qed

lemma example_arguments:
  "number_in ''4'' [] [] ''4'' []"
  "number_in '' +2 threads'' '' '' ''+'' ''2'' '' threads''"
  "number_in ''3abc'' [] [] ''3'' ''abc''"
  "number_in ''0'' [] [] ''0'' []"
  "number_in ''+0'' [] ''+'' ''0'' []"
  "number_in ''-2'' [] ''-'' ''2'' []"
  "number_in '' -2'' '' '' ''-'' ''2'' []"
  "number_in ''four'' [] [] [] ''four''"
  "number_in [] [] [] [] []"
  "number_in ''-4294967295'' [] ''-'' ''4294967295'' []"
  "number_in ''2147483648'' [] [] ''2147483648'' []"
  by (simp_all add: number_in_def isspace_def isdigit_def)

lemma example_digits:
  "digits_value ''4'' = 4" "digits_value ''2'' = 2" "digits_value ''3'' = 3" "digits_value ''0'' = 0"
  "digits_value [] = 0" "digits_value ''4294967295'' = 4294967295" "digits_value ''2147483648'' = 2147483648"
  by (simp_all add: digits_value_def)

section \<open>Every thread keeps the lock ordering, whatever the other threads do\<close>

lemma lock_order_append:
  "lock_order_ok bs es (evs @ evs') =
     (lock_order_ok bs es evs \<and> lock_order_ok (fst (locks_held bs es evs)) (snd (locks_held bs es evs)) evs')"
  by (induction bs es evs rule: lock_order_ok.induct) auto

lemma locks_held_append:
  "locks_held bs es (evs @ evs') = locks_held (fst (locks_held bs es evs)) (snd (locks_held bs es evs)) evs'"
  by (induction bs es evs rule: locks_held.induct) auto

lemma return_not_None [simp]: "return x \<noteq> None" "None \<noteq> return x"
  by (simp_all add: return_def)

lemma and_thenD: "and_then m f = return y \<Longrightarrow> \<exists>x. m = return x \<and> f x = return y"
  by (auto simp: and_then_def return_def split: option.splits sum.splits)

lemma derefD: "deref p f = return y \<Longrightarrow> \<exists>a. p = Some a \<and> f a = return y"
  by (auto simp: deref_def return_def split: option.splits)

lemma disciplined_exec:
  assumes "exec (pc th) th s = return (th', s')" "disciplined th"
  shows "disciplined th'"
  using assms
  by (cases "pc th")
    (auto simp: disciplined_def holding_def lock_order_append locks_held_append Let_def
      dest!: and_thenD derefD split: option.splits if_splits scan_mode.splits)


lemma step_returnD:
  assumes "step t c = return c'"
  shows "t < length (threads c) \<and>
    (\<exists>th' s'. exec (pc (threads c ! t)) (threads c ! t) (shared c) = return (th', s')
        \<and> c' = \<lparr>shared = s', threads = (threads c)[t := th']\<rparr>)"
proof -
  have t: "t < length (threads c)" using assms by (auto simp: step_def split: if_splits)
  then obtain x where x: "exec (pc (threads c ! t)) (threads c ! t) (shared c) = return x"
    and c': "(case x of (th, s) \<Rightarrow> return \<lparr>shared = s, threads = (threads c)[t := th]\<rparr>) = return c'"
    using assms and_thenD by (fastforce simp: step_def)
  show ?thesis using t x c' by (cases x) auto
qed

lemma disciplined_step:
  assumes "step t c = return c'" "\<forall>th\<in>set (threads c). disciplined th"
  shows "\<forall>th\<in>set (threads c'). disciplined th"
proof -
  obtain th' s' where t: "t < length (threads c)"
    and e: "exec (pc (threads c ! t)) (threads c ! t) (shared c) = return (th', s')"
    and c': "c' = \<lparr>shared = s', threads = (threads c)[t := th']\<rparr>"
    using step_returnD[OF assms(1)] by blast
  have "disciplined th'" using disciplined_exec[OF e] assms(2) t by simp
  then show ?thesis using assms(2) c' by (auto dest!: set_update_subset_insert[THEN subsetD])
qed

lemma disciplined_run:
  "run sched c = return c' \<Longrightarrow> \<forall>th\<in>set (threads c). disciplined th \<Longrightarrow> \<forall>th\<in>set (threads c'). disciplined th"
proof (induction sched arbitrary: c)
  case Nil
  then show ?case by simp
next
  case (Cons t sched)
  obtain c1 where 1: "step t c = return c1" and 2: "run sched c1 = return c'"
    using Cons.prems(1) and_thenD by fastforce
  show ?case using Cons.IH[OF 2 disciplined_step[OF 1 Cons.prems(2)]] .
qed

lemma disciplined_call: "disciplined (call_insert k v)" "disciplined (call_retrieve k)"
  by (simp_all add: disciplined_def holding_def call_insert_def call_retrieve_def)

section \<open>Chains under the steps of other threads\<close>

lemma chain_same_links:
  "same_links s s' \<Longrightarrow> chain (heap s) p as \<Longrightarrow> chain (heap s') p as"
proof (induction as arbitrary: p)
  case Nil
  then show ?case by simp
next
  case (Cons a as)
  then obtain e where e: "p = Some a" "heap s a = Some e" "chain (heap s) (next e) as"
    by (auto split: option.splits)
  then obtain e' where e': "heap s' a = Some e'" "next e' = next e"
    using Cons.prems(1) by (auto simp: same_links_def)
  show ?case using Cons.IH[OF Cons.prems(1) e(3)] e e' by simp
qed

lemma key_at_same_links:
  "same_links s s' \<Longrightarrow> heap s a = Some e \<Longrightarrow> key_at (heap s') a = key_at (heap s) a"
  unfolding same_links_def key_at_def by fastforce

lemma keys_same_links:
  assumes "same_links s s'" "chain (heap s) p as" "a \<in> set as"
  shows "key_at (heap s') a = key_at (heap s) a"
  using chain_live[OF assms(2,3)] key_at_same_links[OF assms(1)] by blast

lemma table_same_links: "same_links s s' \<Longrightarrow> table s' = table s"
  by (simp add: same_links_def)

lemma on_chain_same_links:
  assumes "same_links s s'" "on_chain s k p"
  shows "on_chain s' k p"
proof -
  obtain pre suf where c: "chain (heap s) (table s ! nat (slot k)) (pre @ suf)" "chain (heap s) p suf"
    and n: "\<forall>a\<in>set pre. key_at (heap s) a \<noteq> k"
    using assms(2) by (auto simp: on_chain_def)
  have "\<forall>a\<in>set pre. key_at (heap s') a \<noteq> k"
    using n keys_same_links[OF assms(1) c(1)] by simp
  then show ?thesis
    unfolding on_chain_def table_same_links[OF assms(1)]
    using chain_same_links[OF assms(1) c(1)] chain_same_links[OF assms(1) c(2)] by blast
qed

lemma found_same_links:
  assumes "same_links s s'" "found s k p"
  shows "found s' k p"
proof -
  obtain c as where c: "p = Some c" "key_at (heap s) c = k" "chain (heap s) (table s ! nat (slot k)) as" "c \<in> set as"
    using assms(2) by (auto simp: found_def)
  show ?thesis
    unfolding found_def table_same_links[OF assms(1)]
    using chain_same_links[OF assms(1) c(3)] keys_same_links[OF assms(1) c(3) c(4)] c by blast
qed

lemma present_same_links:
  assumes "same_links s s'" "present s k"
  shows "present s' k"
proof -
  obtain c as where c: "key_at (heap s) c = k" "chain (heap s) (table s ! nat (slot k)) as" "c \<in> set as"
    using assms(2) by (auto simp: present_def)
  show ?thesis
    unfolding present_def table_same_links[OF assms(1)]
    using chain_same_links[OF assms(1) c(2)] keys_same_links[OF assms(1) c(2) c(3)] c by blast
qed

lemma absent_same_links:
  assumes "same_links s s'" "absent s k"
  shows "absent s' k"
proof -
  obtain as where c: "chain (heap s) (table s ! nat (slot k)) as" "\<forall>a\<in>set as. key_at (heap s) a \<noteq> k"
    using assms(2) by (auto simp: absent_def)
  have "\<forall>a\<in>set as. key_at (heap s') a \<noteq> k"
    using c(2) keys_same_links[OF assms(1) c(1)] by simp
  then show ?thesis
    unfolding absent_def table_same_links[OF assms(1)]
    using chain_same_links[OF assms(1) c(1)] by blast
qed

lemma bucket_ok_same_links:
  assumes "same_links s s'" "bucket_ok (heap s) (table s) i as"
  shows "bucket_ok (heap s') (table s') i as"
proof -
  have c: "chain (heap s) (table s ! i) as" using assms(2) by (simp add: bucket_ok_def)
  have m: "map (key_at (heap s')) as = map (key_at (heap s)) as"
    using keys_same_links[OF assms(1) c] by simp
  show ?thesis
    unfolding bucket_ok_def m
    using assms(2) chain_same_links[OF assms(1) c] keys_same_links[OF assms(1) c]
    by (simp add: bucket_ok_def table_same_links[OF assms(1)])
qed

lemma table_ok_same_links:
  "same_links s s' \<Longrightarrow> table_ok s \<Longrightarrow> table_ok s'"
  unfolding table_ok_def using bucket_ok_same_links table_same_links by metis

section \<open>Counting the holders of a lock\<close>

lemma count_update:
  "t < length xs \<Longrightarrow>
   length (filter P (xs[t := x])) + (if P (xs ! t) then 1 else 0) = length (filter P xs) + (if P x then 1 else 0)"
proof (induction xs arbitrary: t)
  case Nil
  then show ?case by simp
next
  case (Cons a xs)
  then show ?case by (cases t) auto
qed

lemma count_zero: "length (filter P xs) = 0 \<Longrightarrow> u < length xs \<Longrightarrow> \<not> P (xs ! u)"
  by (auto simp: filter_empty_conv)

lemma count_one:
  assumes "length (filter P xs) \<le> 1" "P (xs ! t)" "t < length xs" "u < length xs" "u \<noteq> t"
  shows "\<not> P (xs ! u)"
proof
  assume u: "P (xs ! u)"
  have "length (filter P (take t xs @ drop (Suc t) xs)) + 1 = length (filter P xs)"
    using assms(2,3) by (subst (2) id_take_nth_drop[OF assms(3)]) simp
  then have "length (filter P (take t xs @ drop (Suc t) xs)) = 0" using assms(1) by linarith
  then have z: "\<forall>x\<in>set (take t xs @ drop (Suc t) xs). \<not> P x" by (auto simp: filter_empty_conv)
  have "xs ! u \<in> set (take t xs) \<union> set (drop (Suc t) xs)"
  proof (cases "u < t")
    case True
    then show ?thesis using assms(3) by (auto simp: in_set_conv_nth intro!: exI[of _ u])
  next
    case False
    then have "t < u" using assms(5) by simp
    then have "xs ! u = drop (Suc t) xs ! (u - Suc t)" using assms(4) by simp
    moreover have "u - Suc t < length (drop (Suc t) xs)" using assms(4) \<open>t < u\<close> by simp
    ultimately show ?thesis by (metis UnI2 nth_mem)
  qed
  then show False using z u by auto
qed

section \<open>What a step does to the shared state\<close>

lemma indexD: "index xs i = return x \<Longrightarrow> 0 \<le> i \<and> i < int (length xs) \<and> x = xs ! nat i"
  by (auto simp: index_def split: if_splits)

lemma rwlock_rdlockD:
  assumes "pthread_rwlock_rdlock i s = return s'"
  shows "0 \<le> i \<and> i < int (length (bucket_locks s))
    \<and> (bucket_locks s ! nat i = RW_Unlocked \<and> s' = s\<lparr>bucket_locks := (bucket_locks s)[nat i := RW_Readers 1]\<rparr>
       \<or> (\<exists>n. bucket_locks s ! nat i = RW_Readers n \<and> s' = s\<lparr>bucket_locks := (bucket_locks s)[nat i := RW_Readers (Suc n)]\<rparr>))"
  using assms
  by (auto simp: pthread_rwlock_rdlock_def index_def and_then_def return_def split: if_splits rwlock.splits)

lemma rwlock_wrlockD:
  assumes "pthread_rwlock_wrlock i s = return s'"
  shows "0 \<le> i \<and> i < int (length (bucket_locks s))
    \<and> bucket_locks s ! nat i = RW_Unlocked \<and> s' = s\<lparr>bucket_locks := (bucket_locks s)[nat i := RW_Writer]\<rparr>"
  using assms
  by (auto simp: pthread_rwlock_wrlock_def index_def and_then_def return_def split: if_splits rwlock.splits)

lemma rwlock_unlockD:
  assumes "pthread_rwlock_unlock i s = return s'"
  shows "0 \<le> i \<and> i < int (length (bucket_locks s))
    \<and> (bucket_locks s ! nat i = RW_Writer \<and> s' = s\<lparr>bucket_locks := (bucket_locks s)[nat i := RW_Unlocked]\<rparr>
       \<or> (\<exists>n. bucket_locks s ! nat i = RW_Readers n
             \<and> s' = s\<lparr>bucket_locks := (bucket_locks s)[nat i := (if n \<le> 1 then RW_Unlocked else RW_Readers (n - 1))]\<rparr>))"
  using assms
  by (auto simp: pthread_rwlock_unlock_def index_def and_then_def return_def split: if_splits rwlock.splits)


lemma rdlock_bucketD:
  assumes "rdlock_bucket i s = return s'"
  shows "heap s' = heap s \<and> table s' = table s \<and> mem_cells s' = mem_cells s
    \<and> 0 \<le> i \<and> i < int (length (bucket_locks s))
    \<and> (bucket_locks s ! nat i = RW_Unlocked \<and> bucket_locks s' = (bucket_locks s)[nat i := RW_Readers 1]
       \<or> (\<exists>n. bucket_locks s ! nat i = RW_Readers n \<and> bucket_locks s' = (bucket_locks s)[nat i := RW_Readers (Suc n)]))"
proof -
  obtain s1 where 1: "pthread_rwlock_rdlock i s = return s1" and 2: "s' = s1\<lparr>lock_log := lock_log s1 @ [Acquire_Bucket i]\<rparr>"
    using assms by (auto simp: rdlock_bucket_def logged_def and_then_def return_def split: option.splits sum.splits)
  show ?thesis using rwlock_rdlockD[OF 1] 2 by auto
qed

lemma wrlock_bucketD:
  assumes "wrlock_bucket i s = return s'"
  shows "heap s' = heap s \<and> table s' = table s \<and> mem_cells s' = mem_cells s
    \<and> 0 \<le> i \<and> i < int (length (bucket_locks s))
    \<and> bucket_locks s ! nat i = RW_Unlocked \<and> bucket_locks s' = (bucket_locks s)[nat i := RW_Writer]"
proof -
  obtain s1 where 1: "pthread_rwlock_wrlock i s = return s1" and 2: "s' = s1\<lparr>lock_log := lock_log s1 @ [Acquire_Bucket i]\<rparr>"
    using assms by (auto simp: wrlock_bucket_def logged_def and_then_def return_def split: option.splits sum.splits)
  show ?thesis using rwlock_wrlockD[OF 1] 2 by auto
qed

lemma unlock_bucketD:
  assumes "unlock_bucket i s = return s'"
  shows "heap s' = heap s \<and> table s' = table s \<and> mem_cells s' = mem_cells s
    \<and> 0 \<le> i \<and> i < int (length (bucket_locks s))
    \<and> (bucket_locks s ! nat i = RW_Writer \<and> bucket_locks s' = (bucket_locks s)[nat i := RW_Unlocked]
       \<or> (\<exists>n. bucket_locks s ! nat i = RW_Readers n
             \<and> bucket_locks s' = (bucket_locks s)[nat i := (if n \<le> 1 then RW_Unlocked else RW_Readers (n - 1))]))"
proof -
  obtain s1 where 1: "pthread_rwlock_unlock i s = return s1" and 2: "s' = s1\<lparr>lock_log := lock_log s1 @ [Release_Bucket i]\<rparr>"
    using assms by (auto simp: unlock_bucket_def logged_def and_then_def return_def split: option.splits sum.splits)
  show ?thesis using rwlock_unlockD[OF 1] unfolding 2 by (elim conjE disjE exE) simp_all
qed

lemma mutex_lockD:
  assumes "pthread_mutex_lock p s = return s'"
  shows "\<exists>e. heap s p = Some e \<and> entry_mutex e = Mutex_Unlocked
    \<and> heap s' = (heap s)(p \<mapsto> e\<lparr>entry_mutex := Mutex_Locked\<rparr>)
    \<and> table s' = table s \<and> mem_cells s' = mem_cells s \<and> bucket_locks s' = bucket_locks s"
  using assms
  by (auto simp: pthread_mutex_lock_def logged_def return_def split: option.splits mutex.splits)

lemma mutex_unlockD:
  assumes "pthread_mutex_unlock p s = return s'"
  shows "\<exists>e. heap s p = Some e \<and> entry_mutex e = Mutex_Locked
    \<and> heap s' = (heap s)(p \<mapsto> e\<lparr>entry_mutex := Mutex_Unlocked\<rparr>)
    \<and> table s' = table s \<and> mem_cells s' = mem_cells s \<and> bucket_locks s' = bucket_locks s"
  using assms
  by (auto simp: pthread_mutex_unlock_def logged_def return_def split: option.splits mutex.splits)

lemma store_valD:
  assumes "store_val p v s = return s'"
  shows "\<exists>e. heap s p = Some e \<and> s' = s\<lparr>heap := (heap s)(p \<mapsto> e\<lparr>val := v\<rparr>)\<rparr>"
  using assms by (auto simp: store_val_def return_def split: option.splits)

lemma loadD: "load p s = return e \<Longrightarrow> heap s p = Some e"
  by (auto simp: load_def return_def split: option.splits)

lemmas exec_inversion = and_thenD derefD indexD rdlock_bucketD wrlock_bucketD unlock_bucketD
  mutex_lockD mutex_unlockD store_valD loadD

lemma exec_same_links:
  assumes "exec (pc th) th s = return (th', s')" "pc th \<noteq> Insert_Publish"
  shows "same_links s s'"
  using assms
  by (cases "pc th")
    (auto simp: same_links_def dest!: exec_inversion malloc_fresh split: option.splits if_splits)

lemma exec_same_vals:
  assumes "exec (pc th) th s = return (th', s')" "pc th \<noteq> Insert_Publish" "\<forall>m. pc th \<noteq> Insert_Store m"
    "heap s a = Some e"
  shows "val_at (heap s') a = val e"
  using assms
  by (cases "pc th")
    (auto simp: val_at_def dest!: exec_inversion malloc_fresh split: option.splits if_splits)

lemma exec_args:
  assumes "exec (pc th) th s = return (th', s')"
  shows "key_arg th' = key_arg th \<and> val_arg th' = val_arg th"
  using assms
  by (cases "pc th") (auto dest!: exec_inversion split: option.splits if_splits)

section \<open>The lock of the bucket and its holders\<close>


lemma reading_not_writing: "reading th \<Longrightarrow> \<not> writing th"
  by (auto simp: reading_def writing_def)

lemma count_same:
  assumes "t < length ths" "P th' = P (ths ! t)"
  shows "length (filter P (ths[t := th'])) = length (filter P ths)"
  using count_update[OF assms(1), of P th'] assms(2) by simp

lemma lock_inv_same:
  assumes "lock_inv ths l" "t < length ths" "reading th' = reading (ths ! t)" "writing th' = writing (ths ! t)"
  shows "lock_inv (ths[t := th']) l"
  using assms(1) unfolding lock_inv_def count_same[OF assms(2), of reading, OF assms(3)]
    count_same[OF assms(2), of writing, OF assms(4)] .

lemma lock_inv_rdlock:
  assumes "lock_inv ths l" "t < length ths" "\<not> reading (ths ! t)" "\<not> writing (ths ! t)"
    "reading th'" "\<not> writing th'"
    "l = RW_Unlocked \<and> l' = RW_Readers 1 \<or> (\<exists>n. l = RW_Readers n \<and> l' = RW_Readers (Suc n))"
  shows "lock_inv (ths[t := th']) l'"
proof -
  have r: "length (filter reading (ths[t := th'])) = Suc (length (filter reading ths))"
    using count_update[OF assms(2), of reading th'] assms(3,5) by simp
  have w: "length (filter writing (ths[t := th'])) = length (filter writing ths)"
    using count_update[OF assms(2), of writing th'] assms(4,6) by simp
  show ?thesis
    using assms(1,7) unfolding lock_inv_def r w
    by (auto simp: rw_of_def split: if_splits)
qed

lemma lock_inv_wrlock:
  assumes "lock_inv ths l" "t < length ths" "\<not> reading (ths ! t)" "\<not> writing (ths ! t)"
    "\<not> reading th'" "writing th'" "l = RW_Unlocked" "l' = RW_Writer"
  shows "lock_inv (ths[t := th']) l'"
proof -
  have r: "length (filter reading (ths[t := th'])) = length (filter reading ths)"
    using count_update[OF assms(2), of reading th'] assms(3,5) by simp
  have w: "length (filter writing (ths[t := th'])) = Suc (length (filter writing ths))"
    using count_update[OF assms(2), of writing th'] assms(4,6) by simp
  show ?thesis
    using assms(1,7,8) unfolding lock_inv_def r w
    by (auto simp: rw_of_def split: if_splits)
qed

lemma lock_inv_unlock:
  assumes "lock_inv ths l" "t < length ths" "reading (ths ! t) \<or> writing (ths ! t)"
    "\<not> reading th'" "\<not> writing th'"
    "l = RW_Writer \<and> l' = RW_Unlocked
     \<or> (\<exists>n. l = RW_Readers n \<and> l' = (if n \<le> 1 then RW_Unlocked else RW_Readers (n - 1)))"
  shows "lock_inv (ths[t := th']) l'"
proof (cases "reading (ths ! t)")
  case True
  then have nw: "\<not> writing (ths ! t)" by (rule reading_not_writing)
  have r: "Suc (length (filter reading (ths[t := th']))) = length (filter reading ths)"
    using count_update[OF assms(2), of reading th'] True assms(4) by simp
  have w: "length (filter writing (ths[t := th'])) = length (filter writing ths)"
    using count_update[OF assms(2), of writing th'] nw assms(5) by simp
  have w0: "length (filter writing ths) = 0"
    using assms(1) r unfolding lock_inv_def by (metis Zero_not_Suc not_gr_zero)
  have l: "l = RW_Readers (Suc (length (filter reading (ths[t := th']))))"
    using assms(1) w0 unfolding lock_inv_def r[symmetric] by (simp add: rw_of_def)
  have "l' = rw_of (length (filter reading (ths[t := th']))) 0"
    using assms(6) unfolding l by (simp add: rw_of_def)
  then show ?thesis
    unfolding lock_inv_def w w0 by simp
next
  case False
  then have wr: "writing (ths ! t)" using assms(3) by simp
  have r: "length (filter reading (ths[t := th'])) = length (filter reading ths)"
    using count_update[OF assms(2), of reading th'] False assms(4) by simp
  have w: "Suc (length (filter writing (ths[t := th']))) = length (filter writing ths)"
    using count_update[OF assms(2), of writing th'] wr assms(5) by simp
  have w1: "length (filter writing ths) = 1" "length (filter reading ths) = 0"
    using assms(1) w unfolding lock_inv_def by auto
  have w0: "length (filter writing (ths[t := th'])) = 0" using w w1 by simp
  have l: "l = RW_Writer" using assms(1) w1 unfolding lock_inv_def by (simp add: rw_of_def)
  show ?thesis
    using assms(6) unfolding lock_inv_def r w0 w1 l
    by (auto simp: rw_of_def)
qed

lemma lock_inv_writer_excludes:
  assumes "lock_inv ths l" "u < length ths" "writing (ths ! u)" "t < length ths" "t \<noteq> u"
  shows "\<not> writing (ths ! t) \<and> \<not> reading (ths ! t) \<and> l = RW_Writer"
proof -
  have pos: "0 < length (filter writing ths)"
    using assms(2,3) by (metis count_zero not_gr_zero)
  then have "length (filter reading ths) = 0" "length (filter writing ths) \<le> 1" "l = RW_Writer"
    using assms(1) unfolding lock_inv_def by (auto simp: rw_of_def)
  then show ?thesis
    using count_zero[of reading ths t] count_one[of writing ths u t] assms by auto
qed

lemma lock_inv_init:
  assumes "\<forall>th\<in>set ths. \<not> reading th \<and> \<not> writing th"
  shows "lock_inv ths RW_Unlocked"
proof -
  have "filter reading ths = []" "filter writing ths = []" using assms by (auto simp: filter_empty_conv)
  then show ?thesis by (simp add: lock_inv_def rw_of_def)
qed

lemma lock_inv_quiet:
  assumes "lock_inv ths l" "\<forall>th\<in>set ths. \<not> reading th \<and> \<not> writing th"
  shows "l = RW_Unlocked"
proof -
  have "filter reading ths = []" "filter writing ths = []" using assms(2) by (auto simp: filter_empty_conv)
  then show ?thesis using assms(1) by (simp add: lock_inv_def rw_of_def)
qed

section \<open>The scan and the new entry\<close>

lemma chain_None [simp]: "chain h None as = (as = [])"
  by (cases as) auto

lemma chain_Some:
  "chain h (Some a) as = (\<exists>e bs. as = a # bs \<and> h a = Some e \<and> chain h (next e) bs)"
  by (cases as) (auto split: option.splits)

lemma on_chain_head:
  assumes "table_ok s" "0 \<le> slot k"
  shows "on_chain s k (table s ! nat (slot k))"
proof -
  obtain as where "chain (heap s) (table s ! nat (slot k)) as"
    using wf_chain[OF assms] by (auto simp: bucket_ok_def)
  then have "chain (heap s) (table s ! nat (slot k)) ([] @ as) \<and> chain (heap s) (table s ! nat (slot k)) as
      \<and> (\<forall>a\<in>set []. key_at (heap s) a \<noteq> k)" by simp
  then show ?thesis unfolding on_chain_def by blast
qed

lemma on_chain_end: "on_chain s k None \<Longrightarrow> absent s k"
  by (auto simp: on_chain_def absent_def)

lemma on_chain_match:
  assumes "on_chain s k (Some a)" "heap s a = Some e" "key e = k"
  shows "found s k (Some a)"
proof -
  obtain pre suf where c: "chain (heap s) (table s ! nat (slot k)) (pre @ suf)" "chain (heap s) (Some a) suf"
    using assms(1) by (auto simp: on_chain_def)
  then have "a \<in> set (pre @ suf)" by (auto simp: chain_Some)
  moreover have "key_at (heap s) a = k" using assms(2,3) by (simp add: key_at_def)
  ultimately show ?thesis using c(1) unfolding found_def by blast
qed

lemma on_chain_next:
  assumes "on_chain s k (Some a)" "heap s a = Some e" "key e \<noteq> k"
  shows "on_chain s k (next e)"
proof -
  obtain pre suf where c: "chain (heap s) (table s ! nat (slot k)) (pre @ suf)" "chain (heap s) (Some a) suf"
    and n: "\<forall>a\<in>set pre. key_at (heap s) a \<noteq> k"
    using assms(1) by (auto simp: on_chain_def)
  obtain bs where bs: "suf = a # bs" "chain (heap s) (next e) bs"
    using c(2) assms(2) by (auto simp: chain_Some)
  have "chain (heap s) (table s ! nat (slot k)) ((pre @ [a]) @ bs)" using c(1) bs(1) by simp
  moreover have "\<forall>b\<in>set (pre @ [a]). key_at (heap s) b \<noteq> k"
    using n assms(2,3) by (auto simp: key_at_def)
  ultimately show ?thesis using bs(2) unfolding on_chain_def by blast
qed

lemma found_present: "found s k p \<Longrightarrow> present s k"
  by (auto simp: found_def present_def)

lemma absent_not_present: "absent s k \<Longrightarrow> present s k \<Longrightarrow> False"
  using chain_unique by (fastforce simp: absent_def present_def)

text \<open>\<open>table[i] = e\<close> for a cell that is ready: the chain of the bucket grows at its head.\<close>

lemma publish_chain:
  assumes "0 \<le> slot k" "nat (slot k) < length (table s)" "chain (heap s) (table s ! nat (slot k)) as"
    "heap s e = Some x" "next x = table s ! nat (slot k)"
  shows "chain (heap s) ((table s)[nat (slot k) := Some e] ! nat (slot k)) (e # as)"
  using assms by simp

lemma publish_present:
  assumes "table_ok s" "0 \<le> slot k" "absent s k" "heap s e = Some x" "key x = k" "next x = table s ! nat (slot k)"
  shows "present (s\<lparr>table := (table s)[nat (slot k) := Some e]\<rparr>) k"
proof -
  obtain as where as: "chain (heap s) (table s ! nat (slot k)) as" using assms(3) by (auto simp: absent_def)
  have l: "nat (slot k) < length (table s)" using assms(1,2) slot_less[of k] by (simp add: table_ok_def)
  have "chain (heap s) ((table s)[nat (slot k) := Some e] ! nat (slot k)) (e # as)"
    using publish_chain[OF assms(2) l as assms(4,6)] .
  moreover have "key_at (heap s) e = k" using assms(4,5) by (simp add: key_at_def)
  ultimately show ?thesis unfolding present_def by (intro exI[of _ e] exI[of _ "e # as"]) simp
qed

lemma publish_table_ok:
  assumes "table_ok s" "0 \<le> slot k" "absent s k" "heap s e = Some x" "key x = k" "next x = table s ! nat (slot k)"
  shows "table_ok (s\<lparr>table := (table s)[nat (slot k) := Some e]\<rparr>)"
proof -
  obtain as where as: "chain (heap s) (table s ! nat (slot k)) as" and n: "\<forall>a\<in>set as. key_at (heap s) a \<noteq> k"
    using assms(3) by (auto simp: absent_def)
  have l: "nat (slot k) < length (table s)" "length (table s) = 5"
    using assms(1,2) slot_less[of k] by (simp_all add: table_ok_def)
  have b: "bucket_ok (heap s) (table s) (nat (slot k)) as" using wf_bucket[OF assms(1,2) as] .
  have ke: "key_at (heap s) e = k" using assms(4,5) by (simp add: key_at_def)
  have new: "bucket_ok (heap s) ((table s)[nat (slot k) := Some e]) (nat (slot k)) (e # as)"
    unfolding bucket_ok_def
  proof (intro conjI)
    show "chain (heap s) ((table s)[nat (slot k) := Some e] ! nat (slot k)) (e # as)"
      using publish_chain[OF assms(2) l(1) as assms(4,6)] .
    show "\<forall>a\<in>set (e # as). slot (key_at (heap s) a) = int (nat (slot k))"
      using b ke assms(2) by (simp add: bucket_ok_def)
    show "distinct (map (key_at (heap s)) (e # as))"
      using b ke n by (auto simp: bucket_ok_def)
  qed
  have "\<exists>bs. bucket_ok (heap s) ((table s)[nat (slot k) := Some e]) j bs" if j: "j < 5" for j
  proof (cases "j = nat (slot k)")
    case True
    then show ?thesis using new by blast
  next
    case False
    obtain bs where "bucket_ok (heap s) (table s) j bs" using assms(1) j by (auto simp: table_ok_def)
    then have "bucket_ok (heap s) ((table s)[nat (slot k) := Some e]) j bs"
      using False by (simp add: bucket_ok_def)
    then show ?thesis by blast
  qed
  then show ?thesis using l by (simp add: table_ok_def)
qed

lemma publish_values:
  assumes "table_ok s" "0 \<le> slot k" "absent s k" "heap s e = Some x" "key x = k" "val x \<in> V"
    "next x = table s ! nat (slot k)"
  shows "values_in (s\<lparr>table := (table s)[nat (slot k) := Some e]\<rparr>) k V"
proof -
  obtain as where as: "chain (heap s) (table s ! nat (slot k)) as" and n: "\<forall>a\<in>set as. key_at (heap s) a \<noteq> k"
    using assms(3) by (auto simp: absent_def)
  have l: "nat (slot k) < length (table s)" using assms(1,2) slot_less[of k] by (simp add: table_ok_def)
  have c: "chain (heap s) ((table s)[nat (slot k) := Some e] ! nat (slot k)) (e # as)"
    using publish_chain[OF assms(2) l as assms(4,7)] .
  have "val_at (heap s) a \<in> V"
    if "chain (heap s) ((table s)[nat (slot k) := Some e] ! nat (slot k)) bs" "a \<in> set bs" "key_at (heap s) a = k"
    for bs a
  proof -
    have "bs = e # as" using chain_unique[OF that(1) c] .
    then have "a = e" using that(2,3) n by auto
    then show ?thesis using assms(4,6) by (simp add: val_at_def)
  qed
  then show ?thesis unfolding values_in_def by simp
qed

text \<open>The values under a step that leaves the chains and the values of the live cells alone.\<close>

lemma values_same:
  assumes "same_links s s'" "\<forall>a e. heap s a = Some e \<longrightarrow> val_at (heap s') a = val e"
    "table_ok s" "0 \<le> slot k" "values_in s k V"
  shows "values_in s' k V"
proof -
  obtain as where as: "chain (heap s) (table s ! nat (slot k)) as"
    using wf_chain[OF assms(3,4)] by (auto simp: bucket_ok_def)
  have as': "chain (heap s') (table s' ! nat (slot k)) as"
    using chain_same_links[OF assms(1) as] table_same_links[OF assms(1)] by simp
  have "val_at (heap s') a \<in> V"
    if "chain (heap s') (table s' ! nat (slot k)) bs" "a \<in> set bs" "key_at (heap s') a = k" for bs a
  proof -
    have a: "a \<in> set as" using chain_unique[OF that(1) as'] that(2) by simp
    obtain e where e: "heap s a = Some e" using chain_live[OF as a] by blast
    have "key_at (heap s) a = k" using keys_same_links[OF assms(1) as a] that(3) by simp
    then have "val_at (heap s) a \<in> V" using assms(5) as a by (auto simp: values_in_def)
    then show ?thesis using assms(2) e by (simp add: val_at_def)
  qed
  then show ?thesis unfolding values_in_def by blast
qed

text \<open>The values under \<open>current->val = val\<close>.\<close>

lemma values_store:
  assumes "table_ok s" "0 \<le> slot k" "values_in s k V" "heap s c = Some e" "v \<in> V"
  shows "values_in (s\<lparr>heap := (heap s)(c \<mapsto> e\<lparr>val := v\<rparr>)\<rparr>) k V"
proof -
  let ?h = "(heap s)(c \<mapsto> e\<lparr>val := v\<rparr>)"
  have ch: "chain ?h p bs = chain (heap s) p bs" for p bs
    using chain_same_next[of "heap s" c e "e\<lparr>val := v\<rparr>" p bs] assms(4) by simp
  have k: "key_at ?h = key_at (heap s)" using key_at_upd_val[of "heap s" c e v] assms(4) by simp
  have "val_at ?h a \<in> V" if "chain (heap s) (table s ! nat (slot k)) bs" "a \<in> set bs" "key_at (heap s) a = k" for bs a
  proof (cases "a = c")
    case True
    then show ?thesis using assms(5) by (simp add: val_at_def)
  next
    case False
    then have "val_at ?h a = val_at (heap s) a" by (simp add: val_at_def)
    then show ?thesis using assms(3) that by (auto simp: values_in_def)
  qed
  then show ?thesis unfolding values_in_def by (simp add: ch k)
qed

section \<open>One step of a thread keeps the invariant\<close>

lemma and_then_returnD:
  "and_then m (\<lambda>s. return (x, s)) = return (y, s') \<Longrightarrow> y = x \<and> m = return s'"
  by (auto simp: and_then_def return_def split: option.splits sum.splits)

lemma exec_locks_same:
  assumes "exec (pc th) th s = return (th', s')" "\<not> lock_step (pc th)"
  shows "bucket_locks s' = bucket_locks s \<and> reading th' = reading th \<and> writing th' = writing th"
  using assms
  by (cases "pc th")
    (auto simp: reading_def writing_def lock_step_def dest!: and_thenD derefD indexD mutex_lockD mutex_unlockD store_valD loadD
       split: option.splits if_splits scan_mode.splits)

lemma exec_locks_length:
  assumes "exec (pc th) th s = return (th', s')"
  shows "length (bucket_locks s') = length (bucket_locks s)"
  using assms
  by (cases "pc th")
    (auto dest!: exec_inversion split: option.splits if_splits)

lemma exec_lock_inv:
  assumes e: "exec (pc th) th s = return (th', s')"
    and l: "lock_inv ths (bucket_locks s ! nat (slot (key_arg th)))"
    and t: "t < length ths" "ths ! t = th"
  shows "lock_inv (ths[t := th']) (bucket_locks s' ! nat (slot (key_arg th)))"
proof (cases "lock_step (pc th)")
  case False
  show ?thesis using exec_locks_same[OF e False] lock_inv_same[OF l t(1)] t(2) by simp
next
  case True
  let ?i = "slot (key_arg th)"
  have rd: ?thesis
    if "rdlock_bucket ?i s = return s'" "\<not> reading th" "\<not> writing th" "reading th'" "\<not> writing th'"
  proof -
    note d = rdlock_bucketD[OF that(1)]
    have "bucket_locks s ! nat ?i = RW_Unlocked \<and> bucket_locks s' ! nat ?i = RW_Readers 1
       \<or> (\<exists>n. bucket_locks s ! nat ?i = RW_Readers n \<and> bucket_locks s' ! nat ?i = RW_Readers (Suc n))"
      using d by auto
    then show ?thesis using lock_inv_rdlock[OF l t(1)] that t(2) by blast
  qed
  have wr: ?thesis
    if "wrlock_bucket ?i s = return s'" "\<not> reading th" "\<not> writing th" "\<not> reading th'" "writing th'"
  proof -
    note d = wrlock_bucketD[OF that(1)]
    have "bucket_locks s ! nat ?i = RW_Unlocked" "bucket_locks s' ! nat ?i = RW_Writer"
      using d by auto
    then show ?thesis using lock_inv_wrlock[OF l t(1)] that t(2) by blast
  qed
  have un: ?thesis
    if "unlock_bucket ?i s = return s'" "reading th \<or> writing th" "\<not> reading th'" "\<not> writing th'"
  proof -
    note d = unlock_bucketD[OF that(1)]
    have "bucket_locks s ! nat ?i = RW_Writer \<and> bucket_locks s' ! nat ?i = RW_Unlocked
       \<or> (\<exists>n. bucket_locks s ! nat ?i = RW_Readers n
             \<and> bucket_locks s' ! nat ?i = (if n \<le> 1 then RW_Unlocked else RW_Readers (n - 1)))"
      using d by (elim conjE disjE exE) simp_all
    then show ?thesis using lock_inv_unlock[OF l t(1)] that t(2) by blast
  qed
  show ?thesis
  proof (cases "pc th")
    case Insert_Rdlock
    then show ?thesis using e by (intro rd) (auto simp: reading_def writing_def dest!: and_then_returnD)
  next
    case (Insert_Unlock_Return m)
    then show ?thesis using e by (intro un) (auto simp: reading_def writing_def dest!: and_then_returnD intro: scan_mode.exhaust)
  next
    case Insert_Unlock_Shared
    then show ?thesis using e by (intro un) (auto simp: reading_def writing_def dest!: and_then_returnD)
  next
    case Insert_Wrlock
    then show ?thesis using e by (intro wr) (auto simp: reading_def writing_def dest!: and_then_returnD)
  next
    case Insert_Fail_Unlock
    then show ?thesis using e by (intro un) (auto simp: reading_def writing_def dest!: and_then_returnD)
  next
    case Insert_Unlock_Exclusive
    then show ?thesis using e by (intro un) (auto simp: reading_def writing_def dest!: and_then_returnD)
  next
    case Retrieve_Rdlock
    then show ?thesis using e by (intro rd) (auto simp: reading_def writing_def dest!: and_then_returnD)
  next
    case Retrieve_Fail_Unlock
    then show ?thesis using e by (intro un) (auto simp: reading_def writing_def dest!: and_then_returnD)
  next
    case Retrieve_Unlock_Found
    then show ?thesis using e by (intro un) (auto simp: reading_def writing_def dest!: and_then_returnD)
  next
    case Retrieve_Unlock_Null
    then show ?thesis using e by (intro un) (auto simp: reading_def writing_def dest!: and_then_returnD)
  qed (use True in \<open>simp_all add: lock_step_def\<close>)
qed

lemma race_local_same_links:
  assumes "same_links s s'" "race_local k V s u" "pc u \<noteq> Insert_Publish"
  shows "race_local k V s' u"
  using assms(2,3) on_chain_same_links[OF assms(1)] found_same_links[OF assms(1)]
    present_same_links[OF assms(1)] absent_same_links[OF assms(1)]
  by (cases "pc u") (auto simp: race_local_def)

lemma exec_blocked:
  assumes "exec (pc th) th s = return (th', s')" "race_local k V s th" "\<not> reading th" "\<not> writing th"
  shows "bucket_locks s ! nat (slot k) \<noteq> RW_Writer"
proof (cases "pc th")
  case Insert_Rdlock
  then have "rdlock_bucket (slot (key_arg th)) s = return s'"
    using assms(1) by (auto dest!: and_then_returnD)
  then show ?thesis using rdlock_bucketD assms(2) by (fastforce simp: race_local_def)
next
  case Insert_Wrlock
  then have "wrlock_bucket (slot (key_arg th)) s = return s'"
    using assms(1) by (auto dest!: and_then_returnD)
  then show ?thesis using wrlock_bucketD assms(2) by (fastforce simp: race_local_def)
qed (use assms in \<open>auto simp: race_local_def reading_def writing_def intro: scan_mode.exhaust\<close>)

lemma exec_local:
  assumes e: "exec (pc th) th s = return (th', s')" and loc: "race_local k V s th"
    and ok: "table_ok s" and sl: "0 \<le> slot k"
  shows "race_local k V s' th'"
proof -
  have k: "key_arg th = k" and v: "val_arg th \<in> V" using loc by (simp_all add: race_local_def)
  have args: "key_arg th' = k" "val_arg th' \<in> V" using exec_args[OF e] k v by simp_all
  note links = exec_same_links[OF e]
  show ?thesis
  proof (cases "pc th")
    case Insert_Rdlock
    then have "pc th' = Insert_Head Shared_Scan" using e by (auto dest!: and_then_returnD)
    then show ?thesis using args by (simp add: race_local_def)
  next
    case (Insert_Head m)
    then have "pc th' = Insert_Loop m \<and> current th' = table s ! nat (slot k) \<and> s' = s"
      using e k by (auto dest!: and_thenD indexD)
    then show ?thesis using args on_chain_head[OF ok sl] by (simp add: race_local_def)
  next
    case (Insert_Loop m)
    have oc: "on_chain s k (current th)" using loc Insert_Loop by (simp add: race_local_def)
    show ?thesis
    proof (cases "current th")
      case None
      then have "s' = s" "pc th' = (case m of Shared_Scan \<Rightarrow> Insert_Unlock_Shared | Exclusive_Scan \<Rightarrow> Insert_Malloc)"
        using e Insert_Loop by auto
      then show ?thesis using args on_chain_end oc None by (cases m) (simp_all add: race_local_def)
    next
      case (Some a)
      then obtain x where x: "heap s a = Some x"
        using e Insert_Loop by (cases "heap s a") (auto simp: load_def)
      have ld: "load a s = return x" using x by (simp add: load_def)
      show ?thesis
      proof (cases "key x = k")
        case True
        then have "th' = th\<lparr>pc := Insert_Mutex_Lock m\<rparr>" "s' = s" using e Insert_Loop Some ld k by simp_all
        then show ?thesis using args on_chain_match[OF _ x True] oc Some by (simp add: race_local_def)
      next
        case False
        then have "th' = th\<lparr>current := next x\<rparr>" "s' = s" using e Insert_Loop Some ld k by simp_all
        then show ?thesis using args on_chain_next[OF _ x False] oc Some Insert_Loop by (simp add: race_local_def)
      qed
    qed
  next
    case (Insert_Mutex_Lock m)
    then have "pc th' = Insert_Store m \<and> current th' = current th"
      using e by (auto dest!: derefD and_then_returnD)
    moreover have "found s' k (current th)"
      using found_same_links[OF links] loc Insert_Mutex_Lock by (simp add: race_local_def)
    ultimately show ?thesis using args by (simp add: race_local_def)
  next
    case (Insert_Store m)
    then have "pc th' = Insert_Mutex_Unlock m \<and> current th' = current th"
      using e by (auto dest!: derefD and_then_returnD)
    moreover have "found s' k (current th)"
      using found_same_links[OF links] loc Insert_Store by (simp add: race_local_def)
    ultimately show ?thesis using args by (simp add: race_local_def)
  next
    case (Insert_Mutex_Unlock m)
    then have "pc th' = Insert_Unlock_Return m"
      using e by (auto dest!: derefD and_then_returnD)
    moreover have "present s' k"
      using present_same_links[OF links] found_present loc Insert_Mutex_Unlock by (auto simp: race_local_def)
    ultimately show ?thesis using args by (simp add: race_local_def)
  next
    case (Insert_Unlock_Return m)
    then have "pc th' = Returned" using e by (auto dest!: and_then_returnD)
    moreover have "present s' k"
      using present_same_links[OF links] loc Insert_Unlock_Return by (simp add: race_local_def)
    ultimately show ?thesis using args by (simp add: race_local_def)
  next
    case Insert_Unlock_Shared
    then have "pc th' = Insert_Wrlock" using e by (auto dest!: and_then_returnD)
    then show ?thesis using args by (simp add: race_local_def)
  next
    case Insert_Wrlock
    then have "pc th' = Insert_Head Exclusive_Scan" using e by (auto dest!: and_then_returnD)
    then show ?thesis using args by (simp add: race_local_def)
  next
    case Insert_Malloc
    have ab: "absent s' k" using absent_same_links[OF links] loc Insert_Malloc by (simp add: race_local_def)
    show ?thesis
    proof (cases "malloc s")
      case None
      then have "pc th' = Insert_Fail_Unlock" using e Insert_Malloc by auto
      then show ?thesis using args by (simp add: race_local_def)
    next
      case (Some a)
      then have "th' = th\<lparr>pc := Insert_Publish, allocated := Some a\<rparr>
          \<and> s' = s\<lparr>heap := (heap s)(a \<mapsto> \<lparr>key = k, val = val_arg th, next = table s ! nat (slot k),
                                             entry_mutex = Mutex_Unlocked\<rparr>)\<rparr>"
        using e Insert_Malloc k by (auto dest!: and_thenD indexD)
      then show ?thesis using args ab by (simp add: race_local_def)
    qed
  next
    case Insert_Fail_Unlock
    then have "pc th' = Insert_Panic" using e by (auto dest!: and_then_returnD)
    then show ?thesis using args by (simp add: race_local_def)
  next
    case Insert_Panic
    then show ?thesis using e by simp
  next
    case Insert_Publish
    then obtain a where a: "allocated th = Some a"
      "heap s a = Some \<lparr>key = k, val = val_arg th, next = table s ! nat (slot k), entry_mutex = Mutex_Unlocked\<rparr>"
      and ab: "absent s k"
      using loc by (auto simp: race_local_def)
    have "pc th' = Insert_Unlock_Exclusive" "s' = s\<lparr>table := (table s)[nat (slot k) := Some a]\<rparr>"
      using e Insert_Publish k a(1) by (auto split: if_splits)
    then show ?thesis using args publish_present[OF ok sl ab a(2)] by (simp add: race_local_def)
  next
    case Insert_Unlock_Exclusive
    then have "pc th' = Returned" using e by (auto dest!: and_then_returnD)
    moreover have "present s' k"
      using present_same_links[OF links] loc Insert_Unlock_Exclusive by (simp add: race_local_def)
    ultimately show ?thesis using args by (simp add: race_local_def)
  next
    case Returned
    then show ?thesis using e by simp
  qed (use loc in \<open>simp_all add: race_local_def\<close>)
qed

lemma race_step:
  assumes inv: "race_inv k V c" and sl: "0 \<le> slot k" and st: "step t c = return c'"
  shows "race_inv k V c'"
proof -
  obtain th' s' where t: "t < length (threads c)"
    and e: "exec (pc (threads c ! t)) (threads c ! t) (shared c) = return (th', s')"
    and c': "c' = \<lparr>shared = s', threads = (threads c)[t := th']\<rparr>"
    using step_returnD[OF st] by blast
  let ?th = "threads c ! t" and ?s = "shared c" and ?ths = "threads c"
  have ok: "table_ok ?s" and len: "length (bucket_locks ?s) = 5"
    and li: "lock_inv ?ths (bucket_locks ?s ! nat (slot k))" and vals: "values_in ?s k V"
    and locs: "\<forall>th\<in>set ?ths. race_local k V ?s th"
    using inv by (simp_all add: race_inv_def)
  have loc: "race_local k V ?s ?th" using locs t by simp
  have k: "key_arg ?th = k" and v: "val_arg ?th \<in> V" using loc by (simp_all add: race_local_def)
  have others: "\<not> writing (?ths ! u)" if u: "u < length ?ths" "u \<noteq> t" for u
  proof
    assume w: "writing (?ths ! u)"
    have "\<not> writing ?th \<and> \<not> reading ?th \<and> bucket_locks ?s ! nat (slot k) = RW_Writer"
      using lock_inv_writer_excludes[OF li u(1) w t] u(2) by simp
    then show False using exec_blocked[OF e loc] by simp
  qed
  note links = exec_same_links[OF e]
  have 1: "table_ok s'"
  proof (cases "pc ?th = Insert_Publish")
    case False
    then show ?thesis using table_ok_same_links[OF links ok] by simp
  next
    case True
    then obtain a where a: "allocated ?th = Some a"
      "heap ?s a = Some \<lparr>key = k, val = val_arg ?th, next = table ?s ! nat (slot k), entry_mutex = Mutex_Unlocked\<rparr>"
      and ab: "absent ?s k"
      using loc by (auto simp: race_local_def)
    have "s' = ?s\<lparr>table := (table ?s)[nat (slot k) := Some a]\<rparr>"
      using e True k a(1) by (auto split: if_splits)
    then show ?thesis using publish_table_ok[OF ok sl ab a(2)] by simp
  qed
  have 2: "length (bucket_locks s') = 5" using exec_locks_length[OF e] len by simp
  have 3: "lock_inv (?ths[t := th']) (bucket_locks s' ! nat (slot k))"
    using exec_lock_inv[OF e _ t refl] li k by simp
  have 4: "values_in s' k V"
  proof (cases "pc ?th = Insert_Publish")
    case True
    then obtain a where a: "allocated ?th = Some a"
      "heap ?s a = Some \<lparr>key = k, val = val_arg ?th, next = table ?s ! nat (slot k), entry_mutex = Mutex_Unlocked\<rparr>"
      and ab: "absent ?s k"
      using loc by (auto simp: race_local_def)
    have "s' = ?s\<lparr>table := (table ?s)[nat (slot k) := Some a]\<rparr>"
      using e True k a(1) by (auto split: if_splits)
    then show ?thesis using publish_values[OF ok sl ab a(2), of V] v by simp
  next
    case False
    show ?thesis
    proof (cases "\<exists>m. pc ?th = Insert_Store m")
      case True
      then obtain m where m: "pc ?th = Insert_Store m" by blast
      then obtain a where "current ?th = Some a" and "store_val a (val_arg ?th) ?s = return s'"
        using e by (auto dest!: derefD and_then_returnD)
      then obtain x where "heap ?s a = Some x" "s' = ?s\<lparr>heap := (heap ?s)(a \<mapsto> x\<lparr>val := val_arg ?th\<rparr>)\<rparr>"
        using store_valD by blast
      then show ?thesis using values_store[OF ok sl vals _ v] by simp
    next
      case nst: False
      have "\<forall>a x. heap ?s a = Some x \<longrightarrow> val_at (heap s') a = val x"
        using exec_same_vals[OF e False] nst by blast
      then show ?thesis using values_same[OF links _ ok sl vals] False by simp
    qed
  qed
  have 5: "race_local k V s' th" if "th \<in> set (?ths[t := th'])" for th
  proof -
    from that obtain u where u: "u < length ?ths" "th = ?ths[t := th'] ! u"
      by (auto simp: in_set_conv_nth)
    show ?thesis
    proof (cases "u = t")
      case True
      then have "th = th'" using u by simp
      then show ?thesis using exec_local[OF e loc ok sl] by simp
    next
      case False
      then have thu: "th = ?ths ! u" using u by simp
      have lu: "race_local k V ?s th" using locs u(1) thu by simp
      have nw: "\<not> writing th" using others[OF u(1) False] thu by simp
      show ?thesis
      proof (cases "pc ?th = Insert_Publish")
        case np: False
        have "pc th \<noteq> Insert_Publish" using nw by (auto simp: writing_def)
        then show ?thesis using race_local_same_links[OF _ lu] links np by simp
      next
        case True
        then have ab: "absent ?s k" using loc by (simp add: race_local_def)
        have wt: "writing ?th" using True by (simp add: writing_def)
        have nr: "\<not> reading th"
          using lock_inv_writer_excludes[OF li t wt u(1) False] thu by simp
        have np: "\<not> present ?s k" using absent_not_present[OF ab] by blast
        have args: "key_arg th = k \<and> val_arg th \<in> V" using lu by (simp add: race_local_def)
        show ?thesis
          using lu nw nr np args
          by (cases "pc th") (auto simp: race_local_def reading_def writing_def intro: scan_mode.exhaust)
      qed
    qed
  qed
  show ?thesis
    unfolding race_inv_def c' using 1 2 3 4 5 by simp
qed

section \<open>Runs of threads that insert the same key\<close>

lemma race_run:
  "run sched c = return c' \<Longrightarrow> race_inv k V c \<Longrightarrow> 0 \<le> slot k \<Longrightarrow> race_inv k V c'"
proof (induction sched arbitrary: c)
  case Nil
  then show ?case by simp
next
  case (Cons t sched)
  obtain c1 where 1: "step t c = return c1" and 2: "run sched c1 = return c'"
    using Cons.prems(1) and_thenD by fastforce
  show ?case using Cons.IH[OF 2 race_step[OF Cons.prems(2,3) 1] Cons.prems(3)] .
qed

lemma race_init:
  assumes wf: "wf_two_level s" and sl: "0 \<le> slot k" and ab: "stored s k = None"
    and ths: "\<forall>th\<in>set ths. \<exists>v\<in>V. th = call_insert k v"
  shows "race_inv k V \<lparr>shared = s, threads = ths\<rparr>"
proof -
  have ok: "table_ok s" and locks: "bucket_locks s = replicate 5 RW_Unlocked"
    using wf by (simp_all add: wf_two_level_def)
  have i: "nat (slot k) < 5" using sl slot_less[of k] by simp
  have "\<forall>th\<in>set ths. \<not> reading th \<and> \<not> writing th"
    using ths by (auto simp: call_insert_def reading_def writing_def)
  then have li: "lock_inv ths (bucket_locks s ! nat (slot k))"
    using lock_inv_init locks i by simp
  have vals: "values_in s k V"
    unfolding values_in_def
  proof (intro allI impI ballI)
    fix as a
    assume c: "chain (heap s) (table s ! nat (slot k)) as" and a: "a \<in> set as" and ka: "key_at (heap s) a = k"
    have "find (\<lambda>a. key_at (heap s) a = k) as = None" using stored_None_iff[OF sl c] ab by simp
    then show "val_at (heap s) a \<in> V" using a ka by (auto simp: find_None_iff)
  qed
  have "\<forall>th\<in>set ths. race_local k V s th"
    using ths by (auto simp: race_local_def call_insert_def)
  then show ?thesis using ok locks li vals by (simp add: race_inv_def)
qed

lemma race_final:
  assumes inv: "race_inv k V c" and sl: "0 \<le> slot k" and th: "th \<in> set (threads c)" "pc th = Returned"
  shows "\<exists>v\<in>V. stored (shared c) k = Some v \<and> holds_once (shared c) k v"
proof -
  have ok: "table_ok (shared c)" and vals: "values_in (shared c) k V"
    and "race_local k V (shared c) th"
    using inv th(1) by (simp_all add: race_inv_def)
  then have "present (shared c) k" using th(2) by (simp add: race_local_def)
  then obtain a as where a: "key_at (heap (shared c)) a = k" "chain (heap (shared c)) (table (shared c) ! nat (slot k)) as"
    "a \<in> set as"
    by (auto simp: present_def)
  obtain x where x: "heap (shared c) a = Some x" using chain_live[OF a(2,3)] by blast
  have kx: "key x = k" using a(1) x by (simp add: key_at_def)
  have st: "stored (shared c) k = Some (val x)" using stored_present[OF ok sl a(2,3) x kx] .
  have "val_at (heap (shared c)) a \<in> V" using vals a by (auto simp: values_in_def)
  then have "val x \<in> V" using x by (simp add: val_at_def)
  then show ?thesis using st stored_holds_once[OF ok st] by blast
qed

lemma bad_slot_no_run:
  assumes "slot k < 0" "\<forall>th\<in>set ths. \<exists>v. th = call_insert k v" "run sched \<lparr>shared = s, threads = ths\<rparr> = return c"
  shows "c = \<lparr>shared = s, threads = ths\<rparr>"
proof (cases sched)
  case Nil
  then show ?thesis using assms(3) by simp
next
  case (Cons t rest)
  then obtain c1 where 1: "step t \<lparr>shared = s, threads = ths\<rparr> = return c1"
    using assms(3) and_thenD by fastforce
  then obtain th' s' where t: "t < length ths" and e: "exec (pc (ths ! t)) (ths ! t) s = return (th', s')"
    using step_returnD[OF 1] by auto
  obtain v where "ths ! t = call_insert k v" using assms(2) t by (meson nth_mem)
  then have "rdlock_bucket (slot k) s = return s'"
    using e by (auto simp: call_insert_def dest!: and_then_returnD)
  then show ?thesis using rdlock_bucketD assms(1) by fastforce
qed

lemma step_length: "step t c = return c' \<Longrightarrow> length (threads c') = length (threads c)"
  using step_returnD by fastforce

lemma run_length: "run sched c = return c' \<Longrightarrow> length (threads c') = length (threads c)"
proof (induction sched arbitrary: c)
  case Nil
  then show ?case by simp
next
  case (Cons t sched)
  obtain c1 where 1: "step t c = return c1" and 2: "run sched c1 = return c'"
    using Cons.prems(1) and_thenD by fastforce
  show ?case using Cons.IH[OF 2] step_length[OF 1] by simp
qed

lemmas run_threads = run.simps step_def exec.simps deref_def call_insert_def call_retrieve_def
  rdlock_bucket_def wrlock_bucket_def unlock_bucket_def logged_def pthread_mutex_lock_def pthread_mutex_unlock_def
  index_def

lemma example_race:
  "\<exists>c. run [0, 1, 0, 1, 0, 0, 1, 1, 0, 1, 0, 1, 0, 0, 0, 0, 0, 0, 0, 0, 1, 1, 1, 1, 1, 1, 1]
          \<lparr>shared = example_two_level, threads = [call_insert 11 5, call_insert 11 7]\<rparr> = return c
       \<and> map pc (threads c) = [Returned, Returned]"
  by (simp add: example_two_level_def run_threads run_rwlock run_memory)

lemma example_race_traces:
  "\<exists>c. run [0, 1, 0, 1, 0, 0, 1, 1, 0, 1, 0, 1, 0, 0, 0, 0, 0, 0, 0, 0, 1, 1, 1, 1, 1, 1, 1]
          \<lparr>shared = example_two_level, threads = [call_insert 11 5, call_insert 11 7]\<rparr> = return c
       \<and> map trace (threads c) =
             [[Acquire_Bucket 1, Release_Bucket 1, Acquire_Bucket 1, Release_Bucket 1],
              [Acquire_Bucket 1, Release_Bucket 1, Acquire_Bucket 1, Acquire_Entry 2, Release_Entry 2,
               Release_Bucket 1]]
       \<and> map pc (threads c) = [Returned, Returned]"
  by (simp add: example_two_level_def run_threads run_rwlock run_memory)

section \<open>The locks while threads insert the same key\<close>

lemma exec_other_locks:
  assumes "exec (pc th) th s = return (th', s')" "j \<noteq> nat (slot (key_arg th))"
  shows "bucket_locks s' ! j = bucket_locks s ! j"
proof (cases "lock_step (pc th)")
  case False
  then show ?thesis using exec_locks_same[OF assms(1)] by simp
next
  case True
  let ?i = "slot (key_arg th)"
  have "rdlock_bucket ?i s = return s' \<or> wrlock_bucket ?i s = return s' \<or> unlock_bucket ?i s = return s'"
    using True assms(1)
    by (cases "pc th") (auto simp: lock_step_def dest!: and_then_returnD)
  then show ?thesis
    using rdlock_bucketD[of ?i s s'] wrlock_bucketD[of ?i s s'] unlock_bucketD[of ?i s s'] assms(2)
    by (elim disjE) auto
qed

lemma exec_mutex:
  assumes e: "exec (pc th) th s = return (th', s')" and a: "heap s' a = Some x'" "entry_mutex x' = Mutex_Locked"
  shows "holds_entry th' a \<or> (\<exists>x. heap s a = Some x \<and> entry_mutex x = Mutex_Locked \<and> \<not> holds_entry th a)"
proof -
  have lock: ?thesis
    if c: "current th = Some c" "pthread_mutex_lock c s = return s'" "current th' = Some c"
      "holds_entry th' c" "\<not> holds_entry th a" for c
  proof (cases "a = c")
    case True
    then show ?thesis using c(4) by simp
  next
    case False
    then have "heap s a = heap s' a" using mutex_lockD[OF c(2)] by auto
    then show ?thesis using a c(5) by simp
  qed
  have unlock: ?thesis
    if c: "current th = Some c" "pthread_mutex_unlock c s = return s'" for c
  proof (cases "a = c")
    case True
    then show ?thesis using mutex_unlockD[OF c(2)] a by auto
  next
    case False
    then have "heap s a = heap s' a" using mutex_unlockD[OF c(2)] by auto
    moreover have "\<not> holds_entry th a" using False c(1) by (simp add: holds_entry_def)
    ultimately show ?thesis using a by simp
  qed
  have same: ?thesis if "heap s' = heap s" "\<not> holds_entry th a"
    using that a by simp
  have fresh: ?thesis
    if "malloc s = Some r" "\<forall>y. heap s' r = Some y \<longrightarrow> entry_mutex y = Mutex_Unlocked"
      "\<forall>b. b \<noteq> r \<longrightarrow> heap s' b = heap s b"
      "holds_entry th a \<longrightarrow> holds_entry th' a" for r
  proof (cases "a = r")
    case True
    then show ?thesis using that a by auto
  next
    case False
    then show ?thesis using that a by auto
  qed
  show ?thesis
  proof (cases "pc th")
    case Insert_Rdlock
    then show ?thesis using e by (intro same) (auto simp: holds_entry_def dest!: and_then_returnD rdlock_bucketD)
  next
    case (Insert_Head m)
    then show ?thesis using e by (intro same) (auto simp: holds_entry_def dest!: and_thenD indexD)
  next
    case (Insert_Loop m)
    then show ?thesis using e
      by (intro same) (auto simp: holds_entry_def dest!: and_thenD loadD split: option.splits if_splits)
  next
    case (Insert_Mutex_Lock m)
    then obtain c where "current th = Some c" "pthread_mutex_lock c s = return s'" "current th' = Some c"
      "pc th' = Insert_Store m"
      using e by (auto dest!: derefD and_then_returnD)
    then show ?thesis using Insert_Mutex_Lock by (intro lock[of c]) (simp_all add: holds_entry_def)
  next
    case (Insert_Store m)
    then obtain c where c: "current th = Some c" "store_val c (val_arg th) s = return s'" "current th' = Some c"
      "pc th' = Insert_Mutex_Unlock m"
      using e by (auto dest!: derefD and_then_returnD)
    obtain y where y: "heap s c = Some y" "heap s' = (heap s)(c \<mapsto> y\<lparr>val := val_arg th\<rparr>)"
      using store_valD[OF c(2)] by auto
    show ?thesis
    proof (cases "a = c")
      case True
      then show ?thesis using c by (simp add: holds_entry_def)
    next
      case False
      then have "heap s a = heap s' a" "\<not> holds_entry th a" using y c(1) by (simp_all add: holds_entry_def)
      then show ?thesis using a by simp
    qed
  next
    case (Insert_Mutex_Unlock m)
    then obtain c where "current th = Some c" "pthread_mutex_unlock c s = return s'"
      using e by (auto dest!: derefD and_then_returnD)
    then show ?thesis by (rule unlock)
  next
    case (Insert_Unlock_Return m)
    then show ?thesis using e by (intro same) (auto simp: holds_entry_def dest!: and_then_returnD unlock_bucketD)
  next
    case Insert_Unlock_Shared
    then show ?thesis using e by (intro same) (auto simp: holds_entry_def dest!: and_then_returnD unlock_bucketD)
  next
    case Insert_Wrlock
    then show ?thesis using e by (intro same) (auto simp: holds_entry_def dest!: and_then_returnD wrlock_bucketD)
  next
    case Insert_Malloc
    show ?thesis
    proof (cases "malloc s")
      case None
      then show ?thesis using e Insert_Malloc by (intro same) (auto simp: holds_entry_def)
    next
      case (Some r)
      then show ?thesis using e Insert_Malloc
        by (intro fresh[of r]) (auto simp: holds_entry_def dest!: and_thenD indexD)
    qed
  next
    case Insert_Fail_Unlock
    then show ?thesis using e by (intro same) (auto simp: holds_entry_def dest!: and_then_returnD unlock_bucketD)
  next
    case Insert_Panic
    then show ?thesis using e by simp
  next
    case Insert_Publish
    then show ?thesis using e by (intro same) (auto simp: holds_entry_def split: if_splits)
  next
    case Insert_Unlock_Exclusive
    then show ?thesis using e by (intro same) (auto simp: holds_entry_def dest!: and_then_returnD unlock_bucketD)
  next
    case Retrieve_Rdlock
    then show ?thesis using e by (intro same) (auto simp: holds_entry_def dest!: and_then_returnD rdlock_bucketD)
  next
    case Retrieve_Head
    then show ?thesis using e by (intro same) (auto simp: holds_entry_def dest!: and_thenD indexD)
  next
    case Retrieve_Loop
    then show ?thesis using e
      by (intro same) (auto simp: holds_entry_def dest!: and_thenD loadD split: option.splits if_splits)
  next
    case Retrieve_Mutex_Lock
    then obtain c where "current th = Some c" "pthread_mutex_lock c s = return s'" "current th' = Some c"
      "pc th' = Retrieve_Malloc"
      using e by (auto dest!: derefD and_then_returnD)
    then show ?thesis using Retrieve_Mutex_Lock by (intro lock[of c]) (simp_all add: holds_entry_def)
  next
    case Retrieve_Malloc
    show ?thesis
    proof (cases "malloc s")
      case None
      then have "heap s' = heap s" "current th' = current th" "pc th' = Retrieve_Fail_Mutex_Unlock"
        using e Retrieve_Malloc by auto
      then show ?thesis using a Retrieve_Malloc by (auto simp: holds_entry_def)
    next
      case (Some r)
      then show ?thesis using e Retrieve_Malloc
        by (intro fresh[of r]) (auto simp: holds_entry_def dest!: derefD and_thenD loadD)
    qed
  next
    case Retrieve_Fail_Mutex_Unlock
    then obtain c where "current th = Some c" "pthread_mutex_unlock c s = return s'"
      using e by (auto dest!: derefD and_then_returnD)
    then show ?thesis by (rule unlock)
  next
    case Retrieve_Fail_Unlock
    then show ?thesis using e by (intro same) (auto simp: holds_entry_def dest!: and_then_returnD unlock_bucketD)
  next
    case Retrieve_Panic
    then show ?thesis using e by simp
  next
    case Retrieve_Mutex_Unlock
    then obtain c where "current th = Some c" "pthread_mutex_unlock c s = return s'"
      using e by (auto dest!: derefD and_then_returnD)
    then show ?thesis by (rule unlock)
  next
    case Retrieve_Unlock_Found
    then show ?thesis using e by (intro same) (auto simp: holds_entry_def dest!: and_then_returnD unlock_bucketD)
  next
    case Retrieve_Unlock_Null
    then show ?thesis using e by (intro same) (auto simp: holds_entry_def dest!: and_then_returnD unlock_bucketD)
  next
    case Returned
    then show ?thesis using e by simp
  qed
qed

lemma locks_step:
  assumes inv: "race_inv k V c" and q: "locks_inv k c" and sl: "0 \<le> slot k" and st: "step t c = return c'"
  shows "locks_inv k c'"
proof -
  obtain th' s' where t: "t < length (threads c)"
    and e: "exec (pc (threads c ! t)) (threads c ! t) (shared c) = return (th', s')"
    and c': "c' = \<lparr>shared = s', threads = (threads c)[t := th']\<rparr>"
    using step_returnD[OF st] by blast
  let ?th = "threads c ! t" and ?s = "shared c" and ?ths = "threads c"
  have ok: "table_ok ?s" and locs: "\<forall>th\<in>set ?ths. race_local k V ?s th"
    using inv by (simp_all add: race_inv_def)
  have loc: "race_local k V ?s ?th" using locs t by simp
  have k: "key_arg ?th = k" using loc by (simp add: race_local_def)
  have q1: "\<forall>j<5. j \<noteq> nat (slot k) \<longrightarrow> bucket_locks ?s ! j = RW_Unlocked"
    and q2: "\<And>j as a x. j < 5 \<Longrightarrow> chain (heap ?s) (table ?s ! j) as \<Longrightarrow> a \<in> set as \<Longrightarrow> heap ?s a = Some x
        \<Longrightarrow> entry_mutex x = Mutex_Locked \<Longrightarrow> \<exists>th\<in>set ?ths. holds_entry th a"
    using q unfolding locks_inv_def by blast+
  have 1: "\<forall>j<5. j \<noteq> nat (slot k) \<longrightarrow> bucket_locks s' ! j = RW_Unlocked"
    using q1 exec_other_locks[OF e] k by simp
  have 2: "\<exists>th\<in>set (?ths[t := th']). holds_entry th a"
    if j: "j < 5" and ch: "chain (heap s') (table s' ! j) as" and a: "a \<in> set as"
      and x': "heap s' a = Some x'" "entry_mutex x' = Mutex_Locked" for j as a x'
  proof -
    from exec_mutex[OF e x'] show ?thesis
    proof (elim disjE exE conjE)
      assume "holds_entry th' a"
      then show ?thesis using t by (meson set_update_memI)
    next
      fix x assume x: "heap ?s a = Some x" "entry_mutex x = Mutex_Locked" and nh: "\<not> holds_entry ?th a"
      obtain bs where bs: "chain (heap ?s) (table ?s ! j) bs"
        using ok j by (auto simp: table_ok_def bucket_ok_def)
      have "a \<in> set bs"
      proof (cases "pc ?th = Insert_Publish")
        case False
        have "chain (heap s') (table s' ! j) bs"
          using chain_same_links[OF exec_same_links[OF e False] bs] table_same_links[OF exec_same_links[OF e False]]
          by simp
        then show ?thesis using chain_unique[OF ch] a by simp
      next
        case True
        then obtain r where r: "allocated ?th = Some r"
          "heap ?s r = Some \<lparr>key = k, val = val_arg ?th, next = table ?s ! nat (slot k), entry_mutex = Mutex_Unlocked\<rparr>"
          using loc by (auto simp: race_local_def)
        have s': "s' = ?s\<lparr>table := (table ?s)[nat (slot k) := Some r]\<rparr>"
          using e True k r(1) by (auto split: if_splits)
        show ?thesis
        proof (cases "j = nat (slot k)")
          case jn: False
          then have "chain (heap ?s) (table ?s ! j) as" using ch s' by simp
          then show ?thesis using chain_unique[OF bs] a by simp
        next
          case jk: True
          have l: "nat (slot k) < length (table ?s)" using ok sl slot_less[of k] by (simp add: table_ok_def)
          have pch: "chain (heap ?s) ((table ?s)[nat (slot k) := Some r] ! nat (slot k)) (r # bs)"
            using publish_chain[OF sl l _ r(2)] bs jk by simp
          have ch': "chain (heap ?s) ((table ?s)[nat (slot k) := Some r] ! nat (slot k)) as"
            using ch s' jk by simp
          have "as = r # bs" using chain_unique[OF ch' pch] .
          moreover have "a \<noteq> r" using x r(2) by auto
          ultimately show ?thesis using a by simp
        qed
      qed
      then obtain u where u: "u \<in> set ?ths" "holds_entry u a" using q2[OF j bs _ x] by blast
      then obtain n where n: "n < length ?ths" "u = ?ths ! n" by (auto simp: in_set_conv_nth)
      then have "n \<noteq> t" using nh u(2) by auto
      then have "?ths[t := th'] ! n = u" using n by simp
      then have "u \<in> set (?ths[t := th'])" using n(1) by (metis length_list_update nth_mem)
      then show ?thesis using u(2) by blast
    qed
  qed
  show ?thesis
    unfolding locks_inv_def c' using 1 2 by simp
qed

lemma locks_run:
  "run sched c = return c' \<Longrightarrow> race_inv k V c \<Longrightarrow> locks_inv k c \<Longrightarrow> 0 \<le> slot k \<Longrightarrow> locks_inv k c'"
proof (induction sched arbitrary: c)
  case Nil
  then show ?case by simp
next
  case (Cons t sched)
  obtain c1 where 1: "step t c = return c1" and 2: "run sched c1 = return c'"
    using Cons.prems(1) and_thenD by fastforce
  show ?case
    using Cons.IH[OF 2 race_step[OF Cons.prems(2,4) 1] locks_step[OF Cons.prems(2,3,4) 1] Cons.prems(4)] .
qed

lemma locks_init:
  assumes "wf_two_level s"
  shows "locks_inv k \<lparr>shared = s, threads = ths\<rparr>"
proof -
  have l: "bucket_locks s = replicate 5 RW_Unlocked" and un: "entries_unlocked s"
    using assms by (simp_all add: wf_two_level_def)
  have "\<forall>j<5. \<forall>as. chain (heap s) (table s ! j) as \<longrightarrow>
      (\<forall>a\<in>set as. \<forall>x. heap s a = Some x \<longrightarrow> entry_mutex x \<noteq> Mutex_Locked)"
    using un unfolding entries_unlocked_def by (metis mutex.distinct(1))
  then show ?thesis using l by (simp add: locks_inv_def)
qed

lemma locks_final:
  assumes inv: "race_inv k V c" and q: "locks_inv k c" and sl: "0 \<le> slot k"
    and fin: "\<forall>th\<in>set (threads c). pc th = Returned"
  shows "wf_two_level (shared c)"
proof -
  have ok: "table_ok (shared c)" and len: "length (bucket_locks (shared c)) = 5"
    and li: "lock_inv (threads c) (bucket_locks (shared c) ! nat (slot k))"
    using inv by (simp_all add: race_inv_def)
  have "\<forall>th\<in>set (threads c). \<not> reading th \<and> \<not> writing th"
    using fin by (simp add: reading_def writing_def)
  then have i: "bucket_locks (shared c) ! nat (slot k) = RW_Unlocked" using lock_inv_quiet[OF li] by simp
  have "bucket_locks (shared c) ! j = RW_Unlocked" if "j < 5" for j
    using q i that unfolding locks_inv_def by (cases "j = nat (slot k)") auto
  then have l: "bucket_locks (shared c) = replicate 5 RW_Unlocked"
    using len by (intro nth_equalityI) simp_all
  have nh: "\<not> holds_entry th a" if "th \<in> set (threads c)" for th a
    using fin that by (simp add: holds_entry_def)
  have "entry_mutex x = Mutex_Unlocked"
    if "j < 5" "chain (heap (shared c)) (table (shared c) ! j) as" "a \<in> set as" "heap (shared c) a = Some x"
    for j as a x
  proof (cases "entry_mutex x")
    case Mutex_Unlocked
    then show ?thesis .
  next
    case Mutex_Locked
    then have "\<exists>th\<in>set (threads c). holds_entry th a"
      using q that unfolding locks_inv_def by blast
    then show ?thesis using nh by blast
  qed
  then have "entries_unlocked (shared c)" unfolding entries_unlocked_def by blast
  then show ?thesis using ok l by (simp add: wf_two_level_def)
qed

section \<open>A thread that runs alone performs the call\<close>

lemma and_then_assoc: "and_then (and_then m f) g = and_then m (\<lambda>x. and_then (f x) g)"
  by (auto simp: and_then_def split: option.splits sum.splits)

lemma run_append: "run (xs @ ys) c = and_then (run xs c) (run ys)"
proof (induction xs arbitrary: c)
  case Nil
  then show ?case by simp
next
  case (Cons t xs)
  have "run (xs @ ys) = (\<lambda>x. and_then (run xs x) (run ys))" using Cons.IH by (intro ext)
  then show ?case by (simp add: and_then_assoc)
qed

lemma run_replicate_add:
  "run (replicate (m + n) t) c = and_then (run (replicate m t) c) (run (replicate n t))"
  by (simp add: replicate_add run_append)

lemma solo_step:
  "step 0 \<lparr>shared = s, threads = [th]\<rparr> =
     and_then (exec (pc th) th s) (\<lambda>(th', s'). return \<lparr>shared = s', threads = [th']\<rparr>)"
  by (simp add: step_def)

lemma solo_loop:
  assumes "chain (heap s) p as" "pc th = Insert_Loop m" "current th = p"
  shows "\<exists>n. run (replicate n 0) \<lparr>shared = s, threads = [th]\<rparr> =
     return \<lparr>shared = s,
             threads = [th\<lparr>pc := (case find (\<lambda>a. key_at (heap s) a = key_arg th) as of
                                    Some c \<Rightarrow> Insert_Mutex_Lock m
                                  | None \<Rightarrow> (case m of Shared_Scan \<Rightarrow> Insert_Unlock_Shared
                                             | Exclusive_Scan \<Rightarrow> Insert_Malloc)),
                          current := find (\<lambda>a. key_at (heap s) a = key_arg th) as\<rparr>]\<rparr>"
  using assms
proof (induction as arbitrary: p th)
  case Nil
  then have "run (replicate 1 0) \<lparr>shared = s, threads = [th]\<rparr> =
     return \<lparr>shared = s,
             threads = [th\<lparr>pc := (case m of Shared_Scan \<Rightarrow> Insert_Unlock_Shared | Exclusive_Scan \<Rightarrow> Insert_Malloc),
                          current := None\<rparr>]\<rparr>"
    by (simp add: solo_step)
  then show ?case by (auto simp del: replicate.simps run.simps intro!: exI[of _ 1])
next
  case (Cons a as)
  then obtain e where e: "p = Some a" "heap s a = Some e" "chain (heap s) (next e) as"
    by (auto split: option.splits)
  show ?case
  proof (cases "key e = key_arg th")
    case True
    then have "run (replicate 1 0) \<lparr>shared = s, threads = [th]\<rparr> =
       return \<lparr>shared = s, threads = [th\<lparr>pc := Insert_Mutex_Lock m, current := Some a\<rparr>]\<rparr>"
      using Cons.prems(2,3) e by (simp add: solo_step load_def)
    moreover have "find (\<lambda>a. key_at (heap s) a = key_arg th) (a # as) = Some a"
      using True e by (simp add: key_at_def)
    ultimately show ?thesis by (auto simp del: replicate.simps run.simps intro!: exI[of _ 1])
  next
    case False
    have 1: "run (replicate 1 0) \<lparr>shared = s, threads = [th]\<rparr> =
       return \<lparr>shared = s, threads = [th\<lparr>current := next e\<rparr>]\<rparr>"
      using False Cons.prems(2,3) e by (simp add: solo_step load_def)
    obtain n where n: "run (replicate n 0) \<lparr>shared = s, threads = [th\<lparr>current := next e\<rparr>]\<rparr> =
       return \<lparr>shared = s,
             threads = [th\<lparr>pc := (case find (\<lambda>a. key_at (heap s) a = key_arg th) as of
                                    Some c \<Rightarrow> Insert_Mutex_Lock m
                                  | None \<Rightarrow> (case m of Shared_Scan \<Rightarrow> Insert_Unlock_Shared
                                             | Exclusive_Scan \<Rightarrow> Insert_Malloc)),
                          current := find (\<lambda>a. key_at (heap s) a = key_arg th) as\<rparr>]\<rparr>"
      using Cons.IH[OF e(3), of "th\<lparr>current := next e\<rparr>"] Cons.prems(2) by auto
    have f: "find (\<lambda>a. key_at (heap s) a = key_arg th) (a # as) = find (\<lambda>a. key_at (heap s) a = key_arg th) as"
      using False e by (simp add: key_at_def)
    have "run (replicate (1 + n) 0) \<lparr>shared = s, threads = [th]\<rparr> =
       return \<lparr>shared = s,
             threads = [th\<lparr>pc := (case find (\<lambda>a. key_at (heap s) a = key_arg th) (a # as) of
                                    Some c \<Rightarrow> Insert_Mutex_Lock m
                                  | None \<Rightarrow> (case m of Shared_Scan \<Rightarrow> Insert_Unlock_Shared
                                             | Exclusive_Scan \<Rightarrow> Insert_Malloc)),
                          current := find (\<lambda>a. key_at (heap s) a = key_arg th) (a # as)\<rparr>]\<rparr>"
      unfolding run_replicate_add 1 f using n by simp
    then show ?thesis by blast
  qed
qed


lemma solo_enter:
  assumes "pc th = Insert_Rdlock" "0 \<le> slot (key_arg th)" "slot (key_arg th) < int (length (bucket_locks s))"
    "slot (key_arg th) < int (length (table s))" "bucket_locks s ! nat (slot (key_arg th)) = RW_Unlocked"
  shows "run (replicate 2 0) \<lparr>shared = s, threads = [th]\<rparr> =
     return \<lparr>shared = s\<lparr>bucket_locks := (bucket_locks s)[nat (slot (key_arg th)) := RW_Readers 1],
                          lock_log := lock_log s @ [Acquire_Bucket (slot (key_arg th))]\<rparr>,
             threads = [th\<lparr>pc := Insert_Loop Shared_Scan, current := table s ! nat (slot (key_arg th)),
                          trace := trace th @ [Acquire_Bucket (slot (key_arg th))]\<rparr>]\<rparr>"
  using assms
  by (simp add: numeral_2_eq_2 solo_step rdlock_bucket_def logged_def rdlock_ok)

lemma solo_update:
  assumes "pc th = Insert_Mutex_Lock m" "current th = Some c" "heap s c = Some e" "entry_mutex e = Mutex_Unlocked"
    "0 \<le> slot (key_arg th)" "slot (key_arg th) < int (length (bucket_locks s))"
    "bucket_locks s ! nat (slot (key_arg th)) = RW_Readers 1 \<or> bucket_locks s ! nat (slot (key_arg th)) = RW_Writer"
  shows "run (replicate 4 0) \<lparr>shared = s, threads = [th]\<rparr> =
     return \<lparr>shared = s\<lparr>heap := (heap s)(c \<mapsto> e\<lparr>val := val_arg th\<rparr>),
                          bucket_locks := (bucket_locks s)[nat (slot (key_arg th)) := RW_Unlocked],
                          lock_log := lock_log s @ [Acquire_Entry c, Release_Entry c,
                                                    Release_Bucket (slot (key_arg th))]\<rparr>,
             threads = [th\<lparr>pc := Returned,
                          trace := trace th @ [Acquire_Entry c, Release_Entry c,
                                               Release_Bucket (slot (key_arg th))]\<rparr>]\<rparr>"
proof -
  have e: "e\<lparr>entry_mutex := Mutex_Unlocked\<rparr> = e" using assms(4) by (cases e) simp
  have u: "pthread_rwlock_unlock (slot (key_arg th)) s' =
      return (s'\<lparr>bucket_locks := (bucket_locks s')[nat (slot (key_arg th)) := RW_Unlocked]\<rparr>)"
    if "bucket_locks s' = bucket_locks s" for s' :: two_level_state
    using assms(5,6,7) that unlock_reader_ok[of s' "slot (key_arg th)"] unlock_writer_ok[of s' "slot (key_arg th)"]
    by auto
  show ?thesis
    using assms(1,2,3,4) e
    by (simp add: eval_nat_numeral solo_step deref_def mutex_lock_ok store_val_def pthread_mutex_unlock_def
        unlock_bucket_def logged_def u val_mutex_same)
qed

lemma solo_escalate:
  assumes "pc th = Insert_Unlock_Shared" "0 \<le> slot (key_arg th)" "slot (key_arg th) < int (length (bucket_locks s))"
    "slot (key_arg th) < int (length (table s))" "bucket_locks s ! nat (slot (key_arg th)) = RW_Readers 1"
  shows "run (replicate 3 0) \<lparr>shared = s, threads = [th]\<rparr> =
     return \<lparr>shared = s\<lparr>bucket_locks := (bucket_locks s)[nat (slot (key_arg th)) := RW_Writer],
                          lock_log := lock_log s @ [Release_Bucket (slot (key_arg th)),
                                                    Acquire_Bucket (slot (key_arg th))]\<rparr>,
             threads = [th\<lparr>pc := Insert_Loop Exclusive_Scan, current := table s ! nat (slot (key_arg th)),
                          trace := trace th @ [Release_Bucket (slot (key_arg th)),
                                               Acquire_Bucket (slot (key_arg th))]\<rparr>]\<rparr>"
  using assms
  by (simp add: eval_nat_numeral solo_step unlock_bucket_def wrlock_bucket_def logged_def unlock_reader_ok wrlock_ok)

lemma solo_create:
  assumes "pc th = Insert_Malloc" "0 \<le> slot (key_arg th)" "slot (key_arg th) < int (length (bucket_locks s))"
    "slot (key_arg th) < int (length (table s))" "bucket_locks s ! nat (slot (key_arg th)) = RW_Writer"
    "malloc s = Some a"
  shows "run (replicate 3 0) \<lparr>shared = s, threads = [th]\<rparr> =
     return \<lparr>shared = s\<lparr>heap := (heap s)(a \<mapsto> \<lparr>key = key_arg th, val = val_arg th,
                                                   next = table s ! nat (slot (key_arg th)),
                                                   entry_mutex = Mutex_Unlocked\<rparr>),
                          table := (table s)[nat (slot (key_arg th)) := Some a],
                          bucket_locks := (bucket_locks s)[nat (slot (key_arg th)) := RW_Unlocked],
                          lock_log := lock_log s @ [Release_Bucket (slot (key_arg th))]\<rparr>,
             threads = [th\<lparr>pc := Returned, allocated := Some a,
                          trace := trace th @ [Release_Bucket (slot (key_arg th))]\<rparr>]\<rparr>"
  using assms
  by (simp add: eval_nat_numeral solo_step unlock_bucket_def logged_def unlock_writer_ok)

lemma solo_no_memory:
  assumes "pc th = Insert_Malloc" "0 \<le> slot (key_arg th)" "slot (key_arg th) < int (length (bucket_locks s))"
    "bucket_locks s ! nat (slot (key_arg th)) = RW_Writer" "malloc s = None"
  shows "run (replicate 3 0) \<lparr>shared = s, threads = [th]\<rparr> =
     panic ''No memory to allocate bucket!''
       (s\<lparr>bucket_locks := (bucket_locks s)[nat (slot (key_arg th)) := RW_Unlocked],
          lock_log := lock_log s @ [Release_Bucket (slot (key_arg th))]\<rparr>)"
  using assms
  by (simp add: eval_nat_numeral solo_step unlock_bucket_def logged_def unlock_writer_ok panic_def)

lemma solo_insert:
  assumes wf: "wf_two_level s" and sl: "0 \<le> slot k"
  shows "\<exists>n th. pc th = Returned \<and>
     run (replicate n 0) \<lparr>shared = s, threads = [call_insert k v]\<rparr> =
       and_then (insert_two_level k v s) (\<lambda>s'. return \<lparr>shared = s', threads = [th]\<rparr>)"
proof -
  let ?i = "nat (slot k)"
  have r: "slot k < 5" by (rule slot_less)
  have ok: "table_ok s" using wf by (simp add: wf_two_level_def)
  obtain as where as: "chain (heap s) (table s ! ?i) as"
    using wf_chain[OF ok sl] by (auto simp: bucket_ok_def)
  have l: "bucket_locks s ! ?i = RW_Unlocked" "length (bucket_locks s) = 5" and t: "length (table s) = 5"
    using wf sl r by (auto simp: wf_two_level_def table_ok_def)
  have restore: "(bucket_locks s)[?i := RW_Unlocked] = bucket_locks s"
    using l(1) list_update_id by metis
  note ieq = insert_two_level_eq[OF wf sl as, of v]
  define th1 where "th1 = (call_insert k v)\<lparr>pc := Insert_Loop Shared_Scan, current := table s ! ?i,
      trace := [Acquire_Bucket (slot k)]\<rparr>"
  define s1 where "s1 = s\<lparr>bucket_locks := (bucket_locks s)[?i := RW_Readers 1],
      lock_log := lock_log s @ [Acquire_Bucket (slot k)]\<rparr>"
  have 1: "run (replicate 2 0) \<lparr>shared = s, threads = [call_insert k v]\<rparr> = return \<lparr>shared = s1, threads = [th1]\<rparr>"
    using solo_enter[of "call_insert k v" s] sl r l t by (simp add: call_insert_def th1_def s1_def)
  have th1: "pc th1 = Insert_Loop Shared_Scan" "current th1 = table s ! ?i" "key_arg th1 = k" "val_arg th1 = v"
    by (simp_all add: th1_def call_insert_def)
  have s1: "heap s1 = heap s" "table s1 = table s" "bucket_locks s1 ! ?i = RW_Readers 1"
    "length (bucket_locks s1) = 5" "malloc s1 = malloc s"
    using l r sl by (simp_all add: s1_def)
  define f where "f = find (\<lambda>a. key_at (heap s) a = k) as"
  obtain n1 where 2: "run (replicate n1 0) \<lparr>shared = s1, threads = [th1]\<rparr> =
     return \<lparr>shared = s1,
             threads = [th1\<lparr>pc := (case f of Some c \<Rightarrow> Insert_Mutex_Lock Shared_Scan | None \<Rightarrow> Insert_Unlock_Shared),
                           current := f\<rparr>]\<rparr>"
    using solo_loop[of s1 "table s ! ?i" as th1 Shared_Scan] as th1 s1
    by (auto simp: f_def cong: option.case_cong)
  show ?thesis
  proof (cases f)
    case (Some c)
    then have c: "c \<in> set as" by (auto simp: f_def find_Some_iff)
    then obtain e where e: "heap s c = Some e" using as chain_live by fastforce
    have un: "entry_mutex e = Mutex_Unlocked"
      using wf sl as c e r entries_unlockedD[of s "slot k" as c e] by (simp add: wf_two_level_def)
    define th2 where "th2 = th1\<lparr>pc := Insert_Mutex_Lock Shared_Scan, current := Some c\<rparr>"
    have th2: "pc th2 = Insert_Mutex_Lock Shared_Scan" "current th2 = Some c" "key_arg th2 = k" "val_arg th2 = v"
      using th1 by (simp_all add: th2_def)
    have 3: "run (replicate 4 0) \<lparr>shared = s1, threads = [th2]\<rparr> =
       return \<lparr>shared = s\<lparr>heap := (heap s)(c \<mapsto> e\<lparr>val := v\<rparr>),
                   lock_log := lock_log s @ [Acquire_Bucket (slot k), Acquire_Entry c, Release_Entry c,
                                             Release_Bucket (slot k)]\<rparr>,
               threads = [th2\<lparr>pc := Returned,
                          trace := trace th2 @ [Acquire_Entry c, Release_Entry c, Release_Bucket (slot k)]\<rparr>]\<rparr>"
      using solo_update[of th2 Shared_Scan c s1 e] th2 s1 e un sl r restore
      by (simp add: s1_def)
    have "run (replicate (2 + (n1 + 4)) 0) \<lparr>shared = s, threads = [call_insert k v]\<rparr> =
       and_then (insert_two_level k v s) (\<lambda>s'. return \<lparr>shared = s',
           threads = [th2\<lparr>pc := Returned,
                          trace := trace th2 @ [Acquire_Entry c, Release_Entry c, Release_Bucket (slot k)]\<rparr>]\<rparr>)"
      unfolding run_replicate_add 1 using 2 3 Some ieq e by (simp add: th2_def f_def)
    then show ?thesis by (intro exI[of _ "2 + (n1 + 4)"] exI conjI) (auto simp del: replicate.simps run.simps)
  next
    case None
    define th3 where "th3 = th1\<lparr>pc := Insert_Unlock_Shared, current := None\<rparr>"
    have th3: "pc th3 = Insert_Unlock_Shared" "key_arg th3 = k" "val_arg th3 = v"
      using th1 by (simp_all add: th3_def)
    define th4 where "th4 = th3\<lparr>pc := Insert_Loop Exclusive_Scan, current := table s ! ?i,
        trace := trace th3 @ [Release_Bucket (slot k), Acquire_Bucket (slot k)]\<rparr>"
    define s4 where "s4 = s\<lparr>bucket_locks := (bucket_locks s)[?i := RW_Writer],
        lock_log := lock_log s @ [Acquire_Bucket (slot k), Release_Bucket (slot k), Acquire_Bucket (slot k)]\<rparr>"
    have 3: "run (replicate 3 0) \<lparr>shared = s1, threads = [th3]\<rparr> = return \<lparr>shared = s4, threads = [th4]\<rparr>"
      using solo_escalate[of th3 s1] th3 s1 sl r t
      by (simp add: s1_def s4_def th4_def)
    have th4: "pc th4 = Insert_Loop Exclusive_Scan" "current th4 = table s ! ?i" "key_arg th4 = k" "val_arg th4 = v"
      using th3 by (simp_all add: th4_def)
    have s4: "heap s4 = heap s" "table s4 = table s" "bucket_locks s4 ! ?i = RW_Writer"
      "length (bucket_locks s4) = 5" "malloc s4 = malloc s"
      using l r sl by (simp_all add: s4_def)
    define th5 where "th5 = th4\<lparr>pc := Insert_Malloc, current := None\<rparr>"
    obtain n2 where 4: "run (replicate n2 0) \<lparr>shared = s4, threads = [th4]\<rparr> = return \<lparr>shared = s4, threads = [th5]\<rparr>"
      using solo_loop[of s4 "table s ! ?i" as th4 Exclusive_Scan] as th4 s4 None by (auto simp: f_def th5_def)
    have th5: "pc th5 = Insert_Malloc" "key_arg th5 = k" "val_arg th5 = v"
      using th4 by (simp_all add: th5_def)
    show ?thesis
    proof (cases "malloc s")
      case (Some a)
      have 5: "run (replicate 3 0) \<lparr>shared = s4, threads = [th5]\<rparr> =
         return \<lparr>shared = s\<lparr>heap := (heap s)(a \<mapsto> \<lparr>key = k, val = v, next = table s ! ?i,
                                                       entry_mutex = Mutex_Unlocked\<rparr>),
                     table := (table s)[?i := Some a],
                     lock_log := lock_log s @ [Acquire_Bucket (slot k), Release_Bucket (slot k),
                                               Acquire_Bucket (slot k), Release_Bucket (slot k)]\<rparr>,
                 threads = [th5\<lparr>pc := Returned, allocated := Some a,
                            trace := trace th5 @ [Release_Bucket (slot k)]\<rparr>]\<rparr>"
        using solo_create[of th5 s4 a] th5 s4 sl r t Some restore
        by (simp add: s4_def)
      have "run (replicate (2 + (n1 + (3 + (n2 + 3)))) 0) \<lparr>shared = s, threads = [call_insert k v]\<rparr> =
         and_then (insert_two_level k v s) (\<lambda>s'. return \<lparr>shared = s',
             threads = [th5\<lparr>pc := Returned, allocated := Some a,
                            trace := trace th5 @ [Release_Bucket (slot k)]\<rparr>]\<rparr>)"
        unfolding run_replicate_add 1 using 2 3 4 5 None Some ieq by (simp add: th3_def f_def)
      then show ?thesis
        by (intro exI[of _ "2 + (n1 + (3 + (n2 + 3)))"] exI conjI) (auto simp del: replicate.simps run.simps)
    next
      case no: None
      have 5: "run (replicate 3 0) \<lparr>shared = s4, threads = [th5]\<rparr> =
         panic ''No memory to allocate bucket!''
           (s\<lparr>lock_log := lock_log s @ [Acquire_Bucket (slot k), Release_Bucket (slot k),
                                       Acquire_Bucket (slot k), Release_Bucket (slot k)]\<rparr>)"
        using solo_no_memory[of th5 s4] th5 s4 sl r no restore
        by (simp add: s4_def)
      have "run (replicate (2 + (n1 + (3 + (n2 + 3)))) 0) \<lparr>shared = s, threads = [call_insert k v]\<rparr> =
         and_then (insert_two_level k v s) (\<lambda>s'. return \<lparr>shared = s', threads = [th5\<lparr>pc := Returned\<rparr>]\<rparr>)"
        unfolding run_replicate_add 1 using 2 3 4 5 None no ieq by (simp add: th3_def f_def panic_def)
      then show ?thesis
        by (intro exI[of _ "2 + (n1 + (3 + (n2 + 3)))"] exI conjI) (auto simp del: replicate.simps run.simps)
    qed
  qed
qed

lemma solo_loop_retrieve:
  assumes "chain (heap s) p as" "pc th = Retrieve_Loop" "current th = p"
  shows "\<exists>n. run (replicate n 0) \<lparr>shared = s, threads = [th]\<rparr> =
     return \<lparr>shared = s,
             threads = [th\<lparr>pc := (case find (\<lambda>a. key_at (heap s) a = key_arg th) as of
                                    Some c \<Rightarrow> Retrieve_Mutex_Lock
                                  | None \<Rightarrow> Retrieve_Unlock_Null),
                          current := find (\<lambda>a. key_at (heap s) a = key_arg th) as\<rparr>]\<rparr>"
  using assms
proof (induction as arbitrary: p th)
  case Nil
  then have "run (replicate 1 0) \<lparr>shared = s, threads = [th]\<rparr> =
     return \<lparr>shared = s, threads = [th\<lparr>pc := Retrieve_Unlock_Null, current := None\<rparr>]\<rparr>"
    by (simp add: solo_step)
  then show ?case by (auto simp del: replicate.simps run.simps intro!: exI[of _ 1])
next
  case (Cons a as)
  then obtain e where e: "p = Some a" "heap s a = Some e" "chain (heap s) (next e) as"
    by (auto split: option.splits)
  show ?case
  proof (cases "key e = key_arg th")
    case True
    then have "run (replicate 1 0) \<lparr>shared = s, threads = [th]\<rparr> =
       return \<lparr>shared = s, threads = [th\<lparr>pc := Retrieve_Mutex_Lock, current := Some a\<rparr>]\<rparr>"
      using Cons.prems(2,3) e by (simp add: solo_step load_def)
    moreover have "find (\<lambda>a. key_at (heap s) a = key_arg th) (a # as) = Some a"
      using True e by (simp add: key_at_def)
    ultimately show ?thesis by (auto simp del: replicate.simps run.simps intro!: exI[of _ 1])
  next
    case False
    have 1: "run (replicate 1 0) \<lparr>shared = s, threads = [th]\<rparr> =
       return \<lparr>shared = s, threads = [th\<lparr>current := next e\<rparr>]\<rparr>"
      using False Cons.prems(2,3) e by (simp add: solo_step load_def)
    obtain n where n: "run (replicate n 0) \<lparr>shared = s, threads = [th\<lparr>current := next e\<rparr>]\<rparr> =
       return \<lparr>shared = s,
             threads = [th\<lparr>pc := (case find (\<lambda>a. key_at (heap s) a = key_arg th) as of
                                    Some c \<Rightarrow> Retrieve_Mutex_Lock
                                  | None \<Rightarrow> Retrieve_Unlock_Null),
                          current := find (\<lambda>a. key_at (heap s) a = key_arg th) as\<rparr>]\<rparr>"
      using Cons.IH[OF e(3), of "th\<lparr>current := next e\<rparr>"] Cons.prems(2) by auto
    have f: "find (\<lambda>a. key_at (heap s) a = key_arg th) (a # as) = find (\<lambda>a. key_at (heap s) a = key_arg th) as"
      using False e by (simp add: key_at_def)
    have "run (replicate (1 + n) 0) \<lparr>shared = s, threads = [th]\<rparr> =
       return \<lparr>shared = s,
             threads = [th\<lparr>pc := (case find (\<lambda>a. key_at (heap s) a = key_arg th) (a # as) of
                                    Some c \<Rightarrow> Retrieve_Mutex_Lock
                                  | None \<Rightarrow> Retrieve_Unlock_Null),
                          current := find (\<lambda>a. key_at (heap s) a = key_arg th) (a # as)\<rparr>]\<rparr>"
      unfolding run_replicate_add 1 f using n by simp
    then show ?thesis by blast
  qed
qed

lemma solo_enter_retrieve:
  assumes "pc th = Retrieve_Rdlock" "0 \<le> slot (key_arg th)" "slot (key_arg th) < int (length (bucket_locks s))"
    "slot (key_arg th) < int (length (table s))" "bucket_locks s ! nat (slot (key_arg th)) = RW_Unlocked"
  shows "run (replicate 2 0) \<lparr>shared = s, threads = [th]\<rparr> =
     return \<lparr>shared = s\<lparr>bucket_locks := (bucket_locks s)[nat (slot (key_arg th)) := RW_Readers 1],
                          lock_log := lock_log s @ [Acquire_Bucket (slot (key_arg th))]\<rparr>,
             threads = [th\<lparr>pc := Retrieve_Loop, current := table s ! nat (slot (key_arg th)),
                          trace := trace th @ [Acquire_Bucket (slot (key_arg th))]\<rparr>]\<rparr>"
  using assms
  by (simp add: numeral_2_eq_2 solo_step rdlock_bucket_def logged_def rdlock_ok)

lemma solo_not_found:
  assumes "pc th = Retrieve_Unlock_Null" "0 \<le> slot (key_arg th)" "slot (key_arg th) < int (length (bucket_locks s))"
    "bucket_locks s ! nat (slot (key_arg th)) = RW_Readers 1"
  shows "run (replicate 1 0) \<lparr>shared = s, threads = [th]\<rparr> =
     return \<lparr>shared = s\<lparr>bucket_locks := (bucket_locks s)[nat (slot (key_arg th)) := RW_Unlocked],
                          lock_log := lock_log s @ [Release_Bucket (slot (key_arg th))]\<rparr>,
             threads = [th\<lparr>pc := Returned, allocated := None,
                          trace := trace th @ [Release_Bucket (slot (key_arg th))]\<rparr>]\<rparr>"
  using assms
  by (simp add: solo_step unlock_bucket_def logged_def unlock_reader_ok)

lemma solo_copy:
  assumes "pc th = Retrieve_Mutex_Lock" "current th = Some b" "heap s b = Some e" "entry_mutex e = Mutex_Unlocked"
    "0 \<le> slot (key_arg th)" "slot (key_arg th) < int (length (bucket_locks s))"
    "bucket_locks s ! nat (slot (key_arg th)) = RW_Readers 1" "malloc s = Some r"
  shows "run (replicate 4 0) \<lparr>shared = s, threads = [th]\<rparr> =
     return \<lparr>shared = s\<lparr>heap := (heap s)(r \<mapsto> \<lparr>key = key e, val = val e, next = None,
                                                   entry_mutex = Mutex_Unlocked\<rparr>),
                          bucket_locks := (bucket_locks s)[nat (slot (key_arg th)) := RW_Unlocked],
                          lock_log := lock_log s @ [Acquire_Entry b, Release_Entry b,
                                                    Release_Bucket (slot (key_arg th))]\<rparr>,
             threads = [th\<lparr>pc := Returned, allocated := Some r,
                          trace := trace th @ [Acquire_Entry b, Release_Entry b,
                                               Release_Bucket (slot (key_arg th))]\<rparr>]\<rparr>"
proof -
  have eu: "e\<lparr>entry_mutex := Mutex_Unlocked\<rparr> = e" using assms(4) by (cases e) simp
  have m: "malloc (s\<lparr>heap := (heap s)(b \<mapsto> y)\<rparr>) = malloc s" for y
    using assms(3) by (intro malloc_cong) auto
  have "r \<noteq> b" using assms(3,8) malloc_fresh by fastforce
  then have h2: "(heap s)(r \<mapsto> x, b \<mapsto> e\<lparr>entry_mutex := Mutex_Unlocked\<rparr>) = (heap s)(r \<mapsto> x)" for x
    using assms(3) eu by (auto simp: fun_eq_iff)
  from \<open>r \<noteq> b\<close> show ?thesis
    using assms eu
    by (simp add: eval_nat_numeral solo_step deref_def mutex_lock_ok pthread_mutex_unlock_def load_def
        unlock_bucket_def logged_def unlock_reader_ok m h2)
qed

lemma solo_copy_fails:
  assumes "pc th = Retrieve_Mutex_Lock" "current th = Some b" "heap s b = Some e" "entry_mutex e = Mutex_Unlocked"
    "0 \<le> slot (key_arg th)" "slot (key_arg th) < int (length (bucket_locks s))"
    "bucket_locks s ! nat (slot (key_arg th)) = RW_Readers 1" "malloc s = None"
  shows "run (replicate 5 0) \<lparr>shared = s, threads = [th]\<rparr> =
     panic ''No memory to allocate result!''
       (s\<lparr>bucket_locks := (bucket_locks s)[nat (slot (key_arg th)) := RW_Unlocked],
          lock_log := lock_log s @ [Acquire_Entry b, Release_Entry b, Release_Bucket (slot (key_arg th))]\<rparr>)"
proof -
  have eu: "e\<lparr>entry_mutex := Mutex_Unlocked\<rparr> = e" using assms(4) by (cases e) simp
  have m: "malloc (s\<lparr>heap := (heap s)(b \<mapsto> y)\<rparr>) = malloc s" for y
    using assms(3) by (intro malloc_cong) auto
  have h: "(heap s)(b \<mapsto> e\<lparr>entry_mutex := Mutex_Unlocked\<rparr>) = heap s"
    using assms(3) eu by (simp add: fun_upd_idem)
  show ?thesis
    using assms eu
    by (simp add: eval_nat_numeral solo_step deref_def mutex_lock_ok pthread_mutex_unlock_def
        unlock_bucket_def logged_def unlock_reader_ok m h panic_def)
qed

lemma solo_retrieve:
  assumes wf: "wf_two_level s" and sl: "0 \<le> slot k"
  shows "\<exists>n th. pc th = Returned \<and>
     run (replicate n 0) \<lparr>shared = s, threads = [call_retrieve k]\<rparr> =
       and_then (retrieve_two_level k s) (\<lambda>(result, s'). return \<lparr>shared = s', threads = [th\<lparr>allocated := result\<rparr>]\<rparr>)"
proof -
  let ?i = "nat (slot k)"
  have r: "slot k < 5" by (rule slot_less)
  have ok: "table_ok s" using wf by (simp add: wf_two_level_def)
  obtain as where as: "chain (heap s) (table s ! ?i) as"
    using wf_chain[OF ok sl] by (auto simp: bucket_ok_def)
  have l: "bucket_locks s ! ?i = RW_Unlocked" "length (bucket_locks s) = 5" and t: "length (table s) = 5"
    using wf sl r by (auto simp: wf_two_level_def table_ok_def)
  have restore: "(bucket_locks s)[?i := RW_Unlocked] = bucket_locks s"
    using l(1) list_update_id by metis
  note req = retrieve_two_level_eq[OF wf sl as]
  define th1 where "th1 = (call_retrieve k)\<lparr>pc := Retrieve_Loop, current := table s ! ?i,
      trace := [Acquire_Bucket (slot k)]\<rparr>"
  define s1 where "s1 = s\<lparr>bucket_locks := (bucket_locks s)[?i := RW_Readers 1],
      lock_log := lock_log s @ [Acquire_Bucket (slot k)]\<rparr>"
  have 1: "run (replicate 2 0) \<lparr>shared = s, threads = [call_retrieve k]\<rparr> = return \<lparr>shared = s1, threads = [th1]\<rparr>"
    using solo_enter_retrieve[of "call_retrieve k" s] sl r l t by (simp add: call_retrieve_def th1_def s1_def)
  have th1: "pc th1 = Retrieve_Loop" "current th1 = table s ! ?i" "key_arg th1 = k"
    by (simp_all add: th1_def call_retrieve_def)
  have s1: "heap s1 = heap s" "table s1 = table s" "bucket_locks s1 ! ?i = RW_Readers 1"
    "length (bucket_locks s1) = 5" "malloc s1 = malloc s"
    using l r sl by (simp_all add: s1_def)
  define f where "f = find (\<lambda>a. key_at (heap s) a = k) as"
  obtain n1 where 2: "run (replicate n1 0) \<lparr>shared = s1, threads = [th1]\<rparr> =
     return \<lparr>shared = s1,
             threads = [th1\<lparr>pc := (case f of Some c \<Rightarrow> Retrieve_Mutex_Lock | None \<Rightarrow> Retrieve_Unlock_Null),
                           current := f\<rparr>]\<rparr>"
    using solo_loop_retrieve[of s1 "table s ! ?i" as th1] as th1 s1
    by (auto simp: f_def cong: option.case_cong)
  show ?thesis
  proof (cases f)
    case None
    define th2 where "th2 = th1\<lparr>pc := Retrieve_Unlock_Null, current := None\<rparr>"
    have th2: "pc th2 = Retrieve_Unlock_Null" "key_arg th2 = k" using th1 by (simp_all add: th2_def)
    have 3: "run (replicate 1 0) \<lparr>shared = s1, threads = [th2]\<rparr> =
       return \<lparr>shared = s\<lparr>lock_log := lock_log s @ [Acquire_Bucket (slot k), Release_Bucket (slot k)]\<rparr>,
               threads = [th2\<lparr>pc := Returned, allocated := None,
                          trace := trace th2 @ [Release_Bucket (slot k)]\<rparr>]\<rparr>"
      using solo_not_found[of th2 s1] th2 s1 sl r restore by (simp add: s1_def)
    have "run (replicate (2 + (n1 + 1)) 0) \<lparr>shared = s, threads = [call_retrieve k]\<rparr> =
       and_then (retrieve_two_level k s) (\<lambda>(result, s'). return \<lparr>shared = s',
           threads = [(th2\<lparr>pc := Returned, trace := trace th2 @ [Release_Bucket (slot k)]\<rparr>)\<lparr>allocated := result\<rparr>]\<rparr>)"
      unfolding run_replicate_add 1 using 2 3 None req by (simp add: th2_def f_def)
    then show ?thesis by (intro exI[of _ "2 + (n1 + 1)"] exI conjI) (auto simp del: replicate.simps run.simps)
  next
    case (Some b)
    then have b: "b \<in> set as" by (auto simp: f_def find_Some_iff)
    then obtain e where e: "heap s b = Some e" using as chain_live by fastforce
    have un: "entry_mutex e = Mutex_Unlocked"
      using wf sl as b e r entries_unlockedD[of s "slot k" as b e] by (simp add: wf_two_level_def)
    define th2 where "th2 = th1\<lparr>pc := Retrieve_Mutex_Lock, current := Some b\<rparr>"
    have th2: "pc th2 = Retrieve_Mutex_Lock" "current th2 = Some b" "key_arg th2 = k"
      using th1 by (simp_all add: th2_def)
    show ?thesis
    proof (cases "malloc s")
      case (Some a)
      have 3: "run (replicate 4 0) \<lparr>shared = s1, threads = [th2]\<rparr> =
         return \<lparr>shared = s\<lparr>heap := (heap s)(a \<mapsto> \<lparr>key = key e, val = val e, next = None,
                                                       entry_mutex = Mutex_Unlocked\<rparr>),
                     lock_log := lock_log s @ [Acquire_Bucket (slot k), Acquire_Entry b, Release_Entry b,
                                               Release_Bucket (slot k)]\<rparr>,
                 threads = [th2\<lparr>pc := Returned, allocated := Some a,
                            trace := trace th2 @ [Acquire_Entry b, Release_Entry b, Release_Bucket (slot k)]\<rparr>]\<rparr>"
        using solo_copy[of th2 b s1 e a] th2 s1 e un sl r Some restore by (simp add: s1_def)
      have "run (replicate (2 + (n1 + 4)) 0) \<lparr>shared = s, threads = [call_retrieve k]\<rparr> =
         and_then (retrieve_two_level k s) (\<lambda>(result, s'). return \<lparr>shared = s',
             threads = [(th2\<lparr>pc := Returned,
                  trace := trace th2 @ [Acquire_Entry b, Release_Entry b, Release_Bucket (slot k)]\<rparr>)\<lparr>allocated := result\<rparr>]\<rparr>)"
        unfolding run_replicate_add 1 using 2 3 \<open>f = Some b\<close> Some req e
        by (simp add: th2_def f_def key_at_def val_at_def)
      then show ?thesis by (intro exI[of _ "2 + (n1 + 4)"] exI conjI) (auto simp del: replicate.simps run.simps)
    next
      case None
      have 3: "run (replicate 5 0) \<lparr>shared = s1, threads = [th2]\<rparr> =
         panic ''No memory to allocate result!''
           (s\<lparr>lock_log := lock_log s @ [Acquire_Bucket (slot k), Acquire_Entry b, Release_Entry b,
                                       Release_Bucket (slot k)]\<rparr>)"
        using solo_copy_fails[of th2 b s1 e] th2 s1 e un sl r None restore by (simp add: s1_def)
      have "run (replicate (2 + (n1 + 5)) 0) \<lparr>shared = s, threads = [call_retrieve k]\<rparr> =
         and_then (retrieve_two_level k s) (\<lambda>(result, s'). return \<lparr>shared = s',
             threads = [(th2\<lparr>pc := Returned\<rparr>)\<lparr>allocated := result\<rparr>]\<rparr>)"
        unfolding run_replicate_add 1 using 2 3 \<open>f = Some b\<close> None req
        by (simp add: th2_def f_def panic_def)
      then show ?thesis by (intro exI[of _ "2 + (n1 + 5)"] exI conjI) (auto simp del: replicate.simps run.simps)
    qed
  qed
qed

section \<open>C1: insert is an idempotent upsert\<close>

text \<open>
  C1, as the spec states it: for every table state, every key and every value, insert
  updates the value of the entry with this key in place if the bucket has one, and
  otherwise allocates a new entry and links it at the head of the bucket's chain. The code
  does not do so in two cases. By design, when the key is new and malloc returns NULL,
  insert links nothing and ends the process (\<open>panic\<close>). And a key whose C remainder
  \<open>key % 5\<close> is negative has no bucket: the call is undefined behaviour (see C6) although
  memory is available.
\<close>

theorem insert_no_memory_or_negative_key:
  "insert_spin 7 1 (init_spin 0) = Some (Inl (Exited 1 ''No memory to allocate bucket!'' (init_spin 0)))
   \<and> malloc (init_spin 1) = Some 0
   \<and> insert_spin (- 1) 0 (init_spin 1) = Some (Inl Undefined_Behaviour)"
  by (simp add: run_spin run_memory)

text \<open>
  C1, amended: for every well-formed state (\<open>wf_spin\<close>, \<open>wf_rw\<close>, \<open>wf_two_level\<close>), every
  value and every key whose remainder \<open>key % 5\<close> is not negative (every non-negative key),
  with \<open>as\<close> the chain of the key's bucket: if an entry of the chain has the key, insert
  writes the value into that entry in place and returns, whatever the state of the memory
  (no error for a duplicate key); if no entry has the key and malloc succeeds, insert links
  a new entry with the key and the value at the head of the chain; if no entry has the key
  and malloc fails, the process ends with status 1. The state insert returns is well-formed
  and a second \<open>insert(k, v)\<close> leaves it as it is (in the two-level variant: its heap,
  table and locks). This holds in each of the three variants.
\<close>

theorem insert_is_upsert:
  assumes "0 \<le> slot k"
  shows
   "(wf_spin sa \<and> chain (heap sa) (table sa ! nat (slot k)) as \<longrightarrow>
      (\<forall>c e. c \<in> set as \<and> heap sa c = Some e \<and> key e = k \<longrightarrow>
          insert_spin k v sa = return (sa\<lparr>heap := (heap sa)(c \<mapsto> e\<lparr>val := v\<rparr>)\<rparr>))
      \<and> ((\<forall>c\<in>set as. key_at (heap sa) c \<noteq> k) \<longrightarrow>
            (\<forall>a. malloc sa = Some a \<longrightarrow>
               insert_spin k v sa =
                 return (sa\<lparr>heap := (heap sa)(a \<mapsto> \<lparr>key = k, val = v, next = table sa ! nat (slot k)\<rparr>),
                            table := (table sa)[nat (slot k) := Some a]\<rparr>))
            \<and> (malloc sa = None \<longrightarrow> insert_spin k v sa = panic ''No memory to allocate bucket!'' sa))
      \<and> (\<forall>s'. insert_spin k v sa = return s' \<longrightarrow> wf_spin s' \<and> insert_spin k v s' = return s'))
  \<and> (wf_rw sb \<and> chain (heap sb) (table sb ! nat (slot k)) bs \<longrightarrow>
      (\<forall>c e. c \<in> set bs \<and> heap sb c = Some e \<and> key e = k \<longrightarrow>
          insert_rw k v sb = return (sb\<lparr>heap := (heap sb)(c \<mapsto> e\<lparr>val := v\<rparr>)\<rparr>))
      \<and> ((\<forall>c\<in>set bs. key_at (heap sb) c \<noteq> k) \<longrightarrow>
            (\<forall>a. malloc sb = Some a \<longrightarrow>
               insert_rw k v sb =
                 return (sb\<lparr>heap := (heap sb)(a \<mapsto> \<lparr>key = k, val = v, next = table sb ! nat (slot k)\<rparr>),
                            table := (table sb)[nat (slot k) := Some a]\<rparr>))
            \<and> (malloc sb = None \<longrightarrow> insert_rw k v sb = panic ''No memory to allocate bucket!'' sb))
      \<and> (\<forall>s'. insert_rw k v sb = return s' \<longrightarrow> wf_rw s' \<and> insert_rw k v s' = return s'))
  \<and> (wf_two_level sc \<and> chain (heap sc) (table sc ! nat (slot k)) cs \<longrightarrow>
      (\<forall>c e. c \<in> set cs \<and> heap sc c = Some e \<and> key e = k \<longrightarrow>
          insert_two_level k v sc =
            return (sc\<lparr>heap := (heap sc)(c \<mapsto> e\<lparr>val := v\<rparr>),
                       lock_log := lock_log sc @ [Acquire_Bucket (slot k), Acquire_Entry c, Release_Entry c,
                                                  Release_Bucket (slot k)]\<rparr>))
      \<and> ((\<forall>c\<in>set cs. key_at (heap sc) c \<noteq> k) \<longrightarrow>
            (\<forall>a. malloc sc = Some a \<longrightarrow>
               insert_two_level k v sc =
                 return (sc\<lparr>heap := (heap sc)(a \<mapsto> \<lparr>key = k, val = v, next = table sc ! nat (slot k),
                                                      entry_mutex = Mutex_Unlocked\<rparr>),
                            table := (table sc)[nat (slot k) := Some a],
                            lock_log := lock_log sc @ [Acquire_Bucket (slot k), Release_Bucket (slot k),
                                                       Acquire_Bucket (slot k), Release_Bucket (slot k)]\<rparr>))
            \<and> (malloc sc = None \<longrightarrow>
                 insert_two_level k v sc =
                   panic ''No memory to allocate bucket!''
                     (sc\<lparr>lock_log := lock_log sc @ [Acquire_Bucket (slot k), Release_Bucket (slot k),
                                                   Acquire_Bucket (slot k), Release_Bucket (slot k)]\<rparr>)))
      \<and> (\<forall>s'. insert_two_level k v sc = return s' \<longrightarrow> wf_two_level s' \<and>
             (\<exists>s''. insert_two_level k v s' = return s'' \<and> heap s'' = heap s' \<and> table s'' = table s'
                \<and> bucket_locks s'' = bucket_locks s' \<and> mem_cells s'' = mem_cells s')))"
proof (intro conjI)
  show "wf_spin sa \<and> chain (heap sa) (table sa ! nat (slot k)) as \<longrightarrow>
      (\<forall>c e. c \<in> set as \<and> heap sa c = Some e \<and> key e = k \<longrightarrow>
          insert_spin k v sa = return (sa\<lparr>heap := (heap sa)(c \<mapsto> e\<lparr>val := v\<rparr>)\<rparr>))
      \<and> ((\<forall>c\<in>set as. key_at (heap sa) c \<noteq> k) \<longrightarrow>
            (\<forall>a. malloc sa = Some a \<longrightarrow>
               insert_spin k v sa =
                 return (sa\<lparr>heap := (heap sa)(a \<mapsto> \<lparr>key = k, val = v, next = table sa ! nat (slot k)\<rparr>),
                            table := (table sa)[nat (slot k) := Some a]\<rparr>))
            \<and> (malloc sa = None \<longrightarrow> insert_spin k v sa = panic ''No memory to allocate bucket!'' sa))
      \<and> (\<forall>s'. insert_spin k v sa = return s' \<longrightarrow> wf_spin s' \<and> insert_spin k v s' = return s')"
    by (rule impI, erule conjE, rule upsert_spin[OF assms])
next
  show "wf_rw sb \<and> chain (heap sb) (table sb ! nat (slot k)) bs \<longrightarrow>
      (\<forall>c e. c \<in> set bs \<and> heap sb c = Some e \<and> key e = k \<longrightarrow>
          insert_rw k v sb = return (sb\<lparr>heap := (heap sb)(c \<mapsto> e\<lparr>val := v\<rparr>)\<rparr>))
      \<and> ((\<forall>c\<in>set bs. key_at (heap sb) c \<noteq> k) \<longrightarrow>
            (\<forall>a. malloc sb = Some a \<longrightarrow>
               insert_rw k v sb =
                 return (sb\<lparr>heap := (heap sb)(a \<mapsto> \<lparr>key = k, val = v, next = table sb ! nat (slot k)\<rparr>),
                            table := (table sb)[nat (slot k) := Some a]\<rparr>))
            \<and> (malloc sb = None \<longrightarrow> insert_rw k v sb = panic ''No memory to allocate bucket!'' sb))
      \<and> (\<forall>s'. insert_rw k v sb = return s' \<longrightarrow> wf_rw s' \<and> insert_rw k v s' = return s')"
    by (rule impI, erule conjE, rule upsert_rw[OF assms])
next
  show "wf_two_level sc \<and> chain (heap sc) (table sc ! nat (slot k)) cs \<longrightarrow>
      (\<forall>c e. c \<in> set cs \<and> heap sc c = Some e \<and> key e = k \<longrightarrow>
          insert_two_level k v sc =
            return (sc\<lparr>heap := (heap sc)(c \<mapsto> e\<lparr>val := v\<rparr>),
                       lock_log := lock_log sc @ [Acquire_Bucket (slot k), Acquire_Entry c, Release_Entry c,
                                                  Release_Bucket (slot k)]\<rparr>))
      \<and> ((\<forall>c\<in>set cs. key_at (heap sc) c \<noteq> k) \<longrightarrow>
            (\<forall>a. malloc sc = Some a \<longrightarrow>
               insert_two_level k v sc =
                 return (sc\<lparr>heap := (heap sc)(a \<mapsto> \<lparr>key = k, val = v, next = table sc ! nat (slot k),
                                                      entry_mutex = Mutex_Unlocked\<rparr>),
                            table := (table sc)[nat (slot k) := Some a],
                            lock_log := lock_log sc @ [Acquire_Bucket (slot k), Release_Bucket (slot k),
                                                       Acquire_Bucket (slot k), Release_Bucket (slot k)]\<rparr>))
            \<and> (malloc sc = None \<longrightarrow>
                 insert_two_level k v sc =
                   panic ''No memory to allocate bucket!''
                     (sc\<lparr>lock_log := lock_log sc @ [Acquire_Bucket (slot k), Release_Bucket (slot k),
                                                   Acquire_Bucket (slot k), Release_Bucket (slot k)]\<rparr>)))
      \<and> (\<forall>s'. insert_two_level k v sc = return s' \<longrightarrow> wf_two_level s' \<and>
             (\<exists>s''. insert_two_level k v s' = return s'' \<and> heap s'' = heap s' \<and> table s'' = table s'
                \<and> bucket_locks s'' = bucket_locks s' \<and> mem_cells s'' = mem_cells s'))"
    by (rule impI, erule conjE, rule upsert_two_level[OF assms])
qed

theorem insert_is_upsert_witness:
  "insert_spin 1 30 example_spin =
     return (example_spin\<lparr>heap := (heap example_spin)(0 \<mapsto> \<lparr>key = 1, val = 30, next = None\<rparr>)\<rparr>)
   \<and> insert_spin 11 5 example_spin =
     return (example_spin\<lparr>heap := (heap example_spin)(2 \<mapsto> \<lparr>key = 11, val = 5, next = Some 1\<rparr>),
                          table := [None, Some 2, None, None, None]\<rparr>)
   \<and> insert_rw 1 30 example_rw =
     return (example_rw\<lparr>heap := (heap example_rw)(0 \<mapsto> \<lparr>key = 1, val = 30, next = None\<rparr>)\<rparr>)
   \<and> insert_rw 11 5 example_rw =
     return (example_rw\<lparr>heap := (heap example_rw)(2 \<mapsto> \<lparr>key = 11, val = 5, next = Some 1\<rparr>),
                        table := [None, Some 2, None, None, None]\<rparr>)
   \<and> insert_two_level 1 30 example_two_level =
     return (example_two_level\<lparr>heap := (heap example_two_level)
                                   (0 \<mapsto> \<lparr>key = 1, val = 30, next = None, entry_mutex = Mutex_Unlocked\<rparr>),
               lock_log := [Acquire_Bucket 1, Acquire_Entry 0, Release_Entry 0, Release_Bucket 1]\<rparr>)
   \<and> insert_two_level 11 5 example_two_level =
     return (example_two_level\<lparr>heap := (heap example_two_level)
                                   (2 \<mapsto> \<lparr>key = 11, val = 5, next = Some 1, entry_mutex = Mutex_Unlocked\<rparr>),
               table := [None, Some 2, None, None, None],
               lock_log := [Acquire_Bucket 1, Release_Bucket 1, Acquire_Bucket 1, Release_Bucket 1]\<rparr>)"
proof -
  note found = insert_is_upsert[OF example_slot(1), of example_spin "[1, 0]" 30 example_rw "[1, 0]"
      example_two_level "[1, 0]"]
  note new = insert_is_upsert[OF example_slot(2), of example_spin "[1, 0]" 5 example_rw "[1, 0]"
      example_two_level "[1, 0]"]
  have e: "heap example_spin 0 = Some \<lparr>key = 1, val = 10, next = None\<rparr>"
    "heap example_rw 0 = Some \<lparr>key = 1, val = 10, next = None\<rparr>"
    "heap example_two_level 0 = Some \<lparr>key = 1, val = 10, next = None, entry_mutex = Mutex_Unlocked\<rparr>"
    by (simp_all add: example_spin_def example_rw_def example_two_level_def)
  have absent: "\<forall>c\<in>set [1, 0]. key_at (heap example_spin) c \<noteq> 11"
    "\<forall>c\<in>set [1, 0]. key_at (heap example_rw) c \<noteq> 11"
    "\<forall>c\<in>set [1, 0]. key_at (heap example_two_level) c \<noteq> 11"
    by (simp_all add: example_spin_def example_rw_def example_two_level_def key_at_def)
  have t: "(table example_spin)[nat (slot 11) := Some 2] = [None, Some 2, None, None, None]"
    "(table example_rw)[nat (slot 11) := Some 2] = [None, Some 2, None, None, None]"
    "(table example_two_level)[nat (slot 11) := Some 2] = [None, Some 2, None, None, None]"
    "table example_spin ! nat (slot 11) = Some 1" "table example_rw ! nat (slot 11) = Some 1"
    "table example_two_level ! nat (slot 11) = Some 1" "lock_log example_two_level = []"
    by (simp_all add: example_spin_def example_rw_def example_two_level_def example_slot)
  note fa = found[THEN conjunct1, THEN mp, OF conjI[OF wf_example_spin example_chain(1)]]
  note fb = found[THEN conjunct2, THEN conjunct1, THEN mp, OF conjI[OF wf_example_rw example_chain(2)]]
  note fc = found[THEN conjunct2, THEN conjunct2, THEN mp, OF conjI[OF wf_example_two_level example_chain(3)]]
  note na = new[THEN conjunct1, THEN mp, OF conjI[OF wf_example_spin example_chain(4)]]
  note nb = new[THEN conjunct2, THEN conjunct1, THEN mp, OF conjI[OF wf_example_rw example_chain(5)]]
  note nc = new[THEN conjunct2, THEN conjunct2, THEN mp, OF conjI[OF wf_example_two_level example_chain(6)]]
  have "insert_spin 1 30 example_spin =
     return (example_spin\<lparr>heap := (heap example_spin)(0 \<mapsto> \<lparr>key = 1, val = 30, next = None\<rparr>)\<rparr>)"
    using fa[THEN conjunct1, rule_format, of 0 "\<lparr>key = 1, val = 10, next = None\<rparr>"] e(1) by simp
  moreover have "insert_spin 11 5 example_spin =
     return (example_spin\<lparr>heap := (heap example_spin)(2 \<mapsto> \<lparr>key = 11, val = 5, next = Some 1\<rparr>),
                          table := [None, Some 2, None, None, None]\<rparr>)"
    using na[THEN conjunct2, THEN conjunct1, THEN mp, OF absent(1), THEN conjunct1, rule_format, OF example_malloc(1)] t
    by simp
  moreover have "insert_rw 1 30 example_rw =
     return (example_rw\<lparr>heap := (heap example_rw)(0 \<mapsto> \<lparr>key = 1, val = 30, next = None\<rparr>)\<rparr>)"
    using fb[THEN conjunct1, rule_format, of 0 "\<lparr>key = 1, val = 10, next = None\<rparr>"] e(2) by simp
  moreover have "insert_rw 11 5 example_rw =
     return (example_rw\<lparr>heap := (heap example_rw)(2 \<mapsto> \<lparr>key = 11, val = 5, next = Some 1\<rparr>),
                        table := [None, Some 2, None, None, None]\<rparr>)"
    using nb[THEN conjunct2, THEN conjunct1, THEN mp, OF absent(2), THEN conjunct1, rule_format, OF example_malloc(2)] t
    by simp
  moreover have "insert_two_level 1 30 example_two_level =
     return (example_two_level\<lparr>heap := (heap example_two_level)
                                   (0 \<mapsto> \<lparr>key = 1, val = 30, next = None, entry_mutex = Mutex_Unlocked\<rparr>),
               lock_log := [Acquire_Bucket 1, Acquire_Entry 0, Release_Entry 0, Release_Bucket 1]\<rparr>)"
    using fc[THEN conjunct1, rule_format, of 0 "\<lparr>key = 1, val = 10, next = None, entry_mutex = Mutex_Unlocked\<rparr>"]
      e(3) t(7) example_slot(3) by simp
  moreover have "insert_two_level 11 5 example_two_level =
     return (example_two_level\<lparr>heap := (heap example_two_level)
                                   (2 \<mapsto> \<lparr>key = 11, val = 5, next = Some 1, entry_mutex = Mutex_Unlocked\<rparr>),
               table := [None, Some 2, None, None, None],
               lock_log := [Acquire_Bucket 1, Release_Bucket 1, Acquire_Bucket 1, Release_Bucket 1]\<rparr>)"
    using nc[THEN conjunct2, THEN conjunct1, THEN mp, OF absent(3), THEN conjunct1, rule_format, OF example_malloc(3)]
      t example_slot(4) by simp
  ultimately show ?thesis by (intro conjI)
qed

section \<open>C2: lookup returns an independent copy\<close>




section \<open>C3: one entry per inserted key\<close>




section \<open>C4: the three strategies are equivalent\<close>




section \<open>C5: two threads insert the same absent key\<close>

text \<open>
  C5. Two threads call \<open>insert\<close> of the two-level variant with the same key \<open>k\<close>, which
  has no entry, and values \<open>v1\<close> and \<open>v2\<close>, from a well-formed state; their steps interleave
  in any order (\<open>sched\<close> names the thread that moves at each step). Whatever the order, every
  state reached has a well-formed table, so that no chain ever holds two entries with the
  same key; and once both calls have returned, the state is well-formed with every bucket
  lock and every entry lock free, and the chain of the bucket of \<open>k\<close> holds exactly one
  entry with key \<open>k\<close>, whose value is \<open>v1\<close> or \<open>v2\<close>.
\<close>

theorem double_checked_insert:
  assumes wf: "wf_two_level s" and ab: "stored s k = None"
    and r: "run sched \<lparr>shared = s, threads = [call_insert k v1, call_insert k v2]\<rparr> = return c"
  shows "table_ok (shared c)
     \<and> ((\<forall>th\<in>set (threads c). pc th = Returned) \<longrightarrow>
           wf_two_level (shared c)
         \<and> (stored (shared c) k = Some v1 \<and> holds_once (shared c) k v1
            \<or> stored (shared c) k = Some v2 \<and> holds_once (shared c) k v2))"
proof (cases "0 \<le> slot k")
  case True
  have "\<forall>th\<in>set [call_insert k v1, call_insert k v2]. \<exists>v\<in>{v1, v2}. th = call_insert k v" by simp
  then have inv0: "race_inv k {v1, v2} \<lparr>shared = s, threads = [call_insert k v1, call_insert k v2]\<rparr>"
    using race_init[OF wf True ab] by blast
  have inv: "race_inv k {v1, v2} c" using race_run[OF r inv0 True] .
  have q: "locks_inv k c" using locks_run[OF r inv0 locks_init[OF wf] True] .
  have ok: "table_ok (shared c)" using inv by (simp add: race_inv_def)
  have "wf_two_level (shared c)
         \<and> (stored (shared c) k = Some v1 \<and> holds_once (shared c) k v1
            \<or> stored (shared c) k = Some v2 \<and> holds_once (shared c) k v2)"
    if fin: "\<forall>th\<in>set (threads c). pc th = Returned"
  proof -
    have "length (threads c) = 2" using run_length[OF r] by simp
    then have "threads c ! 0 \<in> set (threads c)" by simp
    then have "\<exists>v\<in>{v1, v2}. stored (shared c) k = Some v \<and> holds_once (shared c) k v"
      using race_final[OF inv True] fin by blast
    then show ?thesis using locks_final[OF inv q True fin] by blast
  qed
  then show ?thesis using ok by blast
next
  case False
  then have "c = \<lparr>shared = s, threads = [call_insert k v1, call_insert k v2]\<rparr>"
    using bad_slot_no_run[of k "[call_insert k v1, call_insert k v2]" sched s c] r by auto
  then show ?thesis using wf by (simp add: wf_two_level_def call_insert_def)
qed

theorem double_checked_insert_witness:
  "\<exists>c. run [0, 1, 0, 1, 0, 0, 1, 1, 0, 1, 0, 1, 0, 0, 0, 0, 0, 0, 0, 0, 1, 1, 1, 1, 1, 1, 1]
          \<lparr>shared = example_two_level, threads = [call_insert 11 5, call_insert 11 7]\<rparr> = return c
       \<and> map pc (threads c) = [Returned, Returned]
       \<and> table_ok (shared c)
       \<and> wf_two_level (shared c)
       \<and> (stored (shared c) 11 = Some 5 \<and> holds_once (shared c) 11 5
          \<or> stored (shared c) 11 = Some 7 \<and> holds_once (shared c) 11 7)"
proof -
  obtain c where r: "run [0, 1, 0, 1, 0, 0, 1, 1, 0, 1, 0, 1, 0, 0, 0, 0, 0, 0, 0, 0, 1, 1, 1, 1, 1, 1, 1]
          \<lparr>shared = example_two_level, threads = [call_insert 11 5, call_insert 11 7]\<rparr> = return c"
    and p: "map pc (threads c) = [Returned, Returned]"
    using example_race by auto
  have ab: "stored example_two_level 11 = None"
    using stored_None_iff[OF example_slot(2) example_chain(6)] find_key_None[OF example_absent(3)] by simp
  have fin: "\<forall>th\<in>set (threads c). pc th = Returned"
  proof
    fix th assume "th \<in> set (threads c)"
    then have "pc th \<in> set (map pc (threads c))" by simp
    then show "pc th = Returned" unfolding p by simp
  qed
  note t = double_checked_insert[OF wf_example_two_level ab r]
  have t1: "table_ok (shared c)" using t[THEN conjunct1] .
  have t2: "wf_two_level (shared c)"
    using t[THEN conjunct2, THEN mp, OF fin, THEN conjunct1] .
  have t3: "stored (shared c) 11 = Some 5 \<and> holds_once (shared c) 11 5
          \<or> stored (shared c) 11 = Some 7 \<and> holds_once (shared c) 11 7"
    using t[THEN conjunct2, THEN mp, OF fin, THEN conjunct2] .
  show ?thesis by (rule exI[of _ c], intro conjI) (fact r, fact p, fact t1, fact t2, fact t3)
qed

section \<open>C6: the bucket slot of a key\<close>

text \<open>
  C6. For every key the slot used by insert and lookup is the key modulo the bucket count
  (5), a valid index in [0, 5), in every variant. The code computes the slot with the
  remainder of C, which is negative for a negative key that is not a multiple of 5: the key
  -1 gets slot -1, an index outside the table and outside the lock array, and every insert
  and every lookup of that key is undefined behaviour, in all three variants. (For a
  non-negative key the slot is the key modulo 5 and valid: \<open>slot_valid_for_nonnegative_key\<close>.)
\<close>

theorem negative_key_slot_outside_table:
  "slot (- 1) = - 1
   \<and> insert_spin (- 1) 0 (init_spin 1) = Some (Inl Undefined_Behaviour)
   \<and> retrieve_spin (- 1) (init_spin 1) = Some (Inl Undefined_Behaviour)
   \<and> insert_rw (- 1) 0 (init_rw 1) = Some (Inl Undefined_Behaviour)
   \<and> retrieve_rw (- 1) (init_rw 1) = Some (Inl Undefined_Behaviour)
   \<and> insert_two_level (- 1) 0 (init_two_level 1) = Some (Inl Undefined_Behaviour)
   \<and> retrieve_two_level (- 1) (init_two_level 1) = Some (Inl Undefined_Behaviour)"
  by (simp add: slot_minus_one insert_spin_bad_slot retrieve_spin_bad_slot insert_rw_bad_slot
      retrieve_rw_bad_slot insert_two_level_bad_slot retrieve_two_level_bad_slot)

section \<open>C7: the lock ordering discipline\<close>

text \<open>
  C7. In the two-level variant every run of insert and of lookup from a well-formed state,
  whether it returns or ends the process, appends to the log of lock operations a sequence
  in which a bucket lock is only acquired while no entry lock is held, an entry lock is only
  acquired while a bucket lock is held and no other entry lock is, and at the end of which
  no lock is held. The update of an entry found under the bucket lock (the branch both
  scans of insert share, here from any state in which the calling thread holds the bucket
  lock) takes the entry lock, releases it, and then releases the bucket lock. And when any
  number of threads, each in a call of insert or of lookup, take their steps in any order
  from any state, the lock operations of each thread obey the same discipline at every
  moment, and a thread that has returned holds no lock.
\<close>

theorem lock_ordering_discipline:
  "(wf_two_level s \<longrightarrow>
      (\<forall>s'. insert_two_level k v s = return s' \<or> (\<exists>st msg. insert_two_level k v s = Some (Inl (Exited st msg s'))) \<longrightarrow>
            (\<exists>evs. lock_log s' = lock_log s @ evs \<and> lock_order_ok [] [] evs \<and> locks_held [] [] evs = ([], [])))
       \<and> (\<forall>r s'. retrieve_two_level k s = return (r, s') \<or> (\<exists>st msg. retrieve_two_level k s = Some (Inl (Exited st msg s'))) \<longrightarrow>
            (\<exists>evs. lock_log s' = lock_log s @ evs \<and> lock_order_ok [] [] evs \<and> locks_held [] [] evs = ([], []))))
   \<and> (heap s c = Some e \<and> entry_mutex e = Mutex_Unlocked \<and> 0 \<le> i \<and> i < int (length (bucket_locks s))
        \<and> (bucket_locks s ! nat i = RW_Readers 1 \<or> bucket_locks s ! nat i = RW_Writer) \<longrightarrow>
        (\<exists>s'. update_entry i c v s = return s' \<and>
            lock_log s' = lock_log s @ [Acquire_Entry c, Release_Entry c, Release_Bucket i]
          \<and> lock_order_ok [i] [] [Acquire_Entry c, Release_Entry c, Release_Bucket i]
          \<and> locks_held [i] [] [Acquire_Entry c, Release_Entry c, Release_Bucket i] = ([], [])))
   \<and> ((\<forall>th\<in>set ths. (\<exists>k v. th = call_insert k v) \<or> (\<exists>k. th = call_retrieve k))
        \<and> run sched \<lparr>shared = s, threads = ths\<rparr> = return p \<longrightarrow>
        (\<forall>th\<in>set (threads p). lock_order_ok [] [] (trace th)
            \<and> (pc th = Returned \<longrightarrow> locks_held [] [] (trace th) = ([], []))))"
proof (intro conjI impI)
  assume "wf_two_level s"
  then show "\<forall>s'. insert_two_level k v s = return s' \<or> (\<exists>st msg. insert_two_level k v s = Some (Inl (Exited st msg s'))) \<longrightarrow>
            (\<exists>evs. lock_log s' = lock_log s @ evs \<and> lock_order_ok [] [] evs \<and> locks_held [] [] evs = ([], []))"
    by (rule lock_order_two_level[THEN conjunct1])
next
  assume "wf_two_level s"
  then show "\<forall>r s'. retrieve_two_level k s = return (r, s') \<or> (\<exists>st msg. retrieve_two_level k s = Some (Inl (Exited st msg s'))) \<longrightarrow>
            (\<exists>evs. lock_log s' = lock_log s @ evs \<and> lock_order_ok [] [] evs \<and> locks_held [] [] evs = ([], []))"
    by (rule lock_order_two_level[THEN conjunct2])
next
  assume a: "heap s c = Some e \<and> entry_mutex e = Mutex_Unlocked \<and> 0 \<le> i \<and> i < int (length (bucket_locks s))
        \<and> (bucket_locks s ! nat i = RW_Readers 1 \<or> bucket_locks s ! nat i = RW_Writer)"
  show "\<exists>s'. update_entry i c v s = return s' \<and>
            lock_log s' = lock_log s @ [Acquire_Entry c, Release_Entry c, Release_Bucket i]
          \<and> lock_order_ok [i] [] [Acquire_Entry c, Release_Entry c, Release_Bucket i]
          \<and> locks_held [i] [] [Acquire_Entry c, Release_Entry c, Release_Bucket i] = ([], [])"
    using lock_order_update_entry[of s c e i v] a by blast
next
  assume a: "(\<forall>th\<in>set ths. (\<exists>k v. th = call_insert k v) \<or> (\<exists>k. th = call_retrieve k))
        \<and> run sched \<lparr>shared = s, threads = ths\<rparr> = return p"
  then have "\<forall>th\<in>set (threads \<lparr>shared = s, threads = ths\<rparr>). disciplined th"
    using disciplined_call by auto
  then have "\<forall>th\<in>set (threads p). disciplined th"
    using disciplined_run a by blast
  then show "\<forall>th\<in>set (threads p). lock_order_ok [] [] (trace th)
            \<and> (pc th = Returned \<longrightarrow> locks_held [] [] (trace th) = ([], []))"
    by (auto simp: disciplined_def holding_def)
qed

theorem lock_ordering_discipline_witness:
  "(\<exists>s'. insert_two_level 1 30 example_two_level = return s'
        \<and> lock_log s' = [Acquire_Bucket 1, Acquire_Entry 0, Release_Entry 0, Release_Bucket 1]
        \<and> lock_order_ok [] [] (lock_log s') \<and> locks_held [] [] (lock_log s') = ([], []))
   \<and> (\<exists>s'. insert_two_level 11 5 example_two_level = return s'
        \<and> lock_log s' = [Acquire_Bucket 1, Release_Bucket 1, Acquire_Bucket 1, Release_Bucket 1]
        \<and> lock_order_ok [] [] (lock_log s') \<and> locks_held [] [] (lock_log s') = ([], []))
   \<and> (\<exists>r s'. retrieve_two_level 1 example_two_level = return (r, s')
        \<and> lock_log s' = [Acquire_Bucket 1, Acquire_Entry 0, Release_Entry 0, Release_Bucket 1]
        \<and> lock_order_ok [] [] (lock_log s') \<and> locks_held [] [] (lock_log s') = ([], []))
   \<and> (\<exists>p. run [0, 1, 0, 1, 0, 0, 1, 1, 0, 1, 0, 1, 0, 0, 0, 0, 0, 0, 0, 0, 1, 1, 1, 1, 1, 1, 1]
             \<lparr>shared = example_two_level, threads = [call_insert 11 5, call_insert 11 7]\<rparr> = return p
        \<and> map trace (threads p) =
             [[Acquire_Bucket 1, Release_Bucket 1, Acquire_Bucket 1, Release_Bucket 1],
              [Acquire_Bucket 1, Release_Bucket 1, Acquire_Bucket 1, Acquire_Entry 2, Release_Entry 2,
               Release_Bucket 1]]
        \<and> (\<forall>th\<in>set (threads p). lock_order_ok [] [] (trace th) \<and> locks_held [] [] (trace th) = ([], [])))"
proof -
  have l0: "lock_log example_two_level = []" by (simp add: example_two_level_def)
  obtain c1 where c1: "insert_two_level 1 30 example_two_level = return c1"
    and l1: "lock_log c1 = [Acquire_Bucket 1, Acquire_Entry 0, Release_Entry 0, Release_Bucket 1]"
    by (simp add: example_two_level_def run_two_level run_rwlock run_memory)
  obtain c2 where c2: "insert_two_level 11 5 example_two_level = return c2"
    and l2: "lock_log c2 = [Acquire_Bucket 1, Release_Bucket 1, Acquire_Bucket 1, Release_Bucket 1]"
    by (simp add: example_two_level_def run_two_level run_rwlock run_memory)
  obtain r c3 where c3: "retrieve_two_level 1 example_two_level = return (r, c3)"
    and l3: "lock_log c3 = [Acquire_Bucket 1, Acquire_Entry 0, Release_Entry 0, Release_Bucket 1]"
    by (simp add: example_two_level_def run_two_level run_rwlock run_memory)
  obtain p where p: "run [0, 1, 0, 1, 0, 0, 1, 1, 0, 1, 0, 1, 0, 0, 0, 0, 0, 0, 0, 0, 1, 1, 1, 1, 1, 1, 1]
             \<lparr>shared = example_two_level, threads = [call_insert 11 5, call_insert 11 7]\<rparr> = return p"
    and tr: "map trace (threads p) =
             [[Acquire_Bucket 1, Release_Bucket 1, Acquire_Bucket 1, Release_Bucket 1],
              [Acquire_Bucket 1, Release_Bucket 1, Acquire_Bucket 1, Acquire_Entry 2, Release_Entry 2,
               Release_Bucket 1]]"
    and pcs: "map pc (threads p) = [Returned, Returned]"
    using example_race_traces by auto
  have calls: "\<forall>th\<in>set [call_insert 11 5, call_insert 11 7]. (\<exists>k v. th = call_insert k v) \<or> (\<exists>k. th = call_retrieve k)"
    by auto
  have ret: "\<forall>th\<in>set (threads p). pc th = Returned"
  proof
    fix th assume "th \<in> set (threads p)"
    then have "pc th \<in> set (map pc (threads p))" by simp
    then show "pc th = Returned" unfolding pcs by simp
  qed
  have 4: "\<forall>th\<in>set (threads p). lock_order_ok [] [] (trace th) \<and> locks_held [] [] (trace th) = ([], [])"
    using lock_ordering_discipline[of example_two_level 1 30 _ _ _ "[call_insert 11 5, call_insert 11 7]"
        "[0, 1, 0, 1, 0, 0, 1, 1, 0, 1, 0, 1, 0, 0, 0, 0, 0, 0, 0, 0, 1, 1, 1, 1, 1, 1, 1]" p,
        THEN conjunct2, THEN conjunct2, THEN mp, OF conjI, OF calls p] ret
    by blast
  note t1 = lock_ordering_discipline[of example_two_level 1 30, THEN conjunct1, THEN mp, OF wf_example_two_level]
  note t2 = lock_ordering_discipline[of example_two_level 11 5, THEN conjunct1, THEN mp, OF wf_example_two_level]
  have "\<exists>evs. lock_log c1 = lock_log example_two_level @ evs \<and> lock_order_ok [] [] evs \<and> locks_held [] [] evs = ([], [])"
    using t1[THEN conjunct1, rule_format, OF disjI1, OF c1] .
  then have 1: "lock_order_ok [] [] (lock_log c1) \<and> locks_held [] [] (lock_log c1) = ([], [])"
    unfolding l0 by auto
  have "\<exists>evs. lock_log c2 = lock_log example_two_level @ evs \<and> lock_order_ok [] [] evs \<and> locks_held [] [] evs = ([], [])"
    using t2[THEN conjunct1, rule_format, OF disjI1, OF c2] .
  then have 2: "lock_order_ok [] [] (lock_log c2) \<and> locks_held [] [] (lock_log c2) = ([], [])"
    unfolding l0 by auto
  have "\<exists>evs. lock_log c3 = lock_log example_two_level @ evs \<and> lock_order_ok [] [] evs \<and> locks_held [] [] evs = ([], [])"
    using t1[THEN conjunct2, rule_format, OF disjI1, OF c3] .
  then have 3: "lock_order_ok [] [] (lock_log c3) \<and> locks_held [] [] (lock_log c3) = ([], [])"
    unfolding l0 by auto
  show ?thesis
    using c1 l1 1[THEN conjunct1] 1[THEN conjunct2] c2 l2 2[THEN conjunct1] 2[THEN conjunct2]
      c3 l3 3[THEN conjunct1] 3[THEN conjunct2] p tr 4
    by (intro conjI exI) assumption+
qed

section \<open>C8: the arguments of the entry point\<close>

text \<open>
  The argument is read with \<open>atoi\<close>, which skips leading white space, takes an optional
  sign and then the longest run of decimal digits, and ignores whatever follows. So an
  argument that is not a positive integer but starts like one is accepted: \<open>3abc\<close> runs
  with three threads, \<open> +2 threads\<close> with two.
\<close>

theorem entry_point_accepts_trailing_text:
  "main_spin 8 [''./parallel_spin'', ''3abc''] = Some (Inr (3, init_spin 8))
   \<and> main_two_level 8 [''./parallel_mutex'', '' +2 threads''] = Some (Inr (2, init_two_level 8))"
  by (simp add: main_spin_def main_two_level_def check_args_def atoi_def isspace_def isdigit_def
      digits_value_def and_then_def return_def)

text \<open>
  C8, as the code has it. \<open>main\<close> of each variant, with \<open>argv\<close> the program name followed
  by the arguments, prints the usage line and exits with status 1 when the argument count
  is not one. Otherwise the argument reads as white space \<open>ws\<close>, an
  optional sign \<open>sg\<close>, a run of digits \<open>ds\<close> (possibly empty, of value 0 then) and a rest
  that \<open>atoi\<close> ignores; every argument reads so. Then
  \<^item> if the number read is not positive and fits an \<open>int\<close> (the sign is a minus and the
    digits are worth at most \<open>2^31\<close>, or the digits are worth 0, as they are when there is
    none), \<open>main\<close> prints \<open>must enter a valid number of threads to run\<close> and exits with
    status 1;
  \<^item> if the number read is positive and below \<open>2^31\<close>, \<open>main\<close> goes on with it as the
    thread count and a freshly initialised table, whatever follows the digits;
  \<^item> if the number read does not fit an \<open>int\<close>, the behaviour of \<open>atoi\<close>, and so of
    \<open>main\<close>, is undefined.

  The state of an exit is \<open>()\<close>: the table and its locks are initialised only after the
  checks.
\<close>

theorem entry_point_checks_arguments:
  "(length argv \<noteq> 2 \<longrightarrow>
      main_spin cells argv = Some (Inl (Exited 1 ''usage: ./parallel_spin <num_threads>'' ()))
      \<and> main_rw cells argv = Some (Inl (Exited 1 ''usage: ./parallel_mutex <num_threads>'' ()))
      \<and> main_two_level cells argv = Some (Inl (Exited 1 ''usage: ./parallel_mutex <num_threads>'' ())))
   \<and> (\<exists>ws sg ds rest. number_in arg ws sg ds rest)
   \<and> (length argv = 2 \<and> number_in (argv ! 1) ws sg ds rest \<longrightarrow>
        (sg = ''-'' \<and> digits_value ds \<le> 2 ^ 31 \<or> sg \<noteq> ''-'' \<and> digits_value ds = 0 \<longrightarrow>
            main_spin cells argv = Some (Inl (Exited 1 ''must enter a valid number of threads to run'' ()))
            \<and> main_rw cells argv = Some (Inl (Exited 1 ''must enter a valid number of threads to run'' ()))
            \<and> main_two_level cells argv = Some (Inl (Exited 1 ''must enter a valid number of threads to run'' ())))
        \<and> (sg \<noteq> ''-'' \<and> 0 < digits_value ds \<and> digits_value ds < 2 ^ 31 \<longrightarrow>
            main_spin cells argv = return (digits_value ds, init_spin cells)
            \<and> main_rw cells argv = return (digits_value ds, init_rw cells)
            \<and> main_two_level cells argv = return (digits_value ds, init_two_level cells))
        \<and> (sg = ''-'' \<and> 2 ^ 31 < digits_value ds \<or> sg \<noteq> ''-'' \<and> 2 ^ 31 \<le> digits_value ds \<longrightarrow>
            main_spin cells argv = Some (Inl Undefined_Behaviour)
            \<and> main_rw cells argv = Some (Inl Undefined_Behaviour)
            \<and> main_two_level cells argv = Some (Inl Undefined_Behaviour)))"
proof (intro conjI)
  show "length argv \<noteq> 2 \<longrightarrow>
      main_spin cells argv = Some (Inl (Exited 1 ''usage: ./parallel_spin <num_threads>'' ()))
      \<and> main_rw cells argv = Some (Inl (Exited 1 ''usage: ./parallel_mutex <num_threads>'' ()))
      \<and> main_two_level cells argv = Some (Inl (Exited 1 ''usage: ./parallel_mutex <num_threads>'' ()))"
    by (simp add: main_spin_def main_rw_def main_two_level_def check_args_def panic_def)
next
  show "\<exists>ws sg ds rest. number_in arg ws sg ds rest" by (rule number_in_exists)
next
  show "length argv = 2 \<and> number_in (argv ! 1) ws sg ds rest \<longrightarrow>
        (sg = ''-'' \<and> digits_value ds \<le> 2 ^ 31 \<or> sg \<noteq> ''-'' \<and> digits_value ds = 0 \<longrightarrow>
            main_spin cells argv = Some (Inl (Exited 1 ''must enter a valid number of threads to run'' ()))
            \<and> main_rw cells argv = Some (Inl (Exited 1 ''must enter a valid number of threads to run'' ()))
            \<and> main_two_level cells argv = Some (Inl (Exited 1 ''must enter a valid number of threads to run'' ())))
        \<and> (sg \<noteq> ''-'' \<and> 0 < digits_value ds \<and> digits_value ds < 2 ^ 31 \<longrightarrow>
            main_spin cells argv = return (digits_value ds, init_spin cells)
            \<and> main_rw cells argv = return (digits_value ds, init_rw cells)
            \<and> main_two_level cells argv = return (digits_value ds, init_two_level cells))
        \<and> (sg = ''-'' \<and> 2 ^ 31 < digits_value ds \<or> sg \<noteq> ''-'' \<and> 2 ^ 31 \<le> digits_value ds \<longrightarrow>
            main_spin cells argv = Some (Inl Undefined_Behaviour)
            \<and> main_rw cells argv = Some (Inl Undefined_Behaviour)
            \<and> main_two_level cells argv = Some (Inl Undefined_Behaviour))"
  proof (rule impI, elim conjE)
    assume a: "length argv = 2" "number_in (argv ! 1) ws sg ds rest"
    note c1 = check_args_number[OF a, of "''usage: ./parallel_spin <num_threads>''"]
    note c2 = check_args_number[OF a, of "''usage: ./parallel_mutex <num_threads>''"]
    show "(sg = ''-'' \<and> digits_value ds \<le> 2 ^ 31 \<or> sg \<noteq> ''-'' \<and> digits_value ds = 0 \<longrightarrow>
            main_spin cells argv = Some (Inl (Exited 1 ''must enter a valid number of threads to run'' ()))
            \<and> main_rw cells argv = Some (Inl (Exited 1 ''must enter a valid number of threads to run'' ()))
            \<and> main_two_level cells argv = Some (Inl (Exited 1 ''must enter a valid number of threads to run'' ())))
        \<and> (sg \<noteq> ''-'' \<and> 0 < digits_value ds \<and> digits_value ds < 2 ^ 31 \<longrightarrow>
            main_spin cells argv = return (digits_value ds, init_spin cells)
            \<and> main_rw cells argv = return (digits_value ds, init_rw cells)
            \<and> main_two_level cells argv = return (digits_value ds, init_two_level cells))
        \<and> (sg = ''-'' \<and> 2 ^ 31 < digits_value ds \<or> sg \<noteq> ''-'' \<and> 2 ^ 31 \<le> digits_value ds \<longrightarrow>
            main_spin cells argv = Some (Inl Undefined_Behaviour)
            \<and> main_rw cells argv = Some (Inl Undefined_Behaviour)
            \<and> main_two_level cells argv = Some (Inl Undefined_Behaviour))"
      unfolding main_spin_def main_rw_def main_two_level_def c1 c2
      by (intro conjI impI) (auto simp: return_def)
  qed
qed

theorem entry_point_checks_arguments_witness:
  "main_spin 8 [''./parallel_spin''] = Some (Inl (Exited 1 ''usage: ./parallel_spin <num_threads>'' ()))
   \<and> main_spin 8 [''./parallel_spin'', ''4'', ''5''] = Some (Inl (Exited 1 ''usage: ./parallel_spin <num_threads>'' ()))
   \<and> main_spin 8 [''./parallel_spin'', ''4''] = return (4, init_spin 8)
   \<and> main_rw 8 [''./parallel_mutex'', ''4''] = return (4, init_rw 8)
   \<and> main_two_level 8 [''./parallel_mutex'', ''4''] = return (4, init_two_level 8)
   \<and> main_rw 8 [''./parallel_mutex'', '' +2 threads''] = return (2, init_rw 8)
   \<and> main_spin 8 [''./parallel_spin'', ''0''] =
        Some (Inl (Exited 1 ''must enter a valid number of threads to run'' ()))
   \<and> main_spin 8 [''./parallel_spin'', ''+0''] =
        Some (Inl (Exited 1 ''must enter a valid number of threads to run'' ()))
   \<and> main_spin 8 [''./parallel_spin'', ''-2''] =
        Some (Inl (Exited 1 ''must enter a valid number of threads to run'' ()))
   \<and> main_spin 8 [''./parallel_spin'', '' -2''] =
        Some (Inl (Exited 1 ''must enter a valid number of threads to run'' ()))
   \<and> main_spin 8 [''./parallel_spin'', ''four''] =
        Some (Inl (Exited 1 ''must enter a valid number of threads to run'' ()))
   \<and> main_spin 8 [''./parallel_spin'', []] =
        Some (Inl (Exited 1 ''must enter a valid number of threads to run'' ()))
   \<and> main_spin 8 [''./parallel_spin'', ''-4294967295''] = Some (Inl Undefined_Behaviour)
   \<and> main_spin 8 [''./parallel_spin'', ''2147483648''] = Some (Inl Undefined_Behaviour)"
proof -
  note n = example_arguments and d = example_digits
  have 1: "main_spin 8 [''./parallel_spin''] = Some (Inl (Exited 1 ''usage: ./parallel_spin <num_threads>'' ()))"
    using entry_point_checks_arguments[of "[''./parallel_spin'']" 8, THEN conjunct1] by simp
  have 2: "main_spin 8 [''./parallel_spin'', ''4'', ''5''] = Some (Inl (Exited 1 ''usage: ./parallel_spin <num_threads>'' ()))"
    using entry_point_checks_arguments[of "[''./parallel_spin'', ''4'', ''5'']" 8, THEN conjunct1] by simp
  have 3: "main_spin 8 [''./parallel_spin'', ''4''] = return (4, init_spin 8)"
    using entry_point_checks_arguments[of "[''./parallel_spin'', ''4'']" 8 _ "[]" "[]" "''4''" "[]",
        THEN conjunct2, THEN conjunct2, THEN mp, THEN conjunct2, THEN conjunct1] n(1) d(1) by simp
  have 4: "main_rw 8 [''./parallel_mutex'', ''4''] = return (4, init_rw 8)
      \<and> main_two_level 8 [''./parallel_mutex'', ''4''] = return (4, init_two_level 8)"
    using entry_point_checks_arguments[of "[''./parallel_mutex'', ''4'']" 8 _ "[]" "[]" "''4''" "[]",
        THEN conjunct2, THEN conjunct2, THEN mp, THEN conjunct2, THEN conjunct1] n(1) d(1) by simp
  have 5: "main_rw 8 [''./parallel_mutex'', '' +2 threads''] = return (2, init_rw 8)"
    using entry_point_checks_arguments[of "[''./parallel_mutex'', '' +2 threads'']" 8 _ "'' ''" "''+''" "''2''" "'' threads''",
        THEN conjunct2, THEN conjunct2, THEN mp, THEN conjunct2, THEN conjunct1] n(2) d(2) by simp
  have 6: "main_spin 8 [''./parallel_spin'', ''0''] =
        Some (Inl (Exited 1 ''must enter a valid number of threads to run'' ()))"
    using entry_point_checks_arguments[of "[''./parallel_spin'', ''0'']" 8 _ "[]" "[]" "''0''" "[]",
        THEN conjunct2, THEN conjunct2, THEN mp, THEN conjunct1] n(4) d(4) by simp
  have 7: "main_spin 8 [''./parallel_spin'', ''+0''] =
        Some (Inl (Exited 1 ''must enter a valid number of threads to run'' ()))"
    using entry_point_checks_arguments[of "[''./parallel_spin'', ''+0'']" 8 _ "[]" "''+''" "''0''" "[]",
        THEN conjunct2, THEN conjunct2, THEN mp, THEN conjunct1] n(5) d(4) by simp
  have 8: "main_spin 8 [''./parallel_spin'', ''-2''] =
        Some (Inl (Exited 1 ''must enter a valid number of threads to run'' ()))"
    using entry_point_checks_arguments[of "[''./parallel_spin'', ''-2'']" 8 _ "[]" "''-''" "''2''" "[]",
        THEN conjunct2, THEN conjunct2, THEN mp, THEN conjunct1] n(6) d(2) by simp
  have 9: "main_spin 8 [''./parallel_spin'', '' -2''] =
        Some (Inl (Exited 1 ''must enter a valid number of threads to run'' ()))"
    using entry_point_checks_arguments[of "[''./parallel_spin'', '' -2'']" 8 _ "'' ''" "''-''" "''2''" "[]",
        THEN conjunct2, THEN conjunct2, THEN mp, THEN conjunct1] n(7) d(2) by simp
  have 10: "main_spin 8 [''./parallel_spin'', ''four''] =
        Some (Inl (Exited 1 ''must enter a valid number of threads to run'' ()))"
    using entry_point_checks_arguments[of "[''./parallel_spin'', ''four'']" 8 _ "[]" "[]" "[]" "''four''",
        THEN conjunct2, THEN conjunct2, THEN mp, THEN conjunct1] n(8) d(5) by simp
  have 11: "main_spin 8 [''./parallel_spin'', []] =
        Some (Inl (Exited 1 ''must enter a valid number of threads to run'' ()))"
    using entry_point_checks_arguments[of "[''./parallel_spin'', []]" 8 _ "[]" "[]" "[]" "[]",
        THEN conjunct2, THEN conjunct2, THEN mp, THEN conjunct1] n(9) d(5) by simp
  have 12: "main_spin 8 [''./parallel_spin'', ''-4294967295''] = Some (Inl Undefined_Behaviour)"
    using entry_point_checks_arguments[of "[''./parallel_spin'', ''-4294967295'']" 8 _ "[]" "''-''" "''4294967295''" "[]",
        THEN conjunct2, THEN conjunct2, THEN mp, THEN conjunct2, THEN conjunct2] n(10) d(6) by simp
  have 13: "main_spin 8 [''./parallel_spin'', ''2147483648''] = Some (Inl Undefined_Behaviour)"
    using entry_point_checks_arguments[of "[''./parallel_spin'', ''2147483648'']" 8 _ "[]" "[]" "''2147483648''" "[]",
        THEN conjunct2, THEN conjunct2, THEN mp, THEN conjunct2, THEN conjunct2] n(11) d(7) by simp
  show ?thesis
    by (intro conjI) (fact 1, fact 2, fact 3, fact 4[THEN conjunct1], fact 4[THEN conjunct2], fact 5, fact 6,
        fact 7, fact 8, fact 9, fact 10, fact 11, fact 12, fact 13)
qed

section \<open>C9: allocation failure releases every lock\<close>

text \<open>
  C9. When malloc fails while insert creates a new entry or lookup creates the copy, every
  lock the call holds is released before the process ends with a diagnostic: the state the
  process is left in has every bucket lock free (in the two-level variant every entry lock
  too, and the log of lock operations shows the entry lock of the lookup released and no
  lock held at the end), the table is as before the call, the exit status is 1 and the
  message names the failed allocation. There is no recoverable path: a call that needs a
  cell when malloc returns NULL always ends the process, and a call only ends the process
  for this reason. The statement holds in each of the three variants, from well-formed
  states.
\<close>

theorem allocation_failure_releases_locks:
  "(wf_spin sa \<longrightarrow>
      (\<forall>st msg sa'. insert_spin k v sa = Some (Inl (Exited st msg sa')) \<longrightarrow>
            st = 1 \<and> msg = ''No memory to allocate bucket!'' \<and> malloc sa = None
            \<and> bucket_spinlocks sa' = replicate 5 Spin_Unlocked \<and> sa' = sa)
       \<and> (\<forall>st msg sa'. retrieve_spin k sa = Some (Inl (Exited st msg sa')) \<longrightarrow>
            st = 1 \<and> msg = ''No memory to allocate result!'' \<and> malloc sa = None
            \<and> bucket_spinlocks sa' = replicate 5 Spin_Unlocked \<and> sa' = sa)
       \<and> (0 \<le> slot k \<and> stored sa k = None \<and> malloc sa = None \<longrightarrow>
            insert_spin k v sa = Some (Inl (Exited 1 ''No memory to allocate bucket!'' sa)))
       \<and> (stored sa k \<noteq> None \<and> malloc sa = None \<longrightarrow>
            retrieve_spin k sa = Some (Inl (Exited 1 ''No memory to allocate result!'' sa))))
  \<and> (wf_rw sb \<longrightarrow>
      (\<forall>st msg sb'. insert_rw k v sb = Some (Inl (Exited st msg sb')) \<longrightarrow>
            st = 1 \<and> msg = ''No memory to allocate bucket!'' \<and> malloc sb = None
            \<and> bucket_locks sb' = replicate 5 RW_Unlocked \<and> sb' = sb)
       \<and> (\<forall>st msg sb'. retrieve_rw k sb = Some (Inl (Exited st msg sb')) \<longrightarrow>
            st = 1 \<and> msg = ''No memory to allocate result!'' \<and> malloc sb = None
            \<and> bucket_locks sb' = replicate 5 RW_Unlocked \<and> sb' = sb)
       \<and> (0 \<le> slot k \<and> stored sb k = None \<and> malloc sb = None \<longrightarrow>
            insert_rw k v sb = Some (Inl (Exited 1 ''No memory to allocate bucket!'' sb)))
       \<and> (stored sb k \<noteq> None \<and> malloc sb = None \<longrightarrow>
            retrieve_rw k sb = Some (Inl (Exited 1 ''No memory to allocate result!'' sb))))
  \<and> (wf_two_level sc \<longrightarrow>
      (\<forall>st msg sc'. insert_two_level k v sc = Some (Inl (Exited st msg sc')) \<longrightarrow>
            st = 1 \<and> msg = ''No memory to allocate bucket!'' \<and> malloc sc = None
            \<and> bucket_locks sc' = replicate 5 RW_Unlocked \<and> entries_unlocked sc'
            \<and> heap sc' = heap sc \<and> table sc' = table sc
            \<and> (\<exists>evs. lock_log sc' = lock_log sc @ evs \<and> locks_held [] [] evs = ([], [])))
       \<and> (\<forall>st msg sc'. retrieve_two_level k sc = Some (Inl (Exited st msg sc')) \<longrightarrow>
            st = 1 \<and> msg = ''No memory to allocate result!'' \<and> malloc sc = None
            \<and> bucket_locks sc' = replicate 5 RW_Unlocked \<and> entries_unlocked sc'
            \<and> heap sc' = heap sc \<and> table sc' = table sc
            \<and> (\<exists>evs c. lock_log sc' = lock_log sc @ evs \<and> Release_Entry c \<in> set evs
                  \<and> locks_held [] [] evs = ([], [])))
       \<and> (0 \<le> slot k \<and> stored sc k = None \<and> malloc sc = None \<longrightarrow>
            (\<exists>sc'. insert_two_level k v sc = Some (Inl (Exited 1 ''No memory to allocate bucket!'' sc'))))
       \<and> (stored sc k \<noteq> None \<and> malloc sc = None \<longrightarrow>
            (\<exists>sc'. retrieve_two_level k sc = Some (Inl (Exited 1 ''No memory to allocate result!'' sc')))))"
proof (intro conjI)
  show "wf_spin sa \<longrightarrow>
      (\<forall>st msg sa'. insert_spin k v sa = Some (Inl (Exited st msg sa')) \<longrightarrow>
            st = 1 \<and> msg = ''No memory to allocate bucket!'' \<and> malloc sa = None
            \<and> bucket_spinlocks sa' = replicate 5 Spin_Unlocked \<and> sa' = sa)
       \<and> (\<forall>st msg sa'. retrieve_spin k sa = Some (Inl (Exited st msg sa')) \<longrightarrow>
            st = 1 \<and> msg = ''No memory to allocate result!'' \<and> malloc sa = None
            \<and> bucket_spinlocks sa' = replicate 5 Spin_Unlocked \<and> sa' = sa)
       \<and> (0 \<le> slot k \<and> stored sa k = None \<and> malloc sa = None \<longrightarrow>
            insert_spin k v sa = Some (Inl (Exited 1 ''No memory to allocate bucket!'' sa)))
       \<and> (stored sa k \<noteq> None \<and> malloc sa = None \<longrightarrow>
            retrieve_spin k sa = Some (Inl (Exited 1 ''No memory to allocate result!'' sa)))"
    by (rule impI, rule exits_spin)
next
  show "wf_rw sb \<longrightarrow>
      (\<forall>st msg sb'. insert_rw k v sb = Some (Inl (Exited st msg sb')) \<longrightarrow>
            st = 1 \<and> msg = ''No memory to allocate bucket!'' \<and> malloc sb = None
            \<and> bucket_locks sb' = replicate 5 RW_Unlocked \<and> sb' = sb)
       \<and> (\<forall>st msg sb'. retrieve_rw k sb = Some (Inl (Exited st msg sb')) \<longrightarrow>
            st = 1 \<and> msg = ''No memory to allocate result!'' \<and> malloc sb = None
            \<and> bucket_locks sb' = replicate 5 RW_Unlocked \<and> sb' = sb)
       \<and> (0 \<le> slot k \<and> stored sb k = None \<and> malloc sb = None \<longrightarrow>
            insert_rw k v sb = Some (Inl (Exited 1 ''No memory to allocate bucket!'' sb)))
       \<and> (stored sb k \<noteq> None \<and> malloc sb = None \<longrightarrow>
            retrieve_rw k sb = Some (Inl (Exited 1 ''No memory to allocate result!'' sb)))"
    by (rule impI, rule exits_rw)
next
  show "wf_two_level sc \<longrightarrow>
      (\<forall>st msg sc'. insert_two_level k v sc = Some (Inl (Exited st msg sc')) \<longrightarrow>
            st = 1 \<and> msg = ''No memory to allocate bucket!'' \<and> malloc sc = None
            \<and> bucket_locks sc' = replicate 5 RW_Unlocked \<and> entries_unlocked sc'
            \<and> heap sc' = heap sc \<and> table sc' = table sc
            \<and> (\<exists>evs. lock_log sc' = lock_log sc @ evs \<and> locks_held [] [] evs = ([], [])))
       \<and> (\<forall>st msg sc'. retrieve_two_level k sc = Some (Inl (Exited st msg sc')) \<longrightarrow>
            st = 1 \<and> msg = ''No memory to allocate result!'' \<and> malloc sc = None
            \<and> bucket_locks sc' = replicate 5 RW_Unlocked \<and> entries_unlocked sc'
            \<and> heap sc' = heap sc \<and> table sc' = table sc
            \<and> (\<exists>evs c. lock_log sc' = lock_log sc @ evs \<and> Release_Entry c \<in> set evs
                  \<and> locks_held [] [] evs = ([], [])))
       \<and> (0 \<le> slot k \<and> stored sc k = None \<and> malloc sc = None \<longrightarrow>
            (\<exists>sc'. insert_two_level k v sc = Some (Inl (Exited 1 ''No memory to allocate bucket!'' sc'))))
       \<and> (stored sc k \<noteq> None \<and> malloc sc = None \<longrightarrow>
            (\<exists>sc'. retrieve_two_level k sc = Some (Inl (Exited 1 ''No memory to allocate result!'' sc'))))"
    by (rule impI, rule exits_two_level)
qed

theorem allocation_failure_releases_locks_witness:
  "insert_spin 7 1 (init_spin 0) = Some (Inl (Exited 1 ''No memory to allocate bucket!'' (init_spin 0)))
   \<and> bucket_spinlocks (init_spin 0) = replicate 5 Spin_Unlocked
   \<and> retrieve_spin 1 (example_spin\<lparr>mem_cells := 2\<rparr>) =
        Some (Inl (Exited 1 ''No memory to allocate result!'' (example_spin\<lparr>mem_cells := 2\<rparr>)))
   \<and> insert_rw 7 1 (init_rw 0) = Some (Inl (Exited 1 ''No memory to allocate bucket!'' (init_rw 0)))
   \<and> retrieve_rw 1 (example_rw\<lparr>mem_cells := 2\<rparr>) =
        Some (Inl (Exited 1 ''No memory to allocate result!'' (example_rw\<lparr>mem_cells := 2\<rparr>)))
   \<and> (\<exists>s'. insert_two_level 7 1 (init_two_level 0) = Some (Inl (Exited 1 ''No memory to allocate bucket!'' s'))
          \<and> bucket_locks s' = replicate 5 RW_Unlocked \<and> entries_unlocked s'
          \<and> (\<exists>evs. lock_log s' = lock_log (init_two_level 0) @ evs \<and> locks_held [] [] evs = ([], [])))
   \<and> (\<exists>s'. retrieve_two_level 1 (example_two_level\<lparr>mem_cells := 2\<rparr>) =
            Some (Inl (Exited 1 ''No memory to allocate result!'' s'))
          \<and> bucket_locks s' = replicate 5 RW_Unlocked \<and> entries_unlocked s'
          \<and> (\<exists>evs c. lock_log s' = lock_log (example_two_level\<lparr>mem_cells := 2\<rparr>) @ evs
                \<and> Release_Entry c \<in> set evs \<and> locks_held [] [] evs = ([], [])))"
proof -
  have s7: "0 \<le> slot 7" by (simp add: example_slot)
  have e: "stored (init_spin 0) 7 = None" "stored (init_rw 0) 7 = None" "stored (init_two_level 0) 7 = None"
    by (simp_all add: stored_init init_spin_def init_rw_def init_two_level_def)
  note ia = allocation_failure_releases_locks[of "init_spin 0" 7 1 "init_rw 0" "init_two_level 0"]
  note ra = allocation_failure_releases_locks[of "example_spin\<lparr>mem_cells := 2\<rparr>" 1 0
      "example_rw\<lparr>mem_cells := 2\<rparr>" "example_two_level\<lparr>mem_cells := 2\<rparr>"]
  note ia1 = ia[THEN conjunct1, THEN mp, OF wf_init_spin]
  note ia2 = ia[THEN conjunct2, THEN conjunct1, THEN mp, OF wf_init_rw]
  note ia3 = ia[THEN conjunct2, THEN conjunct2, THEN mp, OF wf_init_two_level]
  have w: "wf_spin (example_spin\<lparr>mem_cells := 2\<rparr>)" "wf_rw (example_rw\<lparr>mem_cells := 2\<rparr>)"
    "wf_two_level (example_two_level\<lparr>mem_cells := 2\<rparr>)"
    using wf_example_spin wf_example_rw wf_example_two_level by simp_all
  note ra1 = ra[THEN conjunct1, THEN mp, OF w(1)]
  note ra2 = ra[THEN conjunct2, THEN conjunct1, THEN mp, OF w(2)]
  note ra3 = ra[THEN conjunct2, THEN conjunct2, THEN mp, OF w(3)]
  have 1: "insert_spin 7 1 (init_spin 0) = Some (Inl (Exited 1 ''No memory to allocate bucket!'' (init_spin 0)))"
    using ia1[THEN conjunct2, THEN conjunct2, THEN conjunct1] s7 e(1) example_full(4) by blast
  have 2: "bucket_spinlocks (init_spin 0) = replicate 5 Spin_Unlocked"
    using ia1[THEN conjunct1, rule_format, OF 1] by blast
  have 3: "retrieve_spin 1 (example_spin\<lparr>mem_cells := 2\<rparr>) =
        Some (Inl (Exited 1 ''No memory to allocate result!'' (example_spin\<lparr>mem_cells := 2\<rparr>)))"
    using ra1[THEN conjunct2, THEN conjunct2, THEN conjunct2] example_stored(1) example_full(1) by simp
  have 4: "insert_rw 7 1 (init_rw 0) = Some (Inl (Exited 1 ''No memory to allocate bucket!'' (init_rw 0)))"
    using ia2[THEN conjunct2, THEN conjunct2, THEN conjunct1] s7 e(2) example_full(5) by blast
  have 5: "retrieve_rw 1 (example_rw\<lparr>mem_cells := 2\<rparr>) =
        Some (Inl (Exited 1 ''No memory to allocate result!'' (example_rw\<lparr>mem_cells := 2\<rparr>)))"
    using ra2[THEN conjunct2, THEN conjunct2, THEN conjunct2] example_stored(2) example_full(2) by simp
  obtain s6 where s6: "insert_two_level 7 1 (init_two_level 0) = Some (Inl (Exited 1 ''No memory to allocate bucket!'' s6))"
    using ia3[THEN conjunct2, THEN conjunct2, THEN conjunct1] s7 e(3) example_full(6) by blast
  have 6: "\<exists>s'. insert_two_level 7 1 (init_two_level 0) = Some (Inl (Exited 1 ''No memory to allocate bucket!'' s'))
          \<and> bucket_locks s' = replicate 5 RW_Unlocked \<and> entries_unlocked s'
          \<and> (\<exists>evs. lock_log s' = lock_log (init_two_level 0) @ evs \<and> locks_held [] [] evs = ([], []))"
    using ia3[THEN conjunct1, rule_format, OF s6] s6 by blast
  obtain s7' where s7': "retrieve_two_level 1 (example_two_level\<lparr>mem_cells := 2\<rparr>) =
            Some (Inl (Exited 1 ''No memory to allocate result!'' s7'))"
    using ra3[THEN conjunct2, THEN conjunct2, THEN conjunct2] example_stored(3) example_full(3) by auto
  have 7: "\<exists>s'. retrieve_two_level 1 (example_two_level\<lparr>mem_cells := 2\<rparr>) =
            Some (Inl (Exited 1 ''No memory to allocate result!'' s'))
          \<and> bucket_locks s' = replicate 5 RW_Unlocked \<and> entries_unlocked s'
          \<and> (\<exists>evs c. lock_log s' = lock_log (example_two_level\<lparr>mem_cells := 2\<rparr>) @ evs
                \<and> Release_Entry c \<in> set evs \<and> locks_held [] [] evs = ([], []))"
    using ra3[THEN conjunct2, THEN conjunct1, rule_format, OF s7'] s7' by blast
  show ?thesis using 1 2 3 4 5 6 7 by (intro conjI)
qed

section \<open>C10: what insert and lookup leave unchanged\<close>




end
